(* ===== verification/Prelude.thy ===== *)
theory Prelude
  imports Main "HOL-Library.Word" "HOL-Library.List_Lexorder" "HOL-Library.Sublist"
begin

text \<open>
  The vocabulary the component theories share.  Machine integers of the Rust source are
  words of their width, byte strings are lists of bytes compared lexicographically (the
  derived \<open>Ord\<close> of \<open>Vec<u8>\<close>), and a fallible Rust function returns a sum, \<open>Inl\<close> for
  the \<open>Err\<close> side.  The theory holds the result combinators (\<open>?\<close> is \<open>rbind\<close>, a \<open>for\<close> loop
  with early return is \<open>rfold\<close>), big-endian integer encodings and the facts about
  lexicographic order, prefixes and strictly sorted lists that the codecs and the store use.
\<close>

type_synonym u8 = "8 word"
type_synonym u16 = "16 word"
type_synonym u32 = "32 word"
type_synonym u64 = "64 word"
type_synonym bytes = "u8 list"

named_theorems codec_simps \<open>equations that evaluate the byte codecs\<close>
named_theorems wf_intros \<open>introduction rules for the well-formedness predicates\<close>

subsection \<open>Results\<close>

fun rbind :: "'e + 'a \<Rightarrow> ('a \<Rightarrow> 'e + 'b) \<Rightarrow> 'e + 'b" where
  "rbind (Inl e) f = Inl e"
| "rbind (Inr x) f = f x"

fun map_err :: "('e \<Rightarrow> 'f) \<Rightarrow> 'e + 'a \<Rightarrow> 'f + 'a" where
  "map_err g (Inl e) = Inl (g e)"
| "map_err g (Inr x) = Inr x"

fun ok_opt :: "'e + 'a \<Rightarrow> 'a option" where
  "ok_opt (Inl e) = None"
| "ok_opt (Inr x) = Some x"

fun ok_or :: "'e \<Rightarrow> 'a option \<Rightarrow> 'e + 'a" where
  "ok_or e None = Inl e"
| "ok_or e (Some x) = Inr x"

fun rfold :: "('s \<Rightarrow> 'a \<Rightarrow> 'e + 's) \<Rightarrow> 's \<Rightarrow> 'a list \<Rightarrow> 'e + 's" where
  "rfold f s [] = Inr s"
| "rfold f s (x # xs) = rbind (f s x) (\<lambda>s'. rfold f s' xs)"

fun rmap :: "('a \<Rightarrow> 'e + 'b) \<Rightarrow> 'a list \<Rightarrow> 'e + 'b list" where
  "rmap f [] = Inr []"
| "rmap f (x # xs) = rbind (f x) (\<lambda>y. rbind (rmap f xs) (\<lambda>ys. Inr (y # ys)))"

lemma option_eqI: "(\<And>v. x = Some v \<longleftrightarrow> y = Some v) \<Longrightarrow> x = y"
  by (cases x; cases y) auto

lemma rbind_Inr_iff: "rbind m f = Inr y \<longleftrightarrow> (\<exists>x. m = Inr x \<and> f x = Inr y)"
  by (cases m) auto

lemma rbind_Inl_iff: "rbind m f = Inl e \<longleftrightarrow> m = Inl e \<or> (\<exists>x. m = Inr x \<and> f x = Inl e)"
  by (cases m) auto

lemma map_err_Inr_iff [simp]: "map_err g m = Inr y \<longleftrightarrow> m = Inr y"
  by (cases m) auto

lemma map_err_Inl_iff: "map_err g m = Inl e \<longleftrightarrow> (\<exists>d. m = Inl d \<and> e = g d)"
  by (cases m) auto

lemma ok_opt_Some_iff [simp]: "ok_opt m = Some y \<longleftrightarrow> m = Inr y"
  by (cases m) auto

lemma ok_or_Inr_iff [simp]: "ok_or e m = Inr y \<longleftrightarrow> m = Some y"
  by (cases m) auto

lemma rbind_assoc: "rbind (rbind m f) g = rbind m (\<lambda>x. rbind (f x) g)"
  by (cases m) auto

lemma rfold_append: "rfold f s (xs @ ys) = rbind (rfold f s xs) (\<lambda>s'. rfold f s' ys)"
  by (induction xs arbitrary: s) (auto simp: rbind_assoc)

lemma rfold_invariant:
  assumes "rfold f s xs = Inr s'" and "P [] s"
    and "\<And>pre x suf t t'. xs = pre @ x # suf \<Longrightarrow> P pre t \<Longrightarrow> f t x = Inr t' \<Longrightarrow> P (pre @ [x]) t'"
  shows "P xs s'"
  using assms
proof (induction xs arbitrary: s' rule: rev_induct)
  case Nil
  then show ?case by simp
next
  case (snoc x xs)
  from snoc.prems(1) obtain t where t: "rfold f s xs = Inr t" and ft: "f t x = Inr s'"
    by (auto simp: rfold_append rbind_Inr_iff)
  have "P xs t"
  proof (rule snoc.IH [OF t snoc.prems(2)])
    fix pre y suf u u'
    assume "xs = pre @ y # suf" "P pre u" "f u y = Inr u'"
    then show "P (pre @ [y]) u'" using snoc.prems(3) [of pre y "suf @ [x]" u u'] by simp
  qed
  with ft show ?case using snoc.prems(3) [of xs x "[]"] by simp
qed

lemma rmap_Inr_iff: "rmap f xs = Inr ys \<longleftrightarrow> list_all2 (\<lambda>x y. f x = Inr y) xs ys"
  by (induction xs arbitrary: ys) (auto simp: rbind_Inr_iff list_all2_Cons1)

lemma rmap_total: "(\<And>x. x \<in> set xs \<Longrightarrow> f x = Inr (g x)) \<Longrightarrow> rmap f xs = Inr (map g xs)"
  by (induction xs) auto


subsection \<open>Lexicographic order\<close>

lemma append_less_append [simp]: "(xs @ ys :: 'a::linorder list) < xs @ zs \<longleftrightarrow> ys < zs"
  by (induction xs) auto

lemma append_le_append [simp]: "(xs @ ys :: 'a::linorder list) \<le> xs @ zs \<longleftrightarrow> ys \<le> zs"
  by (simp add: linorder_not_less [symmetric])

lemma less_append: "(xs :: 'a::linorder list) < xs @ ys \<longleftrightarrow> ys \<noteq> []"
  using append_less_append [of xs "[]" ys] by (cases ys) auto

lemma prefix_le: "prefix xs ys \<Longrightarrow> (xs :: 'a::linorder list) \<le> ys"
  by (auto simp: prefix_def) (metis append_le_append append_Nil2 Nil_le_Cons neq_Nil_conv order_refl)

lemma less_append_same_length:
  "length xs = length ys \<Longrightarrow> (xs :: 'a::linorder list) < ys \<Longrightarrow> xs @ us < ys @ vs"
  by (induction xs ys rule: list_induct2) auto

lemma strict_mono_less_iff:
  fixes f :: "'a::linorder \<Rightarrow> 'b::linorder"
  assumes "\<And>x y. x < y \<Longrightarrow> f x < f y"
  shows "f x < f y \<longleftrightarrow> x < y"
  using assms by (metis linorder_neqE not_less_iff_gr_or_eq)

subsection \<open>Big-endian integers\<close>

primrec nat_be :: "nat \<Rightarrow> nat \<Rightarrow> bytes" where
  "nat_be 0 x = []"
| "nat_be (Suc n) x = nat_be n (x div 256) @ [of_nat (x mod 256)]"

definition be_nat :: "bytes \<Rightarrow> nat" where
  "be_nat bs = foldl (\<lambda>a b. a * 256 + unat b) 0 bs"

lemma length_nat_be [simp]: "length (nat_be n x) = n"
  by (induction n arbitrary: x) auto

lemma be_nat_Nil [simp]: "be_nat [] = 0"
  by (simp add: be_nat_def)

lemma be_nat_snoc [simp]: "be_nat (bs @ [b]) = be_nat bs * 256 + unat b"
  by (simp add: be_nat_def)

lemma unat_bound: "unat (w :: 'a::len word) < 2 ^ LENGTH('a)"
  by (rule unsigned_less)

lemma unat_u8_less [simp]: "unat (b :: u8) < 256"
  using unat_bound [of b] by simp

lemma be_nat_nat_be: "be_nat (nat_be n x) = x mod 256 ^ n"
proof (induction n arbitrary: x)
  case 0
  then show ?case by simp
next
  case (Suc n)
  have "unat (of_nat (x mod 256) :: u8) = x mod 256"
    by (simp add: unat_of_nat)
  with Suc show ?case
    by (simp add: mod_mult2_eq mult.commute)
qed

lemma nat_be_be_nat: "nat_be (length bs) (be_nat bs) = bs"
proof (induction bs rule: rev_induct)
  case Nil
  then show ?case by simp
next
  case (snoc b bs)
  then show ?case by simp
qed

lemma be_nat_less: "be_nat bs < 256 ^ length bs"
proof (induction bs rule: rev_induct)
  case Nil
  then show ?case by simp
next
  case (snoc b bs)
  have "be_nat bs * 256 + unat b < (be_nat bs + 1) * 256" by simp
  also have "\<dots> \<le> 256 ^ length bs * 256" using snoc by (simp only: mult_le_mono1 Suc_leI Suc_eq_plus1 [symmetric])
  finally show ?case by simp
qed

lemma nat_be_inject:
  "x < 256 ^ n \<Longrightarrow> y < 256 ^ n \<Longrightarrow> nat_be n x = nat_be n y \<longleftrightarrow> x = y"
  by (metis be_nat_nat_be mod_less)

lemma snoc_less_snoc:
  "length xs = length ys \<Longrightarrow>
   (xs :: 'a::linorder list) @ [x] < ys @ [y] \<longleftrightarrow> xs < ys \<or> xs = ys \<and> x < y"
  by (induction xs ys rule: list_induct2) auto

lemma div_mod_less_iff:
  "(x :: nat) < y \<longleftrightarrow> x div n < y div n \<or> x div n = y div n \<and> x mod n < y mod n"
proof (cases "x div n" "y div n" rule: linorder_cases)
  case less
  then show ?thesis by (meson div_le_mono linorder_not_le)
next
  case equal
  then show ?thesis by (metis add_less_cancel_left div_mult_mod_eq order_less_irrefl)
next
  case greater
  then show ?thesis by (metis div_le_mono linorder_not_less order_less_imp_le order_less_irrefl)
qed

lemma nat_be_less_iff:
  "x < 256 ^ n \<Longrightarrow> y < 256 ^ n \<Longrightarrow> nat_be n x < nat_be n y \<longleftrightarrow> x < y"
proof (induction n arbitrary: x y)
  case 0
  then show ?case by simp
next
  case (Suc n)
  have d: "x div 256 < 256 ^ n" "y div 256 < 256 ^ n"
    using Suc.prems by (simp_all add: less_mult_imp_div_less mult.commute)
  have m: "(of_nat (x mod 256) :: u8) < of_nat (y mod 256) \<longleftrightarrow> x mod 256 < y mod 256"
    by (simp add: word_less_nat_alt unat_of_nat)
  have "nat_be (Suc n) x < nat_be (Suc n) y \<longleftrightarrow>
      x div 256 < y div 256 \<or> x div 256 = y div 256 \<and> x mod 256 < y mod 256"
    using Suc.IH [OF d] nat_be_inject [OF d] m by (simp add: snoc_less_snoc)
  also have "\<dots> \<longleftrightarrow> x < y"
    by (rule div_mod_less_iff [symmetric])
  finally show ?case .
qed

definition u16_be :: "u16 \<Rightarrow> bytes" where "u16_be w = nat_be 2 (unat w)"
definition u32_be :: "u32 \<Rightarrow> bytes" where "u32_be w = nat_be 4 (unat w)"
definition u64_be :: "u64 \<Rightarrow> bytes" where "u64_be w = nat_be 8 (unat w)"
definition u16_of_be :: "bytes \<Rightarrow> u16" where "u16_of_be bs = of_nat (be_nat bs)"
definition u32_of_be :: "bytes \<Rightarrow> u32" where "u32_of_be bs = of_nat (be_nat bs)"
definition u64_of_be :: "bytes \<Rightarrow> u64" where "u64_of_be bs = of_nat (be_nat bs)"

lemmas be_defs = u16_be_def u32_be_def u64_be_def u16_of_be_def u32_of_be_def u64_of_be_def

lemma length_u_be [simp]:
  "length (u16_be v) = 2" "length (u32_be w) = 4" "length (u64_be x) = 8"
  by (simp_all add: be_defs)

lemma u16_less [simp]: "unat (w :: u16) < 65536"
  using unat_bound [of w] by simp

lemma u32_less [simp]: "unat (w :: u32) < 4294967296"
  using unat_bound [of w] by simp

lemma u64_less [simp]: "unat (w :: u64) < 18446744073709551616"
  using unat_bound [of w] by simp

lemma u64_le [simp]: "unat (w :: u64) \<le> 18446744073709551615"
  using u64_less [of w] by linarith

lemma u_of_be_be [simp]:
  "u16_of_be (u16_be v) = v" "u32_of_be (u32_be w) = w" "u64_of_be (u64_be x) = x"
  by (simp_all add: be_defs be_nat_nat_be)

lemma u_be_of_be:
  "length bs = 2 \<Longrightarrow> u16_be (u16_of_be bs) = bs"
  "length bs = 4 \<Longrightarrow> u32_be (u32_of_be bs) = bs"
  "length bs = 8 \<Longrightarrow> u64_be (u64_of_be bs) = bs"
  using be_nat_less [of bs] nat_be_be_nat [of bs]
  by (simp_all add: be_defs unat_of_nat)

lemma u_be_inject [simp]:
  "u16_be v = u16_be v' \<longleftrightarrow> v = v'" "u32_be w = u32_be w' \<longleftrightarrow> w = w'" "u64_be x = u64_be x' \<longleftrightarrow> x = x'"
  by (metis u_of_be_be)+

lemma u_be_less_iff [simp]:
  "u16_be v < u16_be v' \<longleftrightarrow> v < v'" "u32_be w < u32_be w' \<longleftrightarrow> w < w'" "u64_be x < u64_be x' \<longleftrightarrow> x < x'"
  by (simp_all add: be_defs nat_be_less_iff word_less_nat_alt)

lemma u_be_nonempty [simp]: "u16_be v \<noteq> []" "u32_be w \<noteq> []" "u64_be x \<noteq> []"
  by (metis length_u_be list.size(3) zero_neq_numeral)+

subsection \<open>Saturating and checked unsigned arithmetic\<close>

definition sat_add64 :: "u64 \<Rightarrow> u64 \<Rightarrow> u64" where
  "sat_add64 a b = (if unat a + unat b < 2 ^ 64 then a + b else - 1)"

definition sat_sub64 :: "u64 \<Rightarrow> u64 \<Rightarrow> u64" where
  "sat_sub64 a b = (if b \<le> a then a - b else 0)"

definition checked_add64 :: "u64 \<Rightarrow> u64 \<Rightarrow> u64 option" where
  "checked_add64 a b = (if unat a + unat b < 2 ^ 64 then Some (a + b) else None)"

lemma unat_add_u64: "unat a + unat b < 2 ^ 64 \<Longrightarrow> unat (a + b :: u64) = unat a + unat b"
  by (simp add: unat_word_ariths)

lemma unat_sat_add64: "unat (sat_add64 a b) = min (unat a + unat b) (2 ^ 64 - 1)"
proof (cases "unat a + unat b < 2 ^ 64")
  case True
  then show ?thesis by (simp add: sat_add64_def unat_add_u64)
next
  case False
  moreover have "unat (- 1 :: u64) = 2 ^ 64 - 1" by (simp add: unsigned_minus_1_eq_mask mask_eq_exp_minus_1)
  ultimately show ?thesis by (simp add: sat_add64_def)
qed

lemma unat_sat_sub64: "unat (sat_sub64 a b) = unat a - unat b"
  by (auto simp: sat_sub64_def unat_sub word_le_nat_alt)

lemma sat_add64_ge: "a \<le> sat_add64 a b"
  unfolding word_le_nat_alt unat_sat_add64 using u64_less [of a]
  by (simp del: u64_less)

subsection \<open>Strictly sorted lists\<close>

lemma subseq_set: "subseq xs ys \<Longrightarrow> set xs \<subseteq> set ys"
  by (induction rule: list_emb.induct) auto

lemma sorted_wrt_less_distinct: "sorted_wrt (<) (xs :: 'a::linorder list) \<Longrightarrow> distinct xs"
  by (simp add: strict_sorted_iff)

lemma strict_sorted_unique:
  "sorted_wrt (<) (xs :: 'a::linorder list) \<Longrightarrow> sorted_wrt (<) ys \<Longrightarrow> set xs = set ys \<Longrightarrow> xs = ys"
  by (simp add: strict_sorted_equal)

end
