(* ===== verification/Key.thy ===== *)
theory Key
  imports Prelude
begin

text \<open>
  Tuple keys and their order-preserving flat encoding (\<open>core/src/key.rs\<close>).  A key component
  is a byte string and a key is a list of components; the Rust newtypes keep their fields
  private, so every value they hold satisfies \<open>wf_component\<close> or \<open>wf_key\<close>, which is what their
  constructors check.  The derived \<open>Ord\<close> of both newtypes is the lexicographic order.

  The lemmas give the three properties the module promises: decoding inverts encoding (in both
  directions, so the encoding is canonical), the encoding preserves the tuple order, and a
  component-wise prefix is exactly a byte prefix of the encoding.
\<close>

type_synonym key_component = bytes
type_synonym key = "key_component list"

definition MAX_COMPONENTS :: nat where "MAX_COMPONENTS = 256"
definition MAX_COMPONENT_LEN :: nat where "MAX_COMPONENT_LEN = 65535"
definition MAX_ENCODED_KEY_LEN :: nat where "MAX_ENCODED_KEY_LEN = 1024 * 1024"
definition USIZE_MAX :: nat where "USIZE_MAX = 2 ^ 64 - 1"

lemmas key_limits = MAX_COMPONENTS_def MAX_COMPONENT_LEN_def MAX_ENCODED_KEY_LEN_def USIZE_MAX_def

datatype KeyError =
    Empty
  | EmptyComponent
  | TooManyComponents nat
  | ComponentTooLong nat
  | EncodedTooLong nat

datatype DecodeError =
    Truncated
  | InvalidEscape nat u8
  | InvalidKey KeyError

subsection \<open>Operations\<close>

definition KeyComponent_new :: "bytes \<Rightarrow> KeyError + key_component" where
  "KeyComponent_new bs =
     (if bs = [] then Inl EmptyComponent
      else if length bs > MAX_COMPONENT_LEN then Inl (ComponentTooLong (length bs))
      else Inr bs)"

definition usize_saturating_add :: "nat \<Rightarrow> nat \<Rightarrow> nat" where
  "usize_saturating_add a b = min (a + b) USIZE_MAX"

definition encoded_components_len :: "key_component list \<Rightarrow> nat" where
  "encoded_components_len components =
     foldl (\<lambda>total component.
       usize_saturating_add total
         (foldl (\<lambda>len byte. usize_saturating_add len ((if byte = 0 then 1 else 0) + 1)) 2 component))
       0 components"

fun encode_component :: "key_component \<Rightarrow> bytes" where
  "encode_component [] = [0, 0]"
| "encode_component (b # bs) = (if b = 0 then [0, 1] else [b]) @ encode_component bs"

definition encode_components :: "key_component list \<Rightarrow> bytes" where
  "encode_components components = concat (map encode_component components)"

definition push_component_byte :: "bytes \<Rightarrow> u8 \<Rightarrow> DecodeError + bytes" where
  "push_component_byte current byte =
     (if length current = MAX_COMPONENT_LEN
      then Inl (InvalidKey (ComponentTooLong (length current + 1)))
      else Inr (current @ [byte]))"

fun decode_loop ::
  "nat \<Rightarrow> bytes \<Rightarrow> bytes \<Rightarrow> key_component list \<Rightarrow> bool \<Rightarrow> DecodeError + (key_component list \<times> bool)"
where
  "decode_loop i [] current components at_boundary = Inr (components, at_boundary)"
| "decode_loop i [b] current components at_boundary =
     (if b = 0 then Inl Truncated
      else rbind (push_component_byte current b) (\<lambda>current'.
        decode_loop (i + 1) [] current' components False))"
| "decode_loop i (b # c # rest) current components at_boundary =
     (if b = 0 then
        (if c = 0 then
           rbind (map_err InvalidKey (KeyComponent_new current)) (\<lambda>component.
             decode_loop (i + 2) rest [] (components @ [component]) True)
         else if c = 1 then
           rbind (push_component_byte current 0) (\<lambda>current'.
             decode_loop (i + 2) rest current' components False)
         else Inl (InvalidEscape i c))
      else rbind (push_component_byte current b) (\<lambda>current'.
        decode_loop (i + 1) (c # rest) current' components False))"

definition decode_components :: "bytes \<Rightarrow> DecodeError + key_component list" where
  "decode_components bs =
     rbind (decode_loop 0 bs [] [] True) (\<lambda>(components, at_boundary).
       if \<not> at_boundary \<and> bs \<noteq> [] then Inl Truncated else Inr components)"

definition Key_new :: "key_component list \<Rightarrow> KeyError + key" where
  "Key_new components =
     (if components = [] then Inl Empty
      else if length components > MAX_COMPONENTS then Inl (TooManyComponents (length components))
      else (let encoded_len = encoded_components_len components in
        if encoded_len > MAX_ENCODED_KEY_LEN then Inl (EncodedTooLong encoded_len)
        else Inr components))"

definition Key_from_bytes :: "bytes list \<Rightarrow> KeyError + key" where
  "Key_from_bytes components = rbind (rmap KeyComponent_new components) Key_new"

definition Key_starts_with :: "key \<Rightarrow> key \<Rightarrow> bool" where
  "Key_starts_with key pre \<longleftrightarrow> prefix pre key"

definition Key_encode :: "key \<Rightarrow> bytes" where
  "Key_encode key = encode_components key"

definition Key_decode :: "bytes \<Rightarrow> DecodeError + key" where
  "Key_decode bs =
     (if length bs > MAX_ENCODED_KEY_LEN then Inl (InvalidKey (EncodedTooLong (length bs)))
      else rbind (decode_components bs) (\<lambda>components. map_err InvalidKey (Key_new components)))"

subsection \<open>Well-formedness\<close>

definition wf_component :: "key_component \<Rightarrow> bool" where
  "wf_component c \<longleftrightarrow> c \<noteq> [] \<and> length c \<le> MAX_COMPONENT_LEN"

definition wf_key :: "key \<Rightarrow> bool" where
  "wf_key k \<longleftrightarrow> k \<noteq> [] \<and> length k \<le> MAX_COMPONENTS \<and> list_all wf_component k \<and>
     length (encode_components k) \<le> MAX_ENCODED_KEY_LEN"

lemma KeyComponent_new_Inr_iff [simp]: "KeyComponent_new bs = Inr c \<longleftrightarrow> wf_component bs \<and> c = bs"
  by (auto simp: KeyComponent_new_def wf_component_def)

lemma wf_component_new: "wf_component c \<Longrightarrow> KeyComponent_new c = Inr c"
  by simp

lemma encode_components_Nil [simp]: "encode_components [] = []"
  by (simp add: encode_components_def)

lemma encode_components_Cons [simp]:
  "encode_components (c # cs) = encode_component c @ encode_components cs"
  by (simp add: encode_components_def)

lemma encode_components_append [simp]:
  "encode_components (cs @ ds) = encode_components cs @ encode_components ds"
  by (simp add: encode_components_def)

lemma encode_component_nonempty [simp]: "encode_component c \<noteq> []"
  by (cases c) auto

subsection \<open>The length computation\<close>

lemma component_len_fold:
  "n \<le> USIZE_MAX \<Longrightarrow>
   foldl (\<lambda>len byte. usize_saturating_add len ((if byte = 0 then 1 else 0) + 1)) n c
     = min (n + length (encode_component c) - 2) USIZE_MAX"
proof (induction c arbitrary: n)
  case Nil
  then show ?case by simp
next
  case (Cons b c)
  have "2 \<le> length (encode_component c)"
    by (induction c) auto
  with Cons show ?case
    by (auto simp: usize_saturating_add_def min_def)
qed

lemma usize_saturating_add_min:
  "usize_saturating_add (min a USIZE_MAX) (min b USIZE_MAX) = min (a + b) USIZE_MAX"
  by (auto simp: usize_saturating_add_def min_def)

lemma encoded_components_len_fold:
  "foldl (\<lambda>total component.
       usize_saturating_add total
         (foldl (\<lambda>len byte. usize_saturating_add len ((if byte = 0 then 1 else 0) + 1)) 2 component))
     (min n USIZE_MAX) cs = min (n + length (encode_components cs)) USIZE_MAX"
proof (induction cs arbitrary: n)
  case Nil
  then show ?case by simp
next
  case (Cons c cs)
  have "foldl (\<lambda>len byte. usize_saturating_add len ((if byte = 0 then 1 else 0) + 1)) 2 c
      = min (length (encode_component c)) USIZE_MAX"
    by (subst component_len_fold) (simp_all add: key_limits)
  then show ?case
    using Cons [of "n + length (encode_component c)"]
    by (simp add: usize_saturating_add_min add.assoc)
qed

lemma encoded_components_len_eq:
  "encoded_components_len cs = min (length (encode_components cs)) USIZE_MAX"
  using encoded_components_len_fold [of 0 cs] by (simp add: encoded_components_len_def)

lemma encoded_components_len_le_iff:
  "encoded_components_len cs \<le> MAX_ENCODED_KEY_LEN \<longleftrightarrow> length (encode_components cs) \<le> MAX_ENCODED_KEY_LEN"
  by (auto simp: encoded_components_len_eq key_limits min_def)

lemma Key_new_Inr_iff:
  "list_all wf_component cs \<Longrightarrow> Key_new cs = Inr k \<longleftrightarrow> wf_key cs \<and> k = cs"
  using encoded_components_len_le_iff [of cs]
  by (auto simp: Key_new_def wf_key_def Let_def not_less)

lemma Key_new_wf [simp]: "wf_key k \<Longrightarrow> Key_new k = Inr k"
  using Key_new_Inr_iff [of k k] by (simp add: wf_key_def)

lemma Key_from_bytes_Inr_iff: "Key_from_bytes cs = Inr k \<longleftrightarrow> wf_key cs \<and> k = cs"
proof -
  have "rmap KeyComponent_new cs = Inr ds \<longleftrightarrow> list_all wf_component cs \<and> ds = cs" for ds
    by (induction cs arbitrary: ds) (auto simp: rbind_Inr_iff)
  then have "Key_from_bytes cs = Inr k \<longleftrightarrow> list_all wf_component cs \<and> Key_new cs = Inr k"
    by (simp add: Key_from_bytes_def rbind_Inr_iff)
  also have "\<dots> \<longleftrightarrow> wf_key cs \<and> k = cs"
    using Key_new_Inr_iff [of cs k] by (auto simp: wf_key_def)
  finally show ?thesis .
qed

lemma wf_key_take:
  assumes "wf_key k" and "0 < n"
  shows "wf_key (take n k)"
proof -
  have "length (encode_components (take n k)) \<le> length (encode_components k)"
    by (metis append_take_drop_id encode_components_append le_add1 length_append)
  with assms show ?thesis
    by (auto simp: wf_key_def list_all_iff dest: in_set_takeD)
qed

lemma wf_key_prefix: "wf_key k \<Longrightarrow> prefix p k \<Longrightarrow> p \<noteq> [] \<Longrightarrow> wf_key p"
  using wf_key_take [of k "length p"] by (auto simp: prefix_def)

subsection \<open>Round trips\<close>

fun escape :: "bytes \<Rightarrow> bytes" where
  "escape [] = []"
| "escape (b # bs) = (if b = 0 then [0, 1] else [b]) @ escape bs"

lemma encode_component_escape: "encode_component c = escape c @ [0, 0]"
  by (induction c) auto

lemma escape_append [simp]: "escape (c @ d) = escape c @ escape d"
  by (induction c) auto

lemma decode_loop_step:
  "b \<noteq> 0 \<Longrightarrow> decode_loop i (b # rest) current components at_boundary =
     rbind (push_component_byte current b) (\<lambda>current'.
        decode_loop (i + 1) rest current' components False)"
  by (cases rest) auto

lemma decode_loop_escape:
  "length current + length c \<le> MAX_COMPONENT_LEN \<Longrightarrow>
   decode_loop i (escape c @ rest) current components at_boundary =
     decode_loop (i + length (escape c)) rest (current @ c) components (at_boundary \<and> c = [])"
proof (induction c arbitrary: i current at_boundary)
  case Nil
  then show ?case by simp
next
  case (Cons b c)
  then have "push_component_byte current b = Inr (current @ [b])"
    by (simp add: push_component_byte_def)
  with Cons show ?case
    by (auto simp: decode_loop_step)
qed

lemma decode_loop_encode:
  "list_all wf_component cs \<Longrightarrow>
   decode_loop i (encode_components cs) [] components at_boundary =
     Inr (components @ cs, at_boundary \<or> cs \<noteq> [])"
proof (induction cs arbitrary: i components at_boundary)
  case Nil
  then show ?case by simp
next
  case (Cons c cs)
  then have c: "length ([] :: bytes) + length c \<le> MAX_COMPONENT_LEN" "wf_component c"
    by (simp_all add: wf_component_def)
  show ?case
    using decode_loop_escape [OF c(1), of i "[0, 0] @ encode_components cs" components at_boundary]
      c(2) Cons by (simp add: encode_component_escape wf_component_new)
qed

lemma decode_encode_components:
  "list_all wf_component cs \<Longrightarrow> decode_components (encode_components cs) = Inr cs"
  by (simp add: decode_components_def decode_loop_encode)

lemma Key_decode_encode_wf: "wf_key k \<Longrightarrow> Key_decode (Key_encode k) = Inr k"
  by (auto simp: Key_decode_def Key_encode_def decode_encode_components wf_key_def not_less Key_new_Inr_iff)

lemma decode_loop_sound:
  assumes "decode_loop i bs current components at_boundary = Inr (cs, ab)"
    and "at_boundary \<longrightarrow> current = []" and "list_all wf_component components"
  shows "\<exists>left. encode_components components @ escape current @ bs = encode_components cs @ escape left
     \<and> (ab \<longrightarrow> left = []) \<and> list_all wf_component cs"
  using assms
proof (induction i bs current components at_boundary rule: decode_loop.induct)
  case (1 i current components at_boundary)
  then show ?case by auto
next
  case (2 i b current components at_boundary)
  then show ?case
    by (auto simp: rbind_Inr_iff push_component_byte_def intro!: exI [of _ "current @ [b]"] split: if_splits)
next
  case (3 i b c rest current components at_boundary)
  consider (stop) "b = 0" "c = 0" | (zero) "b = 0" "c = 1" | (bad) "b = 0" "c \<noteq> 0" "c \<noteq> 1" | (plain) "b \<noteq> 0"
    by blast
  then show ?case
  proof cases
    case stop
    with "3.prems" have w: "wf_component current"
      and l: "decode_loop (i + 2) rest [] (components @ [current]) True = Inr (cs, ab)"
      by (auto simp: rbind_Inr_iff)
    from "3.IH"(1) [OF stop l] w "3.prems"(3) stop show ?thesis
      by (auto simp: encode_component_escape)
  next
    case zero
    with "3.prems" obtain cur where p: "push_component_byte current 0 = Inr cur"
      and l: "decode_loop (i + 2) rest cur components False = Inr (cs, ab)"
      by (auto simp: rbind_Inr_iff)
    from p have "cur = current @ [0]" by (auto simp: push_component_byte_def split: if_splits)
    with "3.IH"(2) [OF zero(1) _ zero(2) l] "3.prems"(3) zero show ?thesis by simp
  next
    case bad
    with "3.prems" show ?thesis by simp
  next
    case plain
    with "3.prems" obtain cur where p: "push_component_byte current b = Inr cur"
      and l: "decode_loop (i + 1) (c # rest) cur components False = Inr (cs, ab)"
      by (auto simp: rbind_Inr_iff)
    from p have "cur = current @ [b]" by (auto simp: push_component_byte_def split: if_splits)
    with "3.IH"(3) [OF plain l] "3.prems"(3) plain show ?thesis by simp
  qed
qed

lemma decode_components_sound:
  assumes "decode_components bs = Inr cs"
  shows "encode_components cs = bs \<and> list_all wf_component cs"
proof -
  from assms obtain ab where "decode_loop 0 bs [] [] True = Inr (cs, ab)" and "ab \<or> bs = []"
    by (auto simp: decode_components_def rbind_Inr_iff split: if_splits prod.splits)
  with decode_loop_sound [of 0 bs "[]" "[]" True cs ab] show ?thesis by auto
qed

lemma decode_components_iff:
  "decode_components bs = Inr cs \<longleftrightarrow> bs = encode_components cs \<and> list_all wf_component cs"
  using decode_components_sound [of bs cs] decode_encode_components [of cs] by auto

lemma Key_decode_Inr_iff: "Key_decode bs = Inr k \<longleftrightarrow> bs = Key_encode k \<and> wf_key k"
proof
  assume "Key_decode bs = Inr k"
  then show "bs = Key_encode k \<and> wf_key k"
    by (auto simp: Key_decode_def Key_encode_def rbind_Inr_iff decode_components_iff Key_new_Inr_iff
        split: if_splits)
next
  assume "bs = Key_encode k \<and> wf_key k"
  then show "Key_decode bs = Inr k" by (simp add: Key_decode_encode_wf)
qed

subsection \<open>Order and prefix correspondence\<close>

lemma encode_component_less:
  "c < d \<Longrightarrow> encode_component c @ x < encode_component d @ y"
proof (induction c arbitrary: d)
  case Nil
  then obtain e es where d: "d = e # es" by (cases d) auto
  have "e \<noteq> 0 \<Longrightarrow> 0 < e" by (simp add: word_neq_0_conv)
  with d show ?case by auto
next
  case (Cons a c)
  then obtain b d' where d: "d = b # d'" by (cases d) auto
  have z: "b \<noteq> 0 \<Longrightarrow> 0 < b" by (simp add: word_neq_0_conv)
  from Cons.prems d consider "a < b" | "a = b" "c < d'" by auto
  then show ?case
  proof cases
    case 1
    then have "b \<noteq> 0" by auto
    with 1 d z show ?thesis by auto
  next
    case 2
    with Cons.IH d show ?thesis by auto
  qed
qed

lemma encode_component_append_inject:
  "encode_component c @ x = encode_component d @ y \<longleftrightarrow> c = d \<and> x = y"
  using encode_component_less [of c d x y] encode_component_less [of d c y x]
  by (metis linorder_neqE order_less_irrefl same_append_eq)

lemma encode_components_mono: "cs < ds \<Longrightarrow> encode_components cs < encode_components ds"
proof (induction cs arbitrary: ds)
  case Nil
  then obtain d es where "ds = d # es" by (cases ds) auto
  then show ?case by (cases "encode_component d") auto
next
  case (Cons c cs)
  then obtain d es where ds: "ds = d # es" by (cases ds) auto
  with Cons.prems have "c < d \<or> c = d \<and> cs < es" by simp
  with Cons.IH ds show ?case by (auto simp: encode_component_less)
qed

lemma encode_components_less_iff [simp]:
  "encode_components cs < encode_components ds \<longleftrightarrow> cs < ds"
  by (rule strict_mono_less_iff) (rule encode_components_mono)

lemma encode_components_inject [simp]:
  "encode_components cs = encode_components ds \<longleftrightarrow> cs = ds"
  using encode_components_mono [of cs ds] encode_components_mono [of ds cs]
  by (metis linorder_neqE order_less_irrefl)

lemma encode_components_prefix_iff [simp]:
  "prefix (encode_components ps) (encode_components cs) \<longleftrightarrow> prefix ps cs"
proof
  show "prefix (encode_components ps) (encode_components cs) \<Longrightarrow> prefix ps cs"
  proof (induction ps arbitrary: cs)
    case Nil
    then show ?case by simp
  next
    case (Cons p ps)
    then obtain c cs' where cs: "cs = c # cs'" by (cases cs) auto
    from Cons.prems cs obtain z where "encode_component c @ encode_components cs'
        = encode_component p @ encode_components ps @ z"
      by (auto simp: prefix_def)
    then have "c = p" "encode_components cs' = encode_components ps @ z"
      by (simp_all only: encode_component_append_inject)
    with Cons.IH [of cs'] cs show ?case by (auto simp: prefix_def)
  qed
qed (auto simp: prefix_def)

subsection \<open>Properties\<close>

text \<open>C31: a key decodes from its flat encoding, and a byte string that decodes at all is the
  encoding of the key it decodes to: the encoding is a bijection between the valid keys and the
  byte strings \<open>Key::decode\<close> accepts.\<close>

theorem Key_codec_canonical: "Key_decode bs = Inr k \<longleftrightarrow> bs = Key_encode k \<and> wf_key k"
  by (rule Key_decode_Inr_iff)

text \<open>C32: the flat encoding preserves the component-wise lexicographic order of keys, and a
  key starts with a tuple prefix exactly when its encoding starts with the encoded prefix, so
  prefix scans of the flat map are byte-range scans.\<close>

theorem Key_encode_order_and_prefix:
  "(Key_encode a < Key_encode b \<longleftrightarrow> a < b) \<and>
   (prefix (Key_encode b) (Key_encode a) \<longleftrightarrow> Key_starts_with a b)"
  by (simp add: Key_encode_def Key_starts_with_def)

end
