(* ===== verification/Range.thy ===== *)
theory Range
  imports Key
begin

text \<open>
  Component-wise key ranges (\<open>core/src/range.rs\<close>): the full space or one tuple-prefix subtree.
  The operations are compared with the set of keys a range covers: coverage is inclusion,
  overlap is a common key, intersection is set intersection.
\<close>

datatype Range = Full | Prefix key

instantiation Range :: linorder
begin
fun less_Range :: "Range \<Rightarrow> Range \<Rightarrow> bool" where
  "less_Range Full (Prefix _) = True"
| "less_Range (Prefix a) (Prefix b) = (a < b)"
| "less_Range _ Full = False"
definition less_eq_Range :: "Range \<Rightarrow> Range \<Rightarrow> bool" where
  "less_eq_Range a b \<longleftrightarrow> a < b \<or> a = b"
instance
proof
  fix x y z :: Range
  show "(x < y) = (x \<le> y \<and> \<not> y \<le> x)"
    by (cases x; cases y) (auto simp: less_eq_Range_def)
  show "x \<le> x" by (simp add: less_eq_Range_def)
  show "x \<le> y \<Longrightarrow> y \<le> z \<Longrightarrow> x \<le> z"
    by (cases x; cases y; cases z) (auto simp: less_eq_Range_def)
  show "x \<le> y \<Longrightarrow> y \<le> x \<Longrightarrow> x = y"
    by (cases x; cases y) (auto simp: less_eq_Range_def)
  show "x \<le> y \<or> y \<le> x"
    by (cases x; cases y) (auto simp: less_eq_Range_def)
qed
end

fun covers_key :: "Range \<Rightarrow> key \<Rightarrow> bool" where
  "covers_key Full key = True"
| "covers_key (Prefix p) key = Key_starts_with key p"

fun covers_range :: "Range \<Rightarrow> Range \<Rightarrow> bool" where
  "covers_range Full _ = True"
| "covers_range (Prefix _) Full = False"
| "covers_range (Prefix a) (Prefix b) = Key_starts_with b a"

definition overlaps :: "Range \<Rightarrow> Range \<Rightarrow> bool" where
  "overlaps r other \<longleftrightarrow> covers_range r other \<or> covers_range other r"

definition intersection :: "Range \<Rightarrow> Range \<Rightarrow> Range option" where
  "intersection r other =
     (if covers_range r other then Some other
      else if covers_range other r then Some r
      else None)"

fun Range_encode :: "Range \<Rightarrow> bytes" where
  "Range_encode Full = [0]"
| "Range_encode (Prefix p) =
     (let key = Key_encode p in [1] @ u32_be (of_nat (length key)) @ key)"

definition Range_decode :: "bytes \<Rightarrow> Range option" where
  "Range_decode bs =
     (case bs of
        [] \<Rightarrow> None
      | t # len \<Rightarrow>
          if t = 0 \<and> len = [] then Some Full
          else if t = 1 \<and> length len \<ge> 4 then
            (let key_len = unat (u32_of_be (take 4 len)); key = drop 4 len in
             if length key = key_len then map_option Prefix (ok_opt (Key_decode key)) else None)
          else None)"

subsection \<open>Ranges as key sets\<close>

fun wf_range :: "Range \<Rightarrow> bool" where
  "wf_range Full = True"
| "wf_range (Prefix p) = wf_key p"

definition range_keys :: "Range \<Rightarrow> key set" where
  "range_keys r = {k. wf_key k \<and> covers_key r k}"

lemma covers_range_refl [simp]: "covers_range r r"
  by (cases r) (auto simp: Key_starts_with_def)

lemma covers_range_trans: "covers_range a b \<Longrightarrow> covers_range b c \<Longrightarrow> covers_range a c"
  by (cases a; cases b; cases c) (auto simp: Key_starts_with_def)

lemma covers_range_key: "covers_range a b \<Longrightarrow> covers_key b k \<Longrightarrow> covers_key a k"
  by (cases a; cases b) (auto simp: Key_starts_with_def)

lemma covers_range_Full [simp]: "covers_range r Full \<longleftrightarrow> r = Full"
  by (cases r) auto

lemma covers_range_Prefix_key: "covers_range r (Prefix k) \<longleftrightarrow> covers_key r k"
  by (cases r) auto

lemma covers_range_antisym: "covers_range a b \<Longrightarrow> covers_range b a \<Longrightarrow> a = b"
  by (cases a; cases b) (auto simp: Key_starts_with_def dest: prefix_order.antisym)

lemma covers_key_comparable:
  "covers_key a k \<Longrightarrow> covers_key b k \<Longrightarrow> covers_range a b \<or> covers_range b a"
  by (cases a; cases b) (auto simp: Key_starts_with_def dest: prefix_same_cases)

lemma covers_range_comparable:
  "covers_range a r \<Longrightarrow> covers_range b r \<Longrightarrow> covers_range a b \<or> covers_range b a"
  by (cases a; cases b; cases r) (auto simp: Key_starts_with_def dest: prefix_same_cases)

lemma overlaps_comm: "overlaps a b = overlaps b a"
  by (auto simp: overlaps_def)

lemma wf_key_single: "wf_key [[b]]"
  by (simp add: wf_key_def wf_component_def key_limits)

lemma wf_range_nonempty: "wf_range r \<Longrightarrow> \<exists>k. k \<in> range_keys r"
proof (cases r)
  case Full
  then show ?thesis using wf_key_single [of 0] by (auto simp: range_keys_def)
next
  case (Prefix p)
  moreover assume "wf_range r"
  ultimately have "p \<in> range_keys r" by (simp add: range_keys_def Key_starts_with_def)
  then show ?thesis by blast
qed

lemma not_covers_Full: "wf_range (Prefix p) \<Longrightarrow> \<exists>k. wf_key k \<and> \<not> covers_key (Prefix p) k"
proof -
  assume "wf_range (Prefix p)"
  then obtain c cs where p: "p = c # cs" by (cases p) (auto simp: wf_key_def)
  obtain b :: u8 where "[b] \<noteq> c"
    by (metis list.inject zero_neq_one)
  then have "\<not> covers_key (Prefix p) [[b]]"
    using p by (auto simp: Key_starts_with_def)
  with wf_key_single [of b] show ?thesis by blast
qed

lemma covers_range_subset:
  assumes "wf_range a" and "wf_range b"
  shows "covers_range a b \<longleftrightarrow> range_keys b \<subseteq> range_keys a"
proof
  show "covers_range a b \<Longrightarrow> range_keys b \<subseteq> range_keys a"
    by (auto simp: range_keys_def covers_range_key)
next
  assume sub: "range_keys b \<subseteq> range_keys a"
  show "covers_range a b"
  proof (cases b)
    case Full
    with sub not_covers_Full assms show ?thesis
      by (cases a) (auto simp: range_keys_def)
  next
    case (Prefix p)
    with assms have "p \<in> range_keys b" by (simp add: range_keys_def Key_starts_with_def)
    with sub Prefix show ?thesis by (auto simp: range_keys_def covers_range_Prefix_key)
  qed
qed

lemma intersection_keys:
  "covers_key a k \<and> covers_key b k \<longleftrightarrow>
     (case intersection a b of Some r \<Rightarrow> covers_key r k | None \<Rightarrow> False)"
  using covers_key_comparable [of a k b]
  by (auto simp: intersection_def covers_range_key split: option.splits)

lemma wf_range_length: "wf_key p \<Longrightarrow> length (Key_encode p) < 2 ^ 32"
  by (simp add: wf_key_def Key_encode_def key_limits)

lemma Range_decode_encode: "wf_range r \<Longrightarrow> Range_decode (Range_encode r) = Some r"
proof (cases r)
  case (Prefix p)
  moreover assume "wf_range r"
  ultimately show ?thesis
    using wf_range_length [of p]
    by (simp add: Range_decode_def Let_def unat_of_nat Key_decode_Inr_iff)
qed (simp add: Range_decode_def)

lemma Range_decode_sound:
  assumes "Range_decode bs = Some r"
  shows "bs = Range_encode r \<and> wf_range r"
proof (cases r)
  case Full
  with assms show ?thesis
    by (auto simp: Range_decode_def Let_def split: list.splits if_splits)
next
  case (Prefix p)
  with assms obtain len where bs: "bs = 1 # len" "length len \<ge> 4"
    and kl: "length len - 4 = unat (u32_of_be (take 4 len))"
    and k: "drop 4 len = Key_encode p" "wf_key p"
    by (auto simp: Range_decode_def Let_def Key_decode_Inr_iff split: list.splits if_splits)
  have "length (Key_encode p) = unat (u32_of_be (take 4 len))"
    using kl by (simp flip: k(1))
  then have "u32_be (of_nat (length (Key_encode p))) = take 4 len"
    using bs(2) by (simp add: u_be_of_be)
  with bs(1) k Prefix show ?thesis by (simp add: Let_def) (metis append_take_drop_id)
qed

subsection \<open>Properties\<close>

text \<open>C33: the range operations compute the set operations on the keys a range covers: coverage
  is inclusion, overlap is the existence of a common key, and the intersection, the narrower of
  two overlapping operands, covers exactly the common keys.\<close>

theorem Range_operations_are_set_operations:
  assumes "wf_range a" and "wf_range b"
  shows "(covers_range a b \<longleftrightarrow> range_keys b \<subseteq> range_keys a) \<and>
    (overlaps a b \<longleftrightarrow> range_keys a \<inter> range_keys b \<noteq> {}) \<and>
    range_keys a \<inter> range_keys b = (case intersection a b of Some r \<Rightarrow> range_keys r | None \<Rightarrow> {})"
proof (intro conjI)
  show "covers_range a b \<longleftrightarrow> range_keys b \<subseteq> range_keys a"
    using assms by (rule covers_range_subset)
  show int: "range_keys a \<inter> range_keys b = (case intersection a b of Some r \<Rightarrow> range_keys r | None \<Rightarrow> {})"
  proof (rule set_eqI)
    fix k
    show "k \<in> range_keys a \<inter> range_keys b \<longleftrightarrow>
        k \<in> (case intersection a b of Some r \<Rightarrow> range_keys r | None \<Rightarrow> {})"
      using intersection_keys [of a k b] by (cases "intersection a b") (simp_all add: range_keys_def, blast+)
  qed
  have "overlaps a b \<longleftrightarrow> intersection a b \<noteq> None"
    by (auto simp: overlaps_def intersection_def)
  with int wf_range_nonempty assms show "overlaps a b \<longleftrightarrow> range_keys a \<inter> range_keys b \<noteq> {}"
    by (auto simp: intersection_def split: if_splits)
qed

text \<open>The witness: two overlapping prefixes of concrete keys.\<close>

theorem Range_operations_are_set_operations_witness:
  "wf_range (Prefix [[1]]) \<and> wf_range (Prefix [[1], [2]]) \<and>
   range_keys (Prefix [[1], [2]]) \<subseteq> range_keys (Prefix [[1]])"
proof -
  have w: "wf_range (Prefix [[1]])" "wf_range (Prefix [[1], [2]])"
    by (simp_all add: wf_key_def wf_component_def key_limits)
  show ?thesis
    using Range_operations_are_set_operations [OF w] w by (simp add: Key_starts_with_def)
qed

text \<open>A range decodes from its stable encoding, and every byte string that decodes is the
  canonical encoding of the range it decodes to.\<close>

theorem Range_codec_canonical: "Range_decode bs = Some r \<longleftrightarrow> bs = Range_encode r \<and> wf_range r"
  using Range_decode_sound [of bs r] Range_decode_encode [of r] by blast

end
