(* ===== verification/Codec.thy ===== *)
theory Codec
  imports Prelude
begin

text \<open>
  The bounds-checked record reader and the record writer (\<open>core/src/reader.rs\<close>,
  \<open>core/src/writer.rs\<close>).  A reader is a slice and a position; a read returns the optional value
  and the reader after it, so that a failed read shows what it leaves behind.  A slice is never
  longer than \<open>usize::MAX\<close>, so where \<open>checked_add\<close> of \<open>take\<close> fails the range is out of bounds
  as well: the one bounds test of \<open>Reader_take\<close> gives \<open>None\<close> for both.

  \<open>reading\<close> chains reads the way \<open>?\<close> does in the record decoders, and \<open>reader_at pre xs\<close> is a
  reader that has consumed \<open>pre\<close> and has \<open>xs\<close> left; the lemmas evaluate and invert chained
  reads in terms of it.
\<close>

record Reader =
  r_bytes :: bytes
  r_position :: nat

datatype TruncatedField = TruncatedField
datatype FieldTooLarge = FieldTooLarge

definition Reader_new :: "bytes \<Rightarrow> Reader" where
  "Reader_new bs = \<lparr>r_bytes = bs, r_position = 0\<rparr>"

definition Reader_u8 :: "Reader \<Rightarrow> u8 option \<times> Reader" where
  "Reader_u8 r =
     (if r_position r < length (r_bytes r)
      then (Some (r_bytes r ! r_position r), r\<lparr>r_position := r_position r + 1\<rparr>)
      else (None, r))"

definition Reader_take :: "nat \<Rightarrow> Reader \<Rightarrow> bytes option \<times> Reader" where
  "Reader_take len r =
     (let end = r_position r + len in
      if end \<le> length (r_bytes r)
      then (Some (take len (drop (r_position r) (r_bytes r))), r\<lparr>r_position := end\<rparr>)
      else (None, r))"

definition Reader_u32 :: "Reader \<Rightarrow> u32 option \<times> Reader" where
  "Reader_u32 r = (case Reader_take 4 r of (v, r') \<Rightarrow> (map_option u32_of_be v, r'))"

definition Reader_u64 :: "Reader \<Rightarrow> u64 option \<times> Reader" where
  "Reader_u64 r = (case Reader_take 8 r of (v, r') \<Rightarrow> (map_option u64_of_be v, r'))"

definition Reader_bytes16 :: "Reader \<Rightarrow> bytes option \<times> Reader" where
  "Reader_bytes16 r = Reader_take 16 r"

definition Reader_rest :: "Reader \<Rightarrow> bytes" where
  "Reader_rest r = drop (r_position r) (r_bytes r)"

definition Reader_end :: "Reader \<Rightarrow> unit option" where
  "Reader_end r = (if r_position r = length (r_bytes r) then Some () else None)"

definition Reader_field :: "Reader \<Rightarrow> (TruncatedField + (u8 \<times> bytes) option) \<times> Reader" where
  "Reader_field r =
     (if Reader_end r \<noteq> None then (Inr None, r)
      else case Reader_u8 r of
        (None, _) \<Rightarrow> (Inl TruncatedField, r)
      | (Some tag, probe1) \<Rightarrow>
          (case Reader_u32 probe1 of
             (None, _) \<Rightarrow> (Inl TruncatedField, r)
           | (Some len, probe2) \<Rightarrow>
               (case Reader_take (unat len) probe2 of
                  (None, _) \<Rightarrow> (Inl TruncatedField, r)
                | (Some v, probe3) \<Rightarrow> (Inr (Some (tag, v)), r\<lparr>r_position := r_position probe3\<rparr>))))"

record Writer =
  w_bytes :: bytes

definition Writer_new :: Writer where
  "Writer_new = \<lparr>w_bytes = []\<rparr>"

definition Writer_u8 :: "u8 \<Rightarrow> Writer \<Rightarrow> Writer" where
  "Writer_u8 v w = w\<lparr>w_bytes := w_bytes w @ [v]\<rparr>"

definition Writer_u32 :: "u32 \<Rightarrow> Writer \<Rightarrow> Writer" where
  "Writer_u32 v w = w\<lparr>w_bytes := w_bytes w @ u32_be v\<rparr>"

definition Writer_u64 :: "u64 \<Rightarrow> Writer \<Rightarrow> Writer" where
  "Writer_u64 v w = w\<lparr>w_bytes := w_bytes w @ u64_be v\<rparr>"

definition Writer_bytes16 :: "bytes \<Rightarrow> Writer \<Rightarrow> Writer" where
  "Writer_bytes16 v w = w\<lparr>w_bytes := w_bytes w @ v\<rparr>"

definition Writer_bytes :: "bytes \<Rightarrow> Writer \<Rightarrow> Writer" where
  "Writer_bytes v w = w\<lparr>w_bytes := w_bytes w @ v\<rparr>"

definition Writer_field :: "u8 \<Rightarrow> bytes \<Rightarrow> Writer \<Rightarrow> FieldTooLarge + Writer" where
  "Writer_field tag v w =
     (if length v < 2 ^ 32
      then Inr (Writer_bytes v (Writer_u32 (of_nat (length v)) (Writer_u8 tag w)))
      else Inl FieldTooLarge)"

definition Writer_finish :: "Writer \<Rightarrow> bytes" where
  "Writer_finish w = w_bytes w"

subsection \<open>Chained reads\<close>

definition reading :: "(Reader \<Rightarrow> 'a option \<times> Reader) \<Rightarrow> ('a \<Rightarrow> Reader \<Rightarrow> 'b option) \<Rightarrow> Reader \<Rightarrow> 'b option" where
  "reading f k r = (case f r of (None, _) \<Rightarrow> None | (Some x, r') \<Rightarrow> k x r')"

definition reader_at :: "bytes \<Rightarrow> bytes \<Rightarrow> Reader" where
  "reader_at pre xs = \<lparr>r_bytes = pre @ xs, r_position = length pre\<rparr>"

lemma Reader_new_at: "Reader_new bs = reader_at [] bs"
  by (simp add: Reader_new_def reader_at_def)

lemma Reader_rest_at [simp]: "Reader_rest (reader_at pre xs) = xs"
  by (simp add: Reader_rest_def reader_at_def)

lemma Reader_end_at [simp]: "Reader_end (reader_at pre xs) = (if xs = [] then Some () else None)"
  by (simp add: Reader_end_def reader_at_def)

lemma Reader_u8_at:
  "Reader_u8 (reader_at pre xs) =
     (case xs of [] \<Rightarrow> (None, reader_at pre xs) | b # ys \<Rightarrow> (Some b, reader_at (pre @ [b]) ys))"
  by (simp add: Reader_u8_def reader_at_def split: list.splits)

lemma Reader_take_at:
  "Reader_take n (reader_at pre xs) =
     (if n \<le> length xs then (Some (take n xs), reader_at (pre @ take n xs) (drop n xs))
      else (None, reader_at pre xs))"
  by (auto simp: Reader_take_def reader_at_def Let_def)

lemma Reader_take_append:
  "length v = n \<Longrightarrow> Reader_take n (reader_at pre (v @ xs)) = (Some v, reader_at (pre @ v) xs)"
  by (simp add: Reader_take_at)

lemma reading_u8 [codec_simps]: "reading Reader_u8 k (reader_at pre (b # xs)) = k b (reader_at (pre @ [b]) xs)"
  by (simp add: reading_def Reader_u8_at)

lemma reading_take [codec_simps]:
  "length v = n \<Longrightarrow> reading (Reader_take n) k (reader_at pre (v @ xs)) = k v (reader_at (pre @ v) xs)"
  by (simp add: reading_def Reader_take_append)

lemma reading_u32 [codec_simps]:
  "reading Reader_u32 k (reader_at pre (u32_be v @ xs)) = k v (reader_at (pre @ u32_be v) xs)"
  by (simp add: reading_def Reader_u32_def Reader_take_append)

lemma reading_u64 [codec_simps]:
  "reading Reader_u64 k (reader_at pre (u64_be v @ xs)) = k v (reader_at (pre @ u64_be v) xs)"
  by (simp add: reading_def Reader_u64_def Reader_take_append)

lemma reading_bytes16 [codec_simps]:
  "length v = 16 \<Longrightarrow> reading Reader_bytes16 k (reader_at pre (v @ xs)) = k v (reader_at (pre @ v) xs)"
  by (simp add: reading_def Reader_bytes16_def Reader_take_append)

lemmas reading_last [codec_simps] =
  reading_take [where xs = "[]", simplified] reading_u32 [where xs = "[]", simplified]
  reading_u64 [where xs = "[]", simplified] reading_bytes16 [where xs = "[]", simplified]

lemma reading_u8_Some:
  "reading Reader_u8 k (reader_at pre xs) = Some y \<longleftrightarrow>
     (\<exists>b ys. xs = b # ys \<and> k b (reader_at (pre @ [b]) ys) = Some y)"
  by (auto simp: reading_def Reader_u8_at split: list.splits)

lemma reading_take_Some:
  "reading (Reader_take n) k (reader_at pre xs) = Some y \<longleftrightarrow>
     (\<exists>v ys. xs = v @ ys \<and> length v = n \<and> k v (reader_at (pre @ v) ys) = Some y)"
proof
  assume "reading (Reader_take n) k (reader_at pre xs) = Some y"
  then have "n \<le> length xs" "k (take n xs) (reader_at (pre @ take n xs) (drop n xs)) = Some y"
    by (auto simp: reading_def Reader_take_at split: if_splits)
  then show "\<exists>v ys. xs = v @ ys \<and> length v = n \<and> k v (reader_at (pre @ v) ys) = Some y"
    by (intro exI [of _ "take n xs"] exI [of _ "drop n xs"]) simp
qed (auto simp: reading_take)

lemma reading_bytes16_Some:
  "reading Reader_bytes16 k (reader_at pre xs) = Some y \<longleftrightarrow>
     (\<exists>v ys. xs = v @ ys \<and> length v = 16 \<and> k v (reader_at (pre @ v) ys) = Some y)"
proof -
  have eq: "Reader_bytes16 = Reader_take 16" by (rule ext) (rule Reader_bytes16_def)
  show ?thesis unfolding eq by (rule reading_take_Some)
qed

lemma reading_u32_Some:
  "reading Reader_u32 k (reader_at pre xs) = Some y \<longleftrightarrow>
     (\<exists>v ys. xs = u32_be v @ ys \<and> k v (reader_at (pre @ u32_be v) ys) = Some y)"
proof -
  have eq: "reading Reader_u32 k (reader_at pre xs) = reading (Reader_take 4) (\<lambda>v. k (u32_of_be v)) (reader_at pre xs)"
    by (simp add: reading_def Reader_u32_def Reader_take_at)
  show ?thesis
    unfolding eq reading_take_Some
  proof safe
    fix v ys
    assume "length v = 4" "k (u32_of_be v) (reader_at (pre @ v) ys) = Some y"
    then show "\<exists>w zs. v @ ys = u32_be w @ zs \<and> k w (reader_at (pre @ u32_be w) zs) = Some y"
      by (intro exI [of _ "u32_of_be v"] exI [of _ ys]) (simp add: u_be_of_be)
  next
    fix v ys
    assume "k v (reader_at (pre @ u32_be v) ys) = Some y"
    then show "\<exists>w zs. u32_be v @ ys = w @ zs \<and> length w = 4 \<and>
        k (u32_of_be w) (reader_at (pre @ w) zs) = Some y"
      by (intro exI [of _ "u32_be v"] exI [of _ ys]) simp
  qed
qed

lemma reading_u64_Some:
  "reading Reader_u64 k (reader_at pre xs) = Some y \<longleftrightarrow>
     (\<exists>v ys. xs = u64_be v @ ys \<and> k v (reader_at (pre @ u64_be v) ys) = Some y)"
proof -
  have eq: "reading Reader_u64 k (reader_at pre xs) = reading (Reader_take 8) (\<lambda>v. k (u64_of_be v)) (reader_at pre xs)"
    by (simp add: reading_def Reader_u64_def Reader_take_at)
  show ?thesis
    unfolding eq reading_take_Some
  proof safe
    fix v ys
    assume "length v = 8" "k (u64_of_be v) (reader_at (pre @ v) ys) = Some y"
    then show "\<exists>w zs. v @ ys = u64_be w @ zs \<and> k w (reader_at (pre @ u64_be w) zs) = Some y"
      by (intro exI [of _ "u64_of_be v"] exI [of _ ys]) (simp add: u_be_of_be)
  next
    fix v ys
    assume "k v (reader_at (pre @ u64_be v) ys) = Some y"
    then show "\<exists>w zs. u64_be v @ ys = w @ zs \<and> length w = 8 \<and>
        k (u64_of_be w) (reader_at (pre @ w) zs) = Some y"
      by (intro exI [of _ "u64_be v"] exI [of _ ys]) simp
  qed
qed

lemmas reading_Some = reading_u8_Some reading_take_Some reading_bytes16_Some reading_u32_Some reading_u64_Some

lemmas writer_defs = Writer_new_def Writer_u8_def Writer_u32_def Writer_u64_def Writer_bytes16_def
  Writer_bytes_def Writer_finish_def

subsection \<open>Tagged fields\<close>

lemma Reader_field_at:
  "length v < 2 ^ 32 \<Longrightarrow>
   Reader_field (reader_at pre (tag # u32_be (of_nat (length v)) @ v @ xs)) =
     (Inr (Some (tag, v)), reader_at (pre @ tag # u32_be (of_nat (length v)) @ v) xs)"
  by (simp add: Reader_field_def Reader_u8_at Reader_u32_def Reader_take_append unat_of_nat)
    (simp add: reader_at_def)

fun write_fields :: "(u8 \<times> bytes) list \<Rightarrow> Writer \<Rightarrow> FieldTooLarge + Writer" where
  "write_fields [] w = Inr w"
| "write_fields ((tag, v) # fs) w = rbind (Writer_field tag v w) (write_fields fs)"

fun read_fields :: "nat \<Rightarrow> Reader \<Rightarrow> TruncatedField + (u8 \<times> bytes) list" where
  "read_fields 0 r = (case Reader_field r of (Inr None, _) \<Rightarrow> Inr [] | _ \<Rightarrow> Inl TruncatedField)"
| "read_fields (Suc n) r =
     (case Reader_field r of
        (Inl e, _) \<Rightarrow> Inl e
      | (Inr None, _) \<Rightarrow> Inr []
      | (Inr (Some f), r') \<Rightarrow> rbind (read_fields n r') (\<lambda>fs. Inr (f # fs)))"

lemma write_fields_bytes:
  "write_fields fs w = Inr w' \<Longrightarrow>
   w_bytes w' = w_bytes w @ concat (map (\<lambda>(tag, v). tag # u32_be (of_nat (length v)) @ v) fs)"
  by (induction fs arbitrary: w) (auto simp: rbind_Inr_iff Writer_field_def writer_defs split: if_splits)

lemma write_fields_lengths:
  "write_fields fs w = Inr w' \<Longrightarrow> list_all (\<lambda>(tag, v). length v < 2 ^ 32) fs"
  by (induction fs arbitrary: w) (auto simp: rbind_Inr_iff Writer_field_def split: if_splits)

lemma read_fields_concat:
  assumes "list_all (\<lambda>(tag, v). length v < 2 ^ 32) fs"
  shows "read_fields (length fs) (reader_at pre (concat (map (\<lambda>(tag, v). tag # u32_be (of_nat (length v)) @ v) fs)))
      = Inr fs"
  using assms
proof (induction fs arbitrary: pre)
  case Nil
  then show ?case by (simp add: Reader_field_def)
next
  case (Cons f fs)
  obtain tag v where f: "f = (tag, v)" by (cases f)
  with Cons.prems have "length v < 2 ^ 32" by simp
  with Cons.IH [of "pre @ tag # u32_be (of_nat (length v)) @ v"] Cons.prems f show ?case
    using Reader_field_at [of v pre tag "concat (map (\<lambda>(tag, v). tag # u32_be (of_nat (length v)) @ v) fs)"]
    by simp
qed

subsection \<open>Properties\<close>

text \<open>A failed read never advances the cursor, whatever the reader: \<open>take\<close>, the
  integer reads and the tagged-field read leave the reader they were given when they fail.\<close>

theorem Reader_failed_reads_do_not_advance:
  "(fst (Reader_u8 r) = None \<longrightarrow> snd (Reader_u8 r) = r) \<and>
   (fst (Reader_take n r) = None \<longrightarrow> snd (Reader_take n r) = r) \<and>
   (fst (Reader_u32 r) = None \<longrightarrow> snd (Reader_u32 r) = r) \<and>
   (fst (Reader_u64 r) = None \<longrightarrow> snd (Reader_u64 r) = r) \<and>
   (fst (Reader_field r) = Inl TruncatedField \<longrightarrow> snd (Reader_field r) = r)"
  by (auto simp: Reader_u8_def Reader_take_def Reader_u32_def Reader_u64_def Reader_field_def Let_def
      split: option.splits prod.splits if_splits)

text \<open>The witness: a field whose payload is cut short.\<close>

theorem Reader_failed_reads_do_not_advance_witness:
  "fst (Reader_field (Reader_new [3, 0, 0, 0, 2, 9])) = Inl TruncatedField \<and>
   snd (Reader_field (Reader_new [3, 0, 0, 0, 2, 9])) = Reader_new [3, 0, 0, 0, 2, 9]"
proof -
  have "fst (Reader_field (Reader_new [3, 0, 0, 0, 2, 9])) = Inl TruncatedField"
    by (simp add: Reader_field_def Reader_new_def Reader_end_def Reader_u8_def Reader_u32_def
        Reader_take_def u32_of_be_def be_nat_def)
  then show ?thesis
    using Reader_failed_reads_do_not_advance [of "Reader_new [3, 0, 0, 0, 2, 9]" 0] by simp
qed

text \<open>The fields a writer accepts are read back, in order, with a clean end of input.\<close>

theorem tagged_fields_roundtrip:
  assumes "write_fields fs Writer_new = Inr w"
  shows "read_fields (length fs) (Reader_new (Writer_finish w)) = Inr fs"
  using write_fields_bytes [OF assms] write_fields_lengths [OF assms] read_fields_concat [of fs "[]"]
  by (simp add: Reader_new_at Writer_finish_def Writer_new_def)

text \<open>The witness: two fields, one of them empty.\<close>

theorem tagged_fields_roundtrip_witness:
  "\<exists>w. write_fields [(3, [1, 2]), (7, [])] Writer_new = Inr w \<and>
     read_fields (length [(3 :: u8, [1, 2 :: u8]), (7, [])]) (Reader_new (Writer_finish w)) = Inr [(3, [1, 2]), (7, [])]"
proof -
  obtain w where w: "write_fields [(3, [1, 2]), (7, [])] Writer_new = Inr w"
    by (simp add: Writer_field_def)
  show ?thesis by (intro exI [of _ w] conjI w tagged_fields_roundtrip [OF w])
qed

end
