(* ===== verification/Seal.thy ===== *)
theory Seal
  imports Codec
begin

text \<open>
  Client-computed AEAD seal metadata (\<open>core/src/seal.rs\<close>).  The fixed-size arrays are byte lists
  whose length \<open>wf_seal\<close> states.
\<close>

definition SEAL_NONCE_LEN :: nat where "SEAL_NONCE_LEN = 24"
definition SEAL_AEAD_TAG_LEN :: nat where "SEAL_AEAD_TAG_LEN = 16"
definition SEAL_FIXED_HEADER_LEN :: nat where
  "SEAL_FIXED_HEADER_LEN = 1 + SEAL_NONCE_LEN + SEAL_AEAD_TAG_LEN"

lemmas seal_lengths = SEAL_NONCE_LEN_def SEAL_AEAD_TAG_LEN_def SEAL_FIXED_HEADER_LEN_def

datatype SealScheme = AeadV1

datatype SealPayloadError = UnexpectedPayload SealScheme nat

datatype SealDecodeError =
    SealMalformed
  | UnknownScheme u8
  | Payload SealPayloadError

record Seal =
  scheme :: SealScheme
  nonce :: bytes
  aead :: bytes
  payload :: bytes

fun SealScheme_to_u8 :: "SealScheme \<Rightarrow> u8" where
  "SealScheme_to_u8 AeadV1 = 0"

definition SealScheme_from_u8 :: "u8 \<Rightarrow> u8 + SealScheme" where
  "SealScheme_from_u8 v = (if v = 0 then Inr AeadV1 else Inl v)"

definition empty_aead_v1 :: Seal where
  "empty_aead_v1 = \<lparr>scheme = AeadV1, nonce = replicate SEAL_NONCE_LEN 0,
     aead = replicate SEAL_AEAD_TAG_LEN 0, payload = []\<rparr>"

definition validate_payload :: "Seal \<Rightarrow> SealPayloadError + unit" where
  "validate_payload s =
     (case scheme s of AeadV1 \<Rightarrow>
        if payload s = [] then Inr ()
        else Inl (UnexpectedPayload (scheme s) (length (payload s))))"

definition Seal_encode :: "Seal \<Rightarrow> bytes" where
  "Seal_encode s =
     [SealScheme_to_u8 (scheme s)] @ nonce s @ aead s @
     u32_be (of_nat (length (payload s))) @ payload s"

definition Seal_decode :: "bytes \<Rightarrow> SealDecodeError + Seal" where
  "Seal_decode bs =
     (if length bs < SEAL_FIXED_HEADER_LEN + 4 then Inl SealMalformed
      else rbind (map_err UnknownScheme (SealScheme_from_u8 (bs ! 0))) (\<lambda>sch.
        let non = take SEAL_NONCE_LEN (drop 1 bs);
            tag_start = 1 + SEAL_NONCE_LEN;
            tag = take SEAL_AEAD_TAG_LEN (drop tag_start bs);
            len_start = tag_start + SEAL_AEAD_TAG_LEN;
            payload_len = unat (u32_of_be (take 4 (drop len_start bs)));
            rest = drop (len_start + 4) bs
        in if length rest \<noteq> payload_len then Inl SealMalformed
           else (let seal = \<lparr>scheme = sch, nonce = non, aead = tag, payload = rest\<rparr>
                 in rbind (map_err Payload (validate_payload seal)) (\<lambda>_. Inr seal))))"

definition wf_seal :: "Seal \<Rightarrow> bool" where
  "wf_seal s \<longleftrightarrow> length (nonce s) = SEAL_NONCE_LEN \<and> length (aead s) = SEAL_AEAD_TAG_LEN"

lemma validate_payload_Inr_iff: "validate_payload s = Inr u \<longleftrightarrow> payload s = []"
  by (cases "scheme s") (simp add: validate_payload_def)

lemma validate_payload_ok: "payload s = [] \<Longrightarrow> validate_payload s = Inr ()"
  by (cases "scheme s") (simp add: validate_payload_def)

lemma length_Seal_encode:
  "wf_seal s \<Longrightarrow> length (Seal_encode s) = SEAL_FIXED_HEADER_LEN + 4 + length (payload s)"
  by (simp add: Seal_encode_def wf_seal_def seal_lengths)

lemma Seal_decode_encode:
  assumes "wf_seal s" and "payload s = []"
  shows "Seal_decode (Seal_encode s) = Inr s"
proof -
  have l: "length (Seal_encode s) = 45"
    using assms by (simp add: length_Seal_encode seal_lengths)
  have "scheme s = AeadV1" by (cases "scheme s")
  then have "Seal_encode s = 0 # nonce s @ aead s @ u32_be 0"
    using assms(2) by (simp add: Seal_encode_def)
  moreover have "length (nonce s) = 24" "length (aead s) = 16"
    using assms(1) by (simp_all add: wf_seal_def seal_lengths)
  ultimately show ?thesis
    using l assms(2) \<open>scheme s = AeadV1\<close>
    by (simp add: Seal_decode_def seal_lengths SealScheme_from_u8_def Let_def validate_payload_ok)
qed

lemma Seal_decode_sound:
  assumes "Seal_decode bs = Inr s"
  shows "bs = Seal_encode s \<and> wf_seal s \<and> payload s = []"
proof -
  from assms have len: "45 \<le> length bs" and b0: "bs ! 0 = 0" and rest: "drop 45 bs = []"
    and s: "s = \<lparr>scheme = AeadV1, nonce = take 24 (drop 1 bs), aead = take 16 (drop 25 bs), payload = []\<rparr>"
    and z: "unat (u32_of_be (take 4 (drop 41 bs))) = 0"
    by (auto simp: Seal_decode_def seal_lengths SealScheme_from_u8_def Let_def validate_payload_Inr_iff
        rbind_Inr_iff not_less split: if_splits)
  from len rest have l45: "length bs = 45" by simp
  have "u32_be 0 = take 4 (drop 41 bs)"
  proof -
    have "u32_of_be (take 4 (drop 41 bs)) = 0" using z by (simp add: word_unat_eq_iff)
    moreover have "length (take 4 (drop 41 bs)) = 4" using l45 by simp
    ultimately show ?thesis using u_be_of_be(2) by metis
  qed
  moreover have "bs = [bs ! 0] @ take 24 (drop 1 bs) @ take 16 (drop 25 bs) @ take 4 (drop 41 bs)"
  proof -
    have "bs = take 1 bs @ take 24 (drop 1 bs) @ take 16 (drop 24 (drop 1 bs)) @ drop 16 (drop 24 (drop 1 bs))"
      by (metis append_take_drop_id)
    moreover have "take 1 bs = [bs ! 0]" using l45 by (cases bs) auto
    moreover have "drop 41 bs = take 4 (drop 41 bs)" using l45 by simp
    ultimately show ?thesis by simp
  qed
  ultimately show ?thesis
    using s l45 b0 by (simp add: Seal_encode_def wf_seal_def seal_lengths)
qed

text \<open>Decoding a seal accepts exactly the encodings of scheme-0 seals with full-size nonce and
  tag and no payload, and returns the seal encoded: storage round-trips are exact and no other byte
  string passes.\<close>

theorem Seal_codec_canonical:
  "Seal_decode bs = Inr s \<longleftrightarrow> bs = Seal_encode s \<and> wf_seal s \<and> payload s = []"
  using Seal_decode_sound Seal_decode_encode by blast

end
