(* ===== verification/Clock.thy ===== *)
theory Clock
  imports Prelude
begin

text \<open>
  Millisecond clocks (\<open>core/src/clock.rs\<close>).  A \<open>Duration\<close> is its number of nanoseconds; an
  \<open>Instant\<close> is a reading of the operating system's monotonic ruler in nanoseconds, and the wall
  reading is the operating system's, both inputs of the model.
\<close>

type_synonym Timestamp = u64
type_synonym Duration = nat
type_synonym Instant = nat
type_synonym Lineage = bytes

definition as_millis :: "Duration \<Rightarrow> nat" where
  "as_millis d = d div 1000000"

definition from_millis :: "u64 \<Rightarrow> Duration" where
  "from_millis ms = unat ms * 1000000"

definition millis_u64 :: "Duration \<Rightarrow> u64" where
  "millis_u64 d = of_nat (min (as_millis d) (2 ^ 64 - 1))"

definition Timestamp_saturating_add :: "Timestamp \<Rightarrow> Duration \<Rightarrow> Timestamp" where
  "Timestamp_saturating_add t d = sat_add64 t (millis_u64 d)"

definition MonotonicClock_now :: "Instant \<Rightarrow> Instant \<Rightarrow> Timestamp" where
  "MonotonicClock_now origin at = millis_u64 (at - origin)"

subsection \<open>The self-checked wall clock\<close>

record WallClock =
  slop_ms :: u64
  wc_last :: Timestamp
  wc_at :: Instant
  wc_poisoned :: bool

definition WallClock_with_slop :: "Duration \<Rightarrow> Timestamp \<Rightarrow> Instant \<Rightarrow> WallClock" where
  "WallClock_with_slop slop wall at =
     \<lparr>slop_ms = millis_u64 slop, wc_last = wall, wc_at = at, wc_poisoned = False\<rparr>"

definition WallClock_now :: "Instant \<Rightarrow> Timestamp \<Rightarrow> WallClock \<Rightarrow> Timestamp \<times> WallClock" where
  "WallClock_now at wall c =
     (let elapsed = millis_u64 (at - wc_at c);
          floor = sat_add64 (wc_last c) elapsed;
          poisoned = (wc_poisoned c \<or> sat_add64 wall (slop_ms c) < floor);
          reading = max wall floor
      in (reading, c\<lparr>wc_last := reading, wc_at := at, wc_poisoned := poisoned\<rparr>))"

fun WallClock_run :: "(Instant \<times> Timestamp) list \<Rightarrow> WallClock \<Rightarrow> Timestamp list" where
  "WallClock_run [] c = []"
| "WallClock_run ((at, wall) # samples) c =
     (case WallClock_now at wall c of (reading, c') \<Rightarrow> reading # WallClock_run samples c')"

subsection \<open>The hybrid clock\<close>

record HybridTimestamp =
  wall :: Timestamp
  mono :: Timestamp
  lineage :: Lineage

definition Lineage_NONE :: Lineage where
  "Lineage_NONE = replicate 16 0"

definition HybridTimestamp_ZERO :: HybridTimestamp where
  "HybridTimestamp_ZERO = \<lparr>wall = 0, mono = 0, lineage = Lineage_NONE\<rparr>"

definition HybridTimestamp_saturating_add :: "HybridTimestamp \<Rightarrow> Duration \<Rightarrow> HybridTimestamp" where
  "HybridTimestamp_saturating_add t d =
     \<lparr>wall = Timestamp_saturating_add (wall t) d, mono = Timestamp_saturating_add (mono t) d,
      lineage = lineage t\<rparr>"

definition expired :: "HybridTimestamp \<Rightarrow> HybridTimestamp \<Rightarrow> Duration \<Rightarrow> bool" where
  "expired deadline now margin =
     (if lineage deadline = lineage now
      then mono deadline \<le> mono now \<or> wall deadline \<le> wall now
      else wall deadline \<le> Timestamp_saturating_add (wall now) margin)"

definition SystemHybridClock_stamp ::
  "Lineage \<Rightarrow> Instant \<Rightarrow> Instant \<Rightarrow> Timestamp \<Rightarrow> WallClock \<Rightarrow> HybridTimestamp \<times> WallClock" where
  "SystemHybridClock_stamp lin origin at w c =
     (case WallClock_now at w c of (reading, c') \<Rightarrow>
        (\<lparr>wall = reading, mono = millis_u64 (at - origin), lineage = lin\<rparr>, c'))"

record ManualClock =
  now_ms :: u64
  wall_skew_ms :: u64
  mc_lineage :: Lineage

definition ManualClock_new :: "Timestamp \<Rightarrow> ManualClock" where
  "ManualClock_new start = \<lparr>now_ms = start, wall_skew_ms = 0, mc_lineage = replicate 16 1\<rparr>"

definition ManualClock_advance :: "Duration \<Rightarrow> ManualClock \<Rightarrow> ManualClock" where
  "ManualClock_advance d c = c\<lparr>now_ms := now_ms c + millis_u64 d\<rparr>"

definition ManualClock_set :: "Timestamp \<Rightarrow> ManualClock \<Rightarrow> ManualClock" where
  "ManualClock_set t c = c\<lparr>now_ms := t\<rparr>"

definition ManualClock_skew_wall :: "Duration \<Rightarrow> ManualClock \<Rightarrow> ManualClock" where
  "ManualClock_skew_wall d c = c\<lparr>wall_skew_ms := wall_skew_ms c + millis_u64 d\<rparr>"

definition ManualClock_set_lineage :: "Lineage \<Rightarrow> ManualClock \<Rightarrow> ManualClock" where
  "ManualClock_set_lineage l c = c\<lparr>mc_lineage := l\<rparr>"

definition ManualClock_stamp :: "ManualClock \<Rightarrow> HybridTimestamp" where
  "ManualClock_stamp c =
     \<lparr>wall = sat_add64 (now_ms c) (wall_skew_ms c), mono = now_ms c, lineage = mc_lineage c\<rparr>"

subsection \<open>Lemmas\<close>

lemma unat_millis_u64: "unat (millis_u64 d) = min (as_millis d) (2 ^ 64 - 1)"
  by (simp add: millis_u64_def unat_of_nat)

lemma sat_add64_mono: "a \<le> b \<Longrightarrow> sat_add64 a d \<le> sat_add64 b d"
  unfolding word_le_nat_alt unat_sat_add64 by simp

lemma Timestamp_saturating_add_ge: "t \<le> Timestamp_saturating_add t d"
  by (simp add: Timestamp_saturating_add_def sat_add64_ge)

lemma Timestamp_saturating_add_mono:
  "a \<le> b \<Longrightarrow> Timestamp_saturating_add a d \<le> Timestamp_saturating_add b d"
  by (simp add: Timestamp_saturating_add_def sat_add64_mono)

lemma millis_u64_from_millis [simp]: "millis_u64 (from_millis ms) = ms"
proof -
  have "unat ms \<le> 2 ^ 64 - 1" by simp
  then show ?thesis by (simp add: millis_u64_def from_millis_def as_millis_def min_def)
qed

lemma WallClock_now_ge: "wc_last c \<le> fst (WallClock_now at w c)"
  using sat_add64_ge [of "wc_last c" "millis_u64 (at - wc_at c)"]
  by (simp add: WallClock_now_def Let_def le_max_iff_disj)

lemma WallClock_now_last: "wc_last (snd (WallClock_now at w c)) = fst (WallClock_now at w c)"
  by (simp add: WallClock_now_def Let_def)

lemma WallClock_run_ge: "r \<in> set (WallClock_run samples c) \<Longrightarrow> wc_last c \<le> r"
proof (induction samples arbitrary: c)
  case (Cons s samples)
  obtain at w where s: "s = (at, w)" by (cases s)
  obtain reading c' where n: "WallClock_now at w c = (reading, c')" by (cases "WallClock_now at w c")
  then have "wc_last c \<le> reading" "wc_last c' = reading"
    using WallClock_now_ge [of c at w] WallClock_now_last [of at w c] by simp_all
  with Cons s n show ?case by fastforce
qed simp

subsection \<open>Properties\<close>

text \<open>The readings a wall clock hands out never go backward, whatever the operating system's
  wall clock does between them, and every reading is at least the wall reading it was taken with.\<close>

theorem WallClock_readings_never_go_backward:
  "sorted (WallClock_run samples c) \<and>
   list_all2 (\<lambda>(at, w) r. w \<le> r) samples (WallClock_run samples c)"
proof (induction samples arbitrary: c)
  case (Cons s samples)
  obtain at w where s: "s = (at, w)" by (cases s)
  obtain reading c' where n: "WallClock_now at w c = (reading, c')" by (cases "WallClock_now at w c")
  then have "wc_last c' = reading" using WallClock_now_last [of at w c] by simp
  then have "\<forall>r \<in> set (WallClock_run samples c'). reading \<le> r" using WallClock_run_ge by blast
  moreover have "w \<le> reading" using n by (auto simp: WallClock_now_def Let_def)
  ultimately show ?case using Cons s n by simp
qed simp

lemma unat_Timestamp_saturating_add: "unat (Timestamp_saturating_add t d) = min (unat t + as_millis d) (2 ^ 64 - 1)"
  by (auto simp: Timestamp_saturating_add_def unat_sat_add64 unat_millis_u64 min_def)

text \<open>C34: a lease deadline \<open>send + ttl\<close> is live at a reading exactly within its term: to the process that
  stamped it, while both rulers have advanced less than the time to live since the stamp; to any
  other process, while the wall plus the safety margin has.  Saturation never extends the term.  The
  verdict of one process is final: once expired, a deadline stays expired at every later reading,
  and the zero stamp is expired everywhere.\<close>

theorem deadlines_are_live_exactly_within_their_term:
  assumes "term = (\<lambda>t. min (unat t + as_millis ttl) (2 ^ 64 - 1))" "d = HybridTimestamp_saturating_add send ttl"
  shows "(\<not> expired d now margin \<longleftrightarrow>
      (if lineage now = lineage send then unat (mono now) < term (mono send) \<and> unat (wall now) < term (wall send)
       else unat (wall now) + as_millis margin < term (wall send))) \<and>
    (lineage later = lineage now \<and> mono now \<le> mono later \<and> wall now \<le> wall later \<and> expired d now margin \<longrightarrow> expired d later margin) \<and>
    expired HybridTimestamp_ZERO now margin"
proof (intro conjI impI)
  have d: "unat (mono d) = term (mono send)" "unat (wall d) = term (wall send)" "lineage d = lineage send"
    by (simp_all add: assms HybridTimestamp_saturating_add_def unat_Timestamp_saturating_add)
  have "\<not> wall d \<le> Timestamp_saturating_add (wall now) margin \<longleftrightarrow> unat (wall now) + as_millis margin < unat (wall d)"
    using u64_le [of "wall d"] by (auto simp: word_le_nat_alt unat_Timestamp_saturating_add min_def simp del: u64_le)
  then show "\<not> expired d now margin \<longleftrightarrow>
      (if lineage now = lineage send then unat (mono now) < term (mono send) \<and> unat (wall now) < term (wall send)
       else unat (wall now) + as_millis margin < term (wall send))"
    by (auto simp: expired_def d not_le word_less_nat_alt)
next
  assume "lineage later = lineage now \<and> mono now \<le> mono later \<and> wall now \<le> wall later \<and> expired d now margin"
  then show "expired d later margin"
    using Timestamp_saturating_add_mono [of "wall now" "wall later" margin] by (auto simp: expired_def split: if_splits)
next
  show "expired HybridTimestamp_ZERO now margin" by (simp add: expired_def HybridTimestamp_ZERO_def)
qed

text \<open>The witness: a term of 100 ms from reading 50; the owner still holds it at 149, a successor with a
  margin of 10 ms does not.\<close>

theorem deadlines_are_live_exactly_within_their_term_witness:
  "let d = HybridTimestamp_saturating_add \<lparr>wall = 50, mono = 50, lineage = [7]\<rparr> 100000000 in
   \<not> expired d \<lparr>wall = 149, mono = 149, lineage = [7]\<rparr> 10000000 \<and>
   expired d \<lparr>wall = 140, mono = 0, lineage = [8]\<rparr> 10000000 \<and> \<not> expired d \<lparr>wall = 139, mono = 0, lineage = [8]\<rparr> 10000000"
  using deadlines_are_live_exactly_within_their_term [OF refl refl, THEN conjunct1, of "\<lparr>wall = 50, mono = 50, lineage = [7]\<rparr>" 100000000
      "\<lparr>wall = 149, mono = 149, lineage = [7]\<rparr>" 10000000]
    deadlines_are_live_exactly_within_their_term [OF refl refl, THEN conjunct1, of "\<lparr>wall = 50, mono = 50, lineage = [7]\<rparr>" 100000000
      "\<lparr>wall = 140, mono = 0, lineage = [8]\<rparr>" 10000000]
    deadlines_are_live_exactly_within_their_term [OF refl refl, THEN conjunct1, of "\<lparr>wall = 50, mono = 50, lineage = [7]\<rparr>" 100000000
      "\<lparr>wall = 139, mono = 0, lineage = [8]\<rparr>" 10000000]
  by (simp add: Let_def as_millis_def)

end
