(* ===== verification/Tag.thy ===== *)
theory Tag
  imports Range Seal Clock
begin

text \<open>
  Device-authored and admitted entries (\<open>core/src/tag.rs\<close>), leases (\<open>core/src/lease.rs\<close>) and the
  space identifier (\<open>core/src/space.rs\<close>).  The identifiers and checksums are byte arrays of
  fixed size, here byte lists whose length the \<open>wf_\<close> predicates state.  \<open>AdmissionOrder\<close> carries the
  derived lexicographic order.
\<close>

type_synonym DeviceId = bytes
type_synonym SpaceId = bytes
type_synonym DeviceSeq = u64
type_synonym AdmissionSeq = u64
type_synonym DeviceChecksum = bytes
type_synonym Ver = u64
type_synonym CipherEpoch = u64
type_synonym OpaqueValue = bytes
type_synonym LeaseId = u64

definition DeviceChecksum_EMPTY :: DeviceChecksum where
  "DeviceChecksum_EMPTY = replicate 32 0"

datatype AdmissionOrder = AdmissionOrder (ao_admission_seq: AdmissionSeq) (ao_op_index: u32)

instantiation AdmissionOrder :: linorder
begin
fun less_AdmissionOrder :: "AdmissionOrder \<Rightarrow> AdmissionOrder \<Rightarrow> bool" where
  "less_AdmissionOrder (AdmissionOrder s i) (AdmissionOrder t j) = (s < t \<or> s = t \<and> i < j)"
fun less_eq_AdmissionOrder :: "AdmissionOrder \<Rightarrow> AdmissionOrder \<Rightarrow> bool" where
  "less_eq_AdmissionOrder (AdmissionOrder s i) (AdmissionOrder t j) = (s < t \<or> s = t \<and> i \<le> j)"
instance
proof
  fix x y z :: AdmissionOrder
  show "(x < y) = (x \<le> y \<and> \<not> y \<le> x)" by (cases x; cases y) auto
  show "x \<le> x" by (cases x) auto
  show "x \<le> y \<Longrightarrow> y \<le> z \<Longrightarrow> x \<le> z" by (cases x; cases y; cases z) auto
  show "x \<le> y \<Longrightarrow> y \<le> x \<Longrightarrow> x = y" by (cases x; cases y) auto
  show "x \<le> y \<or> y \<le> x" by (cases x; cases y) auto
qed
end

datatype 'v Mutation =
    Set key 'v
  | Delete key
  | DeleteRange Range

fun point_key :: "'v Mutation \<Rightarrow> key option" where
  "point_key (Set key _) = Some key"
| "point_key (Delete key) = Some key"
| "point_key (DeleteRange _) = None"

fun mutation_range :: "'v Mutation \<Rightarrow> Range option" where
  "mutation_range (DeleteRange rng) = Some rng"
| "mutation_range (Set _ _) = None"
| "mutation_range (Delete _) = None"

fun is_set :: "'v Mutation \<Rightarrow> bool" where
  "is_set (Set _ _) = True"
| "is_set (Delete _) = False"
| "is_set (DeleteRange _) = False"

fun is_delete :: "'v Mutation \<Rightarrow> bool" where
  "is_delete (Delete _) = True"
| "is_delete (Set _ _) = False"
| "is_delete (DeleteRange _) = False"

fun is_delete_range :: "'v Mutation \<Rightarrow> bool" where
  "is_delete_range (DeleteRange _) = True"
| "is_delete_range (Set _ _) = False"
| "is_delete_range (Delete _) = False"

record DeviceTag =
  dt_device :: DeviceId
  dt_device_seq :: DeviceSeq
  dt_ver :: Ver
  dt_cipher_epoch :: CipherEpoch

record 'v DeviceEntry =
  de_mutation :: "'v Mutation"
  de_tag :: DeviceTag
  de_seal :: Seal

record AdmissionTag =
  at_admission_seq :: AdmissionSeq
  at_op_index :: u32

definition order :: "AdmissionTag \<Rightarrow> AdmissionOrder" where
  "order t = AdmissionOrder (at_admission_seq t) (at_op_index t)"

record 'v AdmittedEntry =
  ae_device_entry :: "'v DeviceEntry"
  ae_admission :: AdmissionTag

type_synonym entry = "OpaqueValue DeviceEntry"
type_synonym admitted = "OpaqueValue AdmittedEntry"

definition DeviceEntry_ver :: "'v DeviceEntry \<Rightarrow> Ver" where
  "DeviceEntry_ver e = dt_ver (de_tag e)"

definition AdmittedEntry_ver :: "'v AdmittedEntry \<Rightarrow> Ver" where
  "AdmittedEntry_ver e = DeviceEntry_ver (ae_device_entry e)"

definition AdmittedEntry_point_key :: "'v AdmittedEntry \<Rightarrow> key option" where
  "AdmittedEntry_point_key e = point_key (de_mutation (ae_device_entry e))"

text \<open>Abbreviations for the projections the data plane uses everywhere.\<close>

abbreviation mutation_of :: "'v AdmittedEntry \<Rightarrow> 'v Mutation" where
  "mutation_of e \<equiv> de_mutation (ae_device_entry e)"
abbreviation device_of :: "'v AdmittedEntry \<Rightarrow> DeviceId" where
  "device_of e \<equiv> dt_device (de_tag (ae_device_entry e))"
abbreviation seq_of :: "'v AdmittedEntry \<Rightarrow> AdmissionSeq" where
  "seq_of e \<equiv> at_admission_seq (ae_admission e)"
abbreviation order_of :: "'v AdmittedEntry \<Rightarrow> AdmissionOrder" where
  "order_of e \<equiv> order (ae_admission e)"

subsection \<open>Leases\<close>

datatype LeaseMode = Read | Write

fun compatible_with :: "LeaseMode \<Rightarrow> LeaseMode \<Rightarrow> bool" where
  "compatible_with Read Read = True"
| "compatible_with _ _ = False"

record Lease =
  l_id :: LeaseId
  l_prefix :: key
  l_mode :: LeaseMode
  l_requested_at :: HybridTimestamp
  l_granted_at :: Timestamp
  l_ttl :: Duration
  l_barrier :: AdmissionSeq

definition Lease_covers :: "Lease \<Rightarrow> key \<Rightarrow> bool" where
  "Lease_covers l key = Key_starts_with key (l_prefix l)"

subsection \<open>Well-formedness\<close>

definition wf_id :: "bytes \<Rightarrow> bool" where
  "wf_id d \<longleftrightarrow> length d = 16"

definition wf_checksum :: "bytes \<Rightarrow> bool" where
  "wf_checksum c \<longleftrightarrow> length c = 32"

fun wf_mutation :: "'v Mutation \<Rightarrow> bool" where
  "wf_mutation (Set key _) = wf_key key"
| "wf_mutation (Delete key) = wf_key key"
| "wf_mutation (DeleteRange rng) = wf_range rng"

definition wf_tag :: "DeviceTag \<Rightarrow> bool" where
  "wf_tag t \<longleftrightarrow> wf_id (dt_device t)"

definition wf_entry :: "'v DeviceEntry \<Rightarrow> bool" where
  "wf_entry e \<longleftrightarrow> wf_mutation (de_mutation e) \<and> wf_tag (de_tag e) \<and> wf_seal (de_seal e)"

definition wf_stamp :: "HybridTimestamp \<Rightarrow> bool" where
  "wf_stamp t \<longleftrightarrow> length (lineage t) = 16"

lemma wf_checksum_EMPTY [simp]: "wf_checksum DeviceChecksum_EMPTY"
  by (simp add: wf_checksum_def DeviceChecksum_EMPTY_def)

lemma compatible_with_sym: "compatible_with a b = compatible_with b a"
  by (cases a; cases b) auto

lemma compatible_with_iff: "compatible_with a b \<longleftrightarrow> a = Read \<and> b = Read"
  by (cases a; cases b) auto

lemma point_key_cases:
  "(\<exists>k. point_key m = Some k \<and> mutation_range m = None) \<or> (\<exists>r. point_key m = None \<and> m = DeleteRange r)"
  by (cases m) auto

end
