(* ===== verification/Messages.thy ===== *)
theory Messages
  imports Tag
begin

text \<open>
  Requests, responses and rejections of the kernel verbs (\<open>core/src/messages.rs\<close>), the device
  checksum and the density check of a pull response.  SHA-256 is a third-party crate: the checksum
  takes it as the parameter \<open>sha256\<close>, a function of the bytes fed to the hasher.  The theorem about
  the checksum states what the byte layout contributes: distinct histories, scopes, sequence
  numbers, assertions or entries feed distinct bytes.
\<close>

record LeaseSpec =
  ls_prefix :: key
  ls_mode :: LeaseMode
  ls_ttl :: Duration

record AcquireRequest =
  aq_device :: DeviceId
  aq_requested_at :: HybridTimestamp
  aq_specs :: "LeaseSpec list"

record RenewRequest =
  rn_device :: DeviceId
  rn_requested_at :: HybridTimestamp
  rn_leases :: "LeaseId list"

record RenewGrant =
  rg_id :: LeaseId
  rg_granted_at :: Timestamp
  rg_ttl :: Duration
  rg_contended :: bool

record RenewResponse =
  rr_granted :: "RenewGrant list"
  rr_invalid :: "LeaseId list"

record ReleaseRequest =
  rl_device :: DeviceId
  rl_leases :: "LeaseId list"

record RangeAssert =
  ra_prefix :: key
  ra_upto :: AdmissionSeq

record RangeAssertFailure =
  rf_prefix :: key
  rf_upto :: AdmissionSeq
  rf_actual :: AdmissionSeq

record AdmissionBatch =
  ab_device_seq :: DeviceSeq
  ab_range_asserts :: "RangeAssert list"
  ab_entries :: "entry list"

record AdmissionRequest =
  ar_device :: DeviceId
  ar_expected_checksum :: DeviceChecksum
  ar_evidence :: "LeaseId list"
  ar_batches :: "AdmissionBatch list"

datatype KernelError =
    Contended key "Duration option"
  | RangeContended Range "Duration option"
  | LeaseInvalid LeaseId
  | NotCovered key
  | InvalidSeal string
  | RangeAssertFailed "RangeAssertFailure list"
  | VerRegression key Ver Ver
  | RangeVerRegression Range Ver Ver
  | DeviceSeqRegression DeviceSeq DeviceSeq
  | DeviceChecksumMismatch DeviceSeq DeviceChecksum
  | AdmissionCursorAhead AdmissionSeq AdmissionSeq
  | Unauthorized key

datatype AdmissionResult = Applied AdmissionSeq | Failed KernelError

record AdmissionResponse =
  resp_checksum :: DeviceChecksum
  resp_results :: "AdmissionResult list"

record AdmittedBatch =
  b_admission_seq :: AdmissionSeq
  b_device :: DeviceId
  b_device_seq :: DeviceSeq
  b_checksum :: DeviceChecksum
  b_entries :: "admitted list"

record PullRequest =
  pq_after :: AdmissionSeq
  pq_max_batches :: "nat option"

record PullResponse =
  ps_after :: AdmissionSeq
  ps_through :: AdmissionSeq
  ps_batches :: "AdmittedBatch list"

record ListRequest =
  lq_prefix :: key
  lq_start_after :: "key option"
  lq_limit :: "nat option"

record ListResponse =
  lr_entries :: "admitted list"
  lr_truncated :: bool

record RangeCursor =
  rc_range :: Range
  rc_since :: "AdmissionSeq option"

datatype RangeCut = Snapshot "admitted list" | Delta "admitted list"

record ReadAtResponse =
  rat_at :: AdmissionSeq
  rat_ranges :: "RangeCut list"

datatype PullDensityError =
    CursorRegression AdmissionSeq AdmissionSeq
  | BatchCountMismatch u64 nat
  | BatchSequenceMismatch AdmissionSeq AdmissionSeq
  | EntryAdmissionMismatch AdmissionSeq AdmissionSeq
  | OperationIndexMismatch AdmissionSeq u32 u32
  | EntryDeviceMismatch AdmissionSeq
  | AdmissionSeqOverflow
  | OperationCountOverflow

definition applied_admission_seq :: "AdmissionResponse \<Rightarrow> nat \<Rightarrow> AdmissionSeq option" where
  "applied_admission_seq resp index =
     (if index < length (resp_results resp)
      then (case resp_results resp ! index of Applied s \<Rightarrow> Some s | Failed _ \<Rightarrow> None)
      else None)"

subsection \<open>The device checksum\<close>

definition checksum_domain :: bytes where
  "checksum_domain = map of_char ''homebase.device-checksum.v1'' @ [0]"

definition hash_bytes :: "bytes \<Rightarrow> bytes" where
  "hash_bytes bs = u64_be (of_nat (length bs)) @ bs"

fun mutation_preimage :: "OpaqueValue Mutation \<Rightarrow> bytes" where
  "mutation_preimage (Set key v) = [0] @ hash_bytes (Key_encode key) @ hash_bytes v"
| "mutation_preimage (Delete key) = [1] @ hash_bytes (Key_encode key)"
| "mutation_preimage (DeleteRange rng) = [2] @ hash_bytes (Range_encode rng)"

definition entry_preimage :: "entry \<Rightarrow> bytes" where
  "entry_preimage e =
     mutation_preimage (de_mutation e) @
     dt_device (de_tag e) @ u64_be (dt_device_seq (de_tag e)) @ u64_be (dt_ver (de_tag e)) @
     u64_be (dt_cipher_epoch (de_tag e)) @ hash_bytes (Seal_encode (de_seal e))"

definition assert_preimage :: "RangeAssert \<Rightarrow> bytes" where
  "assert_preimage a = hash_bytes (Key_encode (ra_prefix a)) @ u64_be (ra_upto a)"

definition checksum_preimage :: "DeviceChecksum \<Rightarrow> SpaceId \<Rightarrow> DeviceId \<Rightarrow> AdmissionBatch \<Rightarrow> bytes" where
  "checksum_preimage previous space device batch =
     checksum_domain @ previous @ space @ device @ u64_be (ab_device_seq batch) @
     u64_be (of_nat (length (ab_range_asserts batch))) @
     concat (map assert_preimage (ab_range_asserts batch)) @
     u64_be (of_nat (length (ab_entries batch))) @
     concat (map entry_preimage (ab_entries batch))"

definition AdmissionBatch_checksum ::
  "(bytes \<Rightarrow> bytes) \<Rightarrow> DeviceChecksum \<Rightarrow> SpaceId \<Rightarrow> DeviceId \<Rightarrow> AdmissionBatch \<Rightarrow> DeviceChecksum" where
  "AdmissionBatch_checksum sha256 previous space device batch =
     sha256 (checksum_preimage previous space device batch)"

subsection \<open>Density of a pull response\<close>

fun validate_entries :: "AdmittedBatch \<Rightarrow> nat \<Rightarrow> admitted list \<Rightarrow> PullDensityError + unit" where
  "validate_entries batch i [] = Inr ()"
| "validate_entries batch i (e # es) =
     (if i \<ge> 2 ^ 32 then Inl OperationCountOverflow
      else if seq_of e \<noteq> b_admission_seq batch
      then Inl (EntryAdmissionMismatch (b_admission_seq batch) (seq_of e))
      else if at_op_index (ae_admission e) \<noteq> of_nat i
      then Inl (OperationIndexMismatch (b_admission_seq batch) (of_nat i) (at_op_index (ae_admission e)))
      else if device_of e \<noteq> b_device batch \<or> dt_device_seq (de_tag (ae_device_entry e)) \<noteq> b_device_seq batch
      then Inl (EntryDeviceMismatch (b_admission_seq batch))
      else validate_entries batch (i + 1) es)"

definition AdmittedBatch_validate :: "AdmittedBatch \<Rightarrow> PullDensityError + unit" where
  "AdmittedBatch_validate batch =
     (if length (b_entries batch) \<ge> 2 ^ 32 then Inl OperationCountOverflow
      else validate_entries batch 0 (b_entries batch))"

fun validate_batches :: "AdmissionSeq \<Rightarrow> nat \<Rightarrow> AdmittedBatch list \<Rightarrow> PullDensityError + unit" where
  "validate_batches after i [] = Inr ()"
| "validate_batches after i (b # bs) =
     (if i \<ge> 2 ^ 64 then Inl AdmissionSeqOverflow
      else rbind (ok_or AdmissionSeqOverflow (checked_add64 (of_nat i) 1)) (\<lambda>offset.
        rbind (ok_or AdmissionSeqOverflow (checked_add64 after offset)) (\<lambda>expected.
          if b_admission_seq b \<noteq> expected
          then Inl (BatchSequenceMismatch expected (b_admission_seq b))
          else rbind (AdmittedBatch_validate b) (\<lambda>_. validate_batches after (i + 1) bs))))"

definition validate_dense :: "PullResponse \<Rightarrow> PullDensityError + unit" where
  "validate_dense p =
     (if ps_through p < ps_after p then Inl (CursorRegression (ps_after p) (ps_through p))
      else (let expected_len = ps_through p - ps_after p in
        if length (ps_batches p) \<noteq> unat expected_len
        then Inl (BatchCountMismatch expected_len (length (ps_batches p)))
        else validate_batches (ps_after p) 0 (ps_batches p)))"

subsection \<open>Self-delimiting encodings\<close>

definition delimited :: "('a \<Rightarrow> bool) \<Rightarrow> ('a \<Rightarrow> bytes) \<Rightarrow> bool" where
  "delimited D f \<longleftrightarrow> (\<forall>a b x y. D a \<longrightarrow> D b \<longrightarrow> f a @ x = f b @ y \<longrightarrow> a = b \<and> x = y)"

lemma delimitedI:
  "(\<And>a b x y. D a \<Longrightarrow> D b \<Longrightarrow> f a @ x = f b @ y \<Longrightarrow> a = b \<and> x = y) \<Longrightarrow> delimited D f"
  unfolding delimited_def by blast

lemma delimitedD: "delimited D f \<Longrightarrow> f a @ x = f b @ y \<Longrightarrow> D a \<Longrightarrow> D b \<Longrightarrow> a = b \<and> x = y"
  unfolding delimited_def by blast

lemma fixed_length_append: "length a = length b \<Longrightarrow> a @ x = b @ y \<longleftrightarrow> a = b \<and> x = y"
  by simp

lemma delimited_concat:
  assumes "delimited D f" and "length as = length bs" and "list_all D as" and "list_all D bs"
    and "concat (map f as) @ x = concat (map f bs) @ y"
  shows "as = bs \<and> x = y"
  using assms(2-5)
proof (induction as bs rule: list_induct2)
  case (Cons a as b bs)
  then have "f a @ concat (map f as) @ x = f b @ concat (map f bs) @ y" by simp
  from delimitedD [OF assms(1) this] Cons show ?case by simp
qed simp

lemma of_nat_u64_inject:
  assumes "m < 18446744073709551616" and "n < 18446744073709551616"
  shows "(of_nat m :: u64) = of_nat n \<longleftrightarrow> m = n"
proof -
  have "unat (of_nat m :: u64) = m" "unat (of_nat n :: u64) = n"
    using assms by (simp_all add: unat_of_nat)
  then show ?thesis by metis
qed

lemma delimited_hash_bytes: "delimited (\<lambda>bs. length bs < 2 ^ 64) hash_bytes"
proof (rule delimitedI)
  fix a b x y
  assume len: "length a < 2 ^ 64" "length b < 2 ^ 64" and "hash_bytes a @ x = hash_bytes b @ y"
  then have "(of_nat (length a) :: u64) = of_nat (length b)" and ab: "a @ x = b @ y"
    by (simp_all add: hash_bytes_def)
  then have "length a = length b"
    using len by (simp add: of_nat_u64_inject)
  with ab show "a = b \<and> x = y" by simp
qed

lemma Seal_encode_inject: "wf_seal s \<Longrightarrow> wf_seal t \<Longrightarrow> Seal_encode s = Seal_encode t \<longleftrightarrow> s = t"
proof -
  assume w: "wf_seal s" "wf_seal t"
  have "scheme s = scheme t" by (cases "scheme s"; cases "scheme t") simp
  with w show ?thesis
    by (auto simp: Seal_encode_def wf_seal_def intro: Seal.equality)
qed

lemma Range_encode_inject: "wf_range a \<Longrightarrow> wf_range b \<Longrightarrow> Range_encode a = Range_encode b \<longleftrightarrow> a = b"
  using Range_decode_encode by (metis option.inject)

fun small_mutation :: "OpaqueValue Mutation \<Rightarrow> bool" where
  "small_mutation (Set _ v) = (length v < 2 ^ 64)"
| "small_mutation (Delete _) = True"
| "small_mutation (DeleteRange _) = True"

lemma length_Key_encode_small: "wf_key k \<Longrightarrow> length (Key_encode k) < 18446744073709551616"
  using wf_range_length [of k] by simp

lemma length_Range_encode_small: "wf_range r \<Longrightarrow> length (Range_encode r) < 18446744073709551616"
  by (cases r) (auto simp: Let_def wf_key_def Key_encode_def key_limits)

lemma hash_bytes_append_inject:
  "length a < 18446744073709551616 \<Longrightarrow> length b < 18446744073709551616 \<Longrightarrow> hash_bytes a @ x = hash_bytes b @ y \<longleftrightarrow> a = b \<and> x = y"
  using delimitedD [OF delimited_hash_bytes, of a x b y] by auto

lemma delimited_mutation: "delimited (\<lambda>m. wf_mutation m \<and> small_mutation m) mutation_preimage"
proof (rule delimitedI)
  fix a b x y
  assume "wf_mutation a \<and> small_mutation a" "wf_mutation b \<and> small_mutation b"
    "mutation_preimage a @ x = mutation_preimage b @ y"
  then show "a = b \<and> x = y"
    by (cases a; cases b)
      (simp_all add: hash_bytes_append_inject length_Key_encode_small length_Range_encode_small
        Range_encode_inject, simp_all add: Key_encode_def)
qed

definition wf_small_entry :: "entry \<Rightarrow> bool" where
  "wf_small_entry e \<longleftrightarrow> wf_entry e \<and> small_mutation (de_mutation e) \<and> length (payload (de_seal e)) < 2 ^ 32"

lemma length_Seal_encode_small: "wf_seal s \<Longrightarrow> length (payload s) < 4294967296 \<Longrightarrow> length (Seal_encode s) < 18446744073709551616"
  by (simp add: length_Seal_encode seal_lengths)

lemma delimited_entry: "delimited wf_small_entry entry_preimage"
proof (rule delimitedI)
  fix a b :: entry and x y
  assume w: "wf_small_entry a" "wf_small_entry b" and eq: "entry_preimage a @ x = entry_preimage b @ y"
  have m: "de_mutation a = de_mutation b" and r: "dt_device (de_tag a) @ u64_be (dt_device_seq (de_tag a)) @
      u64_be (dt_ver (de_tag a)) @ u64_be (dt_cipher_epoch (de_tag a)) @ hash_bytes (Seal_encode (de_seal a)) @ x
    = dt_device (de_tag b) @ u64_be (dt_device_seq (de_tag b)) @
      u64_be (dt_ver (de_tag b)) @ u64_be (dt_cipher_epoch (de_tag b)) @ hash_bytes (Seal_encode (de_seal b)) @ y"
    using delimitedD [OF delimited_mutation eq [unfolded entry_preimage_def append_assoc]] w
    by (simp_all add: wf_small_entry_def wf_entry_def)
  have l: "length (dt_device (de_tag a)) = length (dt_device (de_tag b))"
    using w by (simp add: wf_small_entry_def wf_entry_def wf_tag_def wf_id_def)
  have "de_tag a = de_tag b \<and> de_seal a = de_seal b \<and> x = y"
    using r l w by (auto simp: wf_small_entry_def wf_entry_def hash_bytes_append_inject
        length_Seal_encode_small Seal_encode_inject intro!: DeviceTag.equality)
  with m show "a = b \<and> x = y" by (auto intro: DeviceEntry.equality)
qed

lemma delimited_assert: "delimited (\<lambda>a. wf_key (ra_prefix a)) assert_preimage"
proof (rule delimitedI)
  fix a b :: RangeAssert and x y
  assume "wf_key (ra_prefix a)" "wf_key (ra_prefix b)" "assert_preimage a @ x = assert_preimage b @ y"
  then have "ra_prefix a = ra_prefix b" "ra_upto a = ra_upto b" "x = y"
    by (simp_all add: assert_preimage_def hash_bytes_append_inject length_Key_encode_small)
      (simp_all add: Key_encode_def)
  then show "a = b \<and> x = y" by (auto intro: RangeAssert.equality)
qed

definition wf_batch :: "AdmissionBatch \<Rightarrow> bool" where
  "wf_batch b \<longleftrightarrow> list_all wf_small_entry (ab_entries b) \<and>
     list_all (\<lambda>a. wf_key (ra_prefix a)) (ab_range_asserts b) \<and>
     length (ab_entries b) < 2 ^ 64 \<and> length (ab_range_asserts b) < 2 ^ 64"

lemma checksum_preimage_inject:
  assumes "wf_checksum p" "wf_checksum q" "wf_id s" "wf_id t" "wf_id d" "wf_id e" "wf_batch a" "wf_batch b"
    and "checksum_preimage p s d a = checksum_preimage q t e b"
  shows "p = q \<and> s = t \<and> d = e \<and> a = b"
proof -
  from assms have h: "p = q" "s = t" "d = e" "ab_device_seq a = ab_device_seq b"
    and la: "(of_nat (length (ab_range_asserts a)) :: u64) = of_nat (length (ab_range_asserts b))"
    and r: "concat (map assert_preimage (ab_range_asserts a)) @ u64_be (of_nat (length (ab_entries a))) @
        concat (map entry_preimage (ab_entries a)) =
      concat (map assert_preimage (ab_range_asserts b)) @ u64_be (of_nat (length (ab_entries b))) @
        concat (map entry_preimage (ab_entries b))"
    by (simp_all add: checksum_preimage_def wf_checksum_def wf_id_def)
  from la assms(7,8) have "length (ab_range_asserts a) = length (ab_range_asserts b)"
    by (simp add: wf_batch_def of_nat_u64_inject)
  from delimited_concat [OF delimited_assert this _ _ r] assms(7,8)
  have ra: "ab_range_asserts a = ab_range_asserts b"
    and re: "u64_be (of_nat (length (ab_entries a))) @ concat (map entry_preimage (ab_entries a)) =
      u64_be (of_nat (length (ab_entries b))) @ concat (map entry_preimage (ab_entries b))"
    by (simp_all add: wf_batch_def)
  from re assms(7,8) have le: "length (ab_entries a) = length (ab_entries b)"
    and ce: "concat (map entry_preimage (ab_entries a)) = concat (map entry_preimage (ab_entries b))"
    by (simp_all add: wf_batch_def of_nat_u64_inject)
  have "ab_entries a = ab_entries b"
    using delimited_concat [OF delimited_entry le, of "[]" "[]"] ce assms(7,8) by (simp add: wf_batch_def)
  with h ra show ?thesis by (auto intro: AdmissionBatch.equality)
qed


subsection \<open>Dense responses\<close>

definition dense_entry :: "AdmittedBatch \<Rightarrow> nat \<Rightarrow> admitted \<Rightarrow> bool" where
  "dense_entry b j e \<longleftrightarrow> seq_of e = b_admission_seq b \<and> at_op_index (ae_admission e) = of_nat j \<and>
     device_of e = b_device b \<and> dt_device_seq (de_tag (ae_device_entry e)) = b_device_seq b"

definition dense_batch :: "AdmittedBatch \<Rightarrow> bool" where
  "dense_batch b \<longleftrightarrow> length (b_entries b) < 2 ^ 32 \<and>
     (\<forall>j < length (b_entries b). dense_entry b j (b_entries b ! j))"

lemma all_less_Suc_nth: "(\<forall>j < length (x # xs). P j ((x # xs) ! j)) \<longleftrightarrow> P 0 x \<and> (\<forall>j < length xs. P (Suc j) (xs ! j))"
  by (auto simp: less_Suc_eq_0_disj)

lemma validate_entries_iff:
  "i + length es \<le> 4294967296 \<Longrightarrow>
   validate_entries b i es = Inr () \<longleftrightarrow> (\<forall>j < length es. dense_entry b (i + j) (es ! j))"
proof (induction es arbitrary: i)
  case (Cons e es)
  then have "\<not> 4294967296 \<le> i" by simp
  then have "validate_entries b i (e # es) = Inr () \<longleftrightarrow> dense_entry b i e \<and> validate_entries b (Suc i) es = Inr ()"
    by (auto simp: dense_entry_def)
  with Cons show ?case
    using all_less_Suc_nth [of e es "\<lambda>j. dense_entry b (i + j)"] by simp
qed simp

lemma AdmittedBatch_validate_iff: "AdmittedBatch_validate b = Inr () \<longleftrightarrow> dense_batch b"
  using validate_entries_iff [of 0 "b_entries b" b] by (auto simp: AdmittedBatch_validate_def dense_batch_def)

lemma of_nat_add_u64: "unat (w :: u64) + n < 18446744073709551616 \<Longrightarrow> unat (w + of_nat n) = unat w + n"
  by (simp add: unat_word_ariths unat_of_nat)

lemma validate_batches_iff:
  "unat after + i + length bs < 18446744073709551616 \<Longrightarrow>
   validate_batches after i bs = Inr () \<longleftrightarrow>
     (\<forall>j < length bs. b_admission_seq (bs ! j) = after + of_nat (i + j + 1) \<and> dense_batch (bs ! j))"
proof (induction bs arbitrary: i)
  case (Cons b bs)
  then have i: "\<not> 18446744073709551616 \<le> i" "unat (of_nat i :: u64) = i" "unat (of_nat i + 1 :: u64) = i + 1"
    using of_nat_add_u64 [of "of_nat i" 1] by (simp_all add: unat_of_nat)
  have c: "checked_add64 (of_nat i) 1 = Some (of_nat i + 1)"
    "checked_add64 after (of_nat i + 1) = Some (after + (of_nat i + 1))"
    using Cons.prems i by (simp_all add: checked_add64_def)
  have "validate_batches after i (b # bs) = Inr () \<longleftrightarrow>
      b_admission_seq b = after + (of_nat i + 1) \<and> dense_batch b \<and> validate_batches after (Suc i) bs = Inr ()"
    using i(1) c by (auto simp: rbind_Inr_iff AdmittedBatch_validate_iff)
  also have "\<dots> \<longleftrightarrow> (\<forall>j < length (b # bs). b_admission_seq ((b # bs) ! j) = after + of_nat (i + j + 1) \<and> dense_batch ((b # bs) ! j))"
    using all_less_Suc_nth [of b bs "\<lambda>j b. b_admission_seq b = after + of_nat (i + j + 1) \<and> dense_batch b"]
      Cons.IH [of "Suc i"] Cons.prems by (simp add: algebra_simps)
  finally show ?case .
qed simp

definition dense_response :: "PullResponse \<Rightarrow> bool" where
  "dense_response p \<longleftrightarrow> unat (ps_after p) + length (ps_batches p) = unat (ps_through p) \<and>
     (\<forall>j < length (ps_batches p).
        unat (b_admission_seq (ps_batches p ! j)) = unat (ps_after p) + j + 1 \<and> dense_batch (ps_batches p ! j))"

lemma validate_dense_iff: "validate_dense p = Inr () \<longleftrightarrow> dense_response p"
proof (cases "ps_through p < ps_after p \<or> length (ps_batches p) \<noteq> unat (ps_through p - ps_after p)")
  case True
  then show ?thesis
    by (auto simp: validate_dense_def dense_response_def Let_def word_less_nat_alt unat_sub word_le_nat_alt)
next
  case False
  then have le: "ps_after p \<le> ps_through p" by auto
  with False have len: "unat (ps_after p) + length (ps_batches p) = unat (ps_through p)"
    by (simp add: word_le_nat_alt unat_sub)
  have b: "unat (ps_after p) + 0 + length (ps_batches p) < 18446744073709551616"
    using len u64_less [of "ps_through p"] by simp
  have "b_admission_seq (ps_batches p ! j) = ps_after p + of_nat (0 + j + 1) \<longleftrightarrow>
      unat (b_admission_seq (ps_batches p ! j)) = unat (ps_after p) + j + 1"
    if "j < length (ps_batches p)" for j
    using of_nat_add_u64 [of "ps_after p" "j + 1"] that b by (simp add: word_unat_eq_iff)
  moreover have "validate_dense p = validate_batches (ps_after p) 0 (ps_batches p)"
    using False by (simp add: validate_dense_def)
  ultimately show ?thesis
    unfolding dense_response_def using validate_batches_iff [OF b] len by auto
qed

subsection \<open>Properties\<close>

text \<open>C35: the cumulative device checksum commits to the previous checksum, the space, the device
  and the complete batch: two computations give the same checksum only for the same history, scope
  and batch, or by a collision of the hash on two different byte strings.\<close>

theorem checksum_commits_to_history_scope_and_batch:
  assumes "wf_checksum p" "wf_checksum q" "wf_id s" "wf_id t" "wf_id d" "wf_id e" "wf_batch a" "wf_batch b"
    and "AdmissionBatch_checksum sha256 p s d a = AdmissionBatch_checksum sha256 q t e b"
  shows "(p = q \<and> s = t \<and> d = e \<and> a = b) \<or>
    (let x = checksum_preimage p s d a; y = checksum_preimage q t e b in x \<noteq> y \<and> sha256 x = sha256 y)"
  using checksum_preimage_inject [OF assms(1-8)] assms(9)
  by (auto simp: AdmissionBatch_checksum_def)

text \<open>The witness: two empty batches with different device sequence numbers, under a
  constant hash, which collides on exactly their preimages.\<close>

theorem checksum_commits_to_history_scope_and_batch_witness:
  "let x = checksum_preimage DeviceChecksum_EMPTY (replicate 16 1) (replicate 16 1)
         \<lparr>ab_device_seq = 1, ab_range_asserts = [], ab_entries = []\<rparr>;
       y = checksum_preimage DeviceChecksum_EMPTY (replicate 16 1) (replicate 16 1)
         \<lparr>ab_device_seq = 2, ab_range_asserts = [], ab_entries = []\<rparr>
   in x \<noteq> y \<and> (\<lambda>_. [0 :: u8]) x = (\<lambda>_. [0]) y"
proof -
  define a where "a = \<lparr>ab_device_seq = 1, ab_range_asserts = [], ab_entries = []\<rparr>"
  define b where "b = \<lparr>ab_device_seq = 2, ab_range_asserts = [], ab_entries = []\<rparr>"
  have w: "wf_checksum DeviceChecksum_EMPTY" "wf_id (replicate 16 1)" "wf_batch a" "wf_batch b"
    by (simp_all add: wf_id_def a_def b_def wf_batch_def)
  have "a \<noteq> b" by (simp add: a_def b_def)
  then show ?thesis
    using checksum_commits_to_history_scope_and_batch [OF w(1,1) w(2,2) w(2,2) w(3,4), of "\<lambda>_. [0]"]
    by (simp add: AdmissionBatch_checksum_def a_def b_def)
qed

text \<open>C36: \<open>validate_dense\<close> accepts a pull response exactly when it is the complete dense interval
  \<open>(after, through]\<close>: one batch per admission sequence number in order, and in each batch the
  entries numbered from zero and tagged with the batch's device, device sequence and admission
  sequence.\<close>

theorem validate_dense_accepts_exactly_dense_intervals:
  "validate_dense p = Inr () \<longleftrightarrow>
     unat (ps_after p) + length (ps_batches p) = unat (ps_through p) \<and>
     (\<forall>j < length (ps_batches p). let b = ps_batches p ! j in
        unat (b_admission_seq b) = unat (ps_after p) + j + 1 \<and>
        length (b_entries b) < 2 ^ 32 \<and>
        (\<forall>i < length (b_entries b). let e = b_entries b ! i in
           order_of e = AdmissionOrder (b_admission_seq b) (of_nat i) \<and>
           device_of e = b_device b \<and> dt_device_seq (de_tag (ae_device_entry e)) = b_device_seq b))"
  unfolding validate_dense_iff dense_response_def dense_batch_def dense_entry_def Let_def order_def
  by auto

text \<open>The witness: one batch with one deletion, pulled after cursor 4.\<close>

theorem validate_dense_accepts_exactly_dense_intervals_witness:
  "validate_dense \<lparr>ps_after = 4, ps_through = 5, ps_batches = [
     \<lparr>b_admission_seq = 5, b_device = replicate 16 1, b_device_seq = 3, b_checksum = DeviceChecksum_EMPTY,
      b_entries = [\<lparr>ae_device_entry = \<lparr>de_mutation = Delete [[7]],
        de_tag = \<lparr>dt_device = replicate 16 1, dt_device_seq = 3, dt_ver = 1, dt_cipher_epoch = 0\<rparr>,
        de_seal = empty_aead_v1\<rparr>, ae_admission = \<lparr>at_admission_seq = 5, at_op_index = 0\<rparr>\<rparr>]\<rparr>]\<rparr> = Inr ()"
  unfolding validate_dense_accepts_exactly_dense_intervals by (simp add: Let_def order_def)

end
