(* ===== verification/Store.thy ===== *)
theory Store
  imports Messages
begin

text \<open>
  The ordered store (\<open>core/src/storage.rs\<close>): write batches, the in-memory store and prefix scans.

  A \<open>BTreeMap\<close> is an association list with strictly ascending keys (\<open>bt_wf\<close>); the same structure
  serves the staging maps of the data plane.  The in-memory store never fails, so its operations
  return no storage error; \<open>BTreeMap::range\<close> is documented to panic on a start above the end, which is the
  \<open>Panic\<close> branch of \<open>MemoryStore_scan\<close> (a map that never held an entry may skip the check).  The locale \<open>ordered_store\<close> is the contract the server relies on;
  its laws give the meaning of prefix scans, and the in-memory store interprets it.
\<close>

subsection \<open>Ordered maps\<close>

type_synonym ('k, 'v) btree = "('k \<times> 'v) list"

definition bt_get :: "('k, 'v) btree \<Rightarrow> 'k \<Rightarrow> 'v option" where
  "bt_get t k = map_of t k"

fun bt_insert :: "'k :: linorder \<Rightarrow> 'v \<Rightarrow> ('k, 'v) btree \<Rightarrow> ('k, 'v) btree" where
  "bt_insert k v [] = [(k, v)]"
| "bt_insert k v ((k', v') # t) =
     (if k < k' then (k, v) # (k', v') # t
      else if k = k' then (k, v) # t
      else (k', v') # bt_insert k v t)"

fun bt_remove :: "'k :: linorder \<Rightarrow> ('k, 'v) btree \<Rightarrow> ('k, 'v) btree" where
  "bt_remove k [] = []"
| "bt_remove k ((k', v') # t) =
     (if k < k' then (k', v') # t else if k = k' then t else (k', v') # bt_remove k t)"

definition bt_wf :: "('k :: linorder, 'v) btree \<Rightarrow> bool" where
  "bt_wf t \<longleftrightarrow> sorted_wrt (<) (map fst t)"

lemma bt_wf_simps [simp]:
  "bt_wf []" "bt_wf (kv # t) \<longleftrightarrow> (\<forall>k \<in> fst ` set t. fst kv < k) \<and> bt_wf t"
  by (auto simp: bt_wf_def)

lemma bt_get_Nil [simp]: "bt_get [] k = None"
  by (simp add: bt_get_def)

lemma bt_get_Cons: "bt_get (kv # t) k = (if k = fst kv then Some (snd kv) else bt_get t k)"
  by (cases kv) (simp add: bt_get_def)

lemma keys_bt_insert [simp]: "fst ` set (bt_insert k v t) = insert k (fst ` set t)"
  by (induction k v t rule: bt_insert.induct) auto

lemma bt_wf_insert [simp]: "bt_wf t \<Longrightarrow> bt_wf (bt_insert k v t)"
  by (induction k v t rule: bt_insert.induct) (auto simp del: set_map)

lemma bt_get_insert [simp]: "bt_wf t \<Longrightarrow> bt_get (bt_insert k v t) k' = (if k' = k then Some v else bt_get t k')"
  by (induction k v t rule: bt_insert.induct) (auto simp: bt_get_Cons)

lemma bt_get_None: "bt_get t k = None \<longleftrightarrow> k \<notin> fst ` set t"
  by (simp add: bt_get_def map_of_eq_None_iff)

lemma bt_get_Some: "bt_wf t \<Longrightarrow> bt_get t k = Some v \<longleftrightarrow> (k, v) \<in> set t"
  by (simp add: bt_get_def bt_wf_def sorted_wrt_less_distinct map_of_eq_Some_iff)

lemma keys_bt_remove: "bt_wf t \<Longrightarrow> fst ` set (bt_remove k t) = fst ` set t - {k}"
  by (induction k t rule: bt_remove.induct) (auto simp: image_iff)

lemma bt_wf_remove [simp]: "bt_wf t \<Longrightarrow> bt_wf (bt_remove k t)"
  by (induction k t rule: bt_remove.induct) (auto simp: keys_bt_remove)

lemma bt_get_remove [simp]: "bt_wf t \<Longrightarrow> bt_get (bt_remove k t) k' = (if k' = k then None else bt_get t k')"
proof (induction k t rule: bt_remove.induct)
  case (2 k k1 v1 t)
  then show ?case using keys_bt_remove [of t k] by (auto simp: bt_get_Cons bt_get_None)
qed simp

lemma bt_wf_filter [simp]: "bt_wf t \<Longrightarrow> bt_wf (filter P t)"
  by (induction t) auto

lemma bt_as_map: "bt_wf t \<Longrightarrow> map (\<lambda>k. (k, the (bt_get t k))) (map fst t) = t"
proof -
  assume wf: "bt_wf t"
  have "the (bt_get t (fst x)) = snd x" if "x \<in> set t" for x
    using that bt_get_Some [OF wf, of "fst x" "snd x"] by simp
  then have "map (\<lambda>x. (fst x, the (bt_get t (fst x)))) t = t"
    by (intro map_idI) simp
  then show ?thesis by (simp add: comp_def)
qed

lemma bt_ext:
  assumes "bt_wf s" "bt_wf t" "\<And>k. bt_get s k = bt_get t k"
  shows "s = t"
proof -
  have "fst ` set s = fst ` set t"
    using assms(3) by (metis bt_get_None set_eqI)
  then have "map fst s = map fst t"
    using assms(1,2) strict_sorted_unique [of "map fst s" "map fst t"] by (simp add: bt_wf_def)
  then show ?thesis
    using bt_as_map [OF assms(1)] bt_as_map [OF assms(2)] assms(3) by simp
qed

subsection \<open>Write batches and the in-memory store\<close>

datatype StorageErrorKind = Busy | Other

record StorageError =
  se_kind :: StorageErrorKind
  se_message :: string

datatype Error = Kernel KernelError | Storage StorageError | Panic string

datatype Op = Put bytes bytes | Del bytes

type_synonym WriteBatch = "Op list"

definition WriteBatch_put :: "bytes \<Rightarrow> bytes \<Rightarrow> WriteBatch \<Rightarrow> WriteBatch" where
  "WriteBatch_put k v b = b @ [Put k v]"

definition WriteBatch_delete :: "bytes \<Rightarrow> WriteBatch \<Rightarrow> WriteBatch" where
  "WriteBatch_delete k b = b @ [Del k]"

type_synonym MemoryStore = "(bytes, bytes) btree"

definition MemoryStore_get :: "MemoryStore \<Rightarrow> bytes \<Rightarrow> bytes option" where
  "MemoryStore_get st k = bt_get st k"

definition MemoryStore_scan :: "MemoryStore \<Rightarrow> bytes \<Rightarrow> bytes option \<Rightarrow> Error + (bytes \<times> bytes) list" where
  "MemoryStore_scan st start bound =
     (case bound of
        Some e \<Rightarrow> if start > e then Inl (Panic ''range start is greater than range end in BTreeMap'')
                  else Inr (filter (\<lambda>kv. start \<le> fst kv \<and> fst kv < e) st)
      | None \<Rightarrow> Inr (filter (\<lambda>kv. start \<le> fst kv) st))"

fun Op_apply :: "Op \<Rightarrow> MemoryStore \<Rightarrow> MemoryStore" where
  "Op_apply (Put k v) st = bt_insert k v st"
| "Op_apply (Del k) st = bt_remove k st"

definition MemoryStore_apply :: "WriteBatch \<Rightarrow> MemoryStore \<Rightarrow> MemoryStore" where
  "MemoryStore_apply ops st = fold Op_apply ops st"

function prefix_successor :: "bytes \<Rightarrow> bytes option" where
  "prefix_successor out =
     (if out = [] then None
      else if last out < 0xff then Some (butlast out @ [last out + 1])
      else prefix_successor (butlast out))"
  by auto
termination by (relation "measure length") auto

declare prefix_successor.simps [simp del]

definition scan_prefix :: "MemoryStore \<Rightarrow> bytes \<Rightarrow> Error + (bytes \<times> bytes) list" where
  "scan_prefix st p = MemoryStore_scan st p (prefix_successor p)"

subsection \<open>The prefix bound\<close>

lemma prefix_successor_snoc:
  "prefix_successor (xs @ [x]) = (if x < 0xff then Some (xs @ [x + 1]) else prefix_successor xs)"
  by (subst prefix_successor.simps) simp

lemma prefix_successor_Nil: "prefix_successor [] = None"
  by (simp add: prefix_successor.simps)

text \<open>\<open>below p k\<close>: the byte string \<open>k\<close> is below the exclusive bound computed for the prefix \<open>p\<close>.\<close>

definition below :: "bytes \<Rightarrow> bytes \<Rightarrow> bool" where
  "below p k \<longleftrightarrow> (case prefix_successor p of None \<Rightarrow> True | Some e \<Rightarrow> k < e)"

lemma unat_u8_succ: "x < 0xff \<Longrightarrow> unat (x + 1 :: u8) = unat x + 1"
  by (simp add: word_less_nat_alt unat_word_ariths)

lemma u8_max: "(x :: u8) \<le> 0xff"
proof -
  have "unat x < 256" using unat_bound [of x] by simp
  then have "unat x \<le> 255" by linarith
  then show ?thesis by (simp add: word_le_nat_alt)
qed

lemma between_siblings: "xs @ [x] \<le> k \<Longrightarrow> k < xs @ [x + 1] \<Longrightarrow> x < 0xff \<Longrightarrow> prefix (xs @ [x]) (k :: bytes)"
proof (induction xs arbitrary: k)
  case Nil
  then obtain y r where k: "k = y # r" by (cases k) auto
  with Nil have "x \<le> y" "y < x + 1 \<or> y = x + 1 \<and> r < []" by (auto simp: Cons_le_Cons)
  then have "unat y = unat x"
    using unat_u8_succ [OF Nil(3)] by (auto simp: word_le_nat_alt word_less_nat_alt)
  then have "y = x" by (simp add: word_unat_eq_iff)
  with k show ?case by simp
next
  case (Cons a xs)
  then obtain y r where k: "k = y # r" by (cases k) auto
  with Cons.prems have "y = a" "xs @ [x] \<le> r" "r < xs @ [x + 1]" by (auto simp: Cons_le_Cons)
  with Cons.IH [of r] Cons.prems(3) k show ?case by simp
qed

lemma prefix_iff_below: "prefix p k \<longleftrightarrow> p \<le> k \<and> below p k"
proof (induction p arbitrary: k rule: rev_induct)
  case Nil
  then show ?case by (simp add: below_def prefix_successor_Nil)
next
  case (snoc x xs)
  show ?case
  proof (cases "x < 0xff")
    case True
    then have "x < x + 1"
      using unat_u8_succ by (simp add: word_less_nat_alt)
    then have "k < xs @ [x + 1]" if "prefix (xs @ [x]) k"
      using that by (auto simp: prefix_def append_less_append)
    moreover have "below (xs @ [x]) k \<longleftrightarrow> k < xs @ [x + 1]"
      using True by (simp add: below_def prefix_successor_snoc)
    ultimately show ?thesis
      using between_siblings [of xs x k] True prefix_le [of "xs @ [x]" k] by blast
  next
    case False
    then have x: "x = 0xff" by (intro order.antisym u8_max) (simp add: not_less)
    have b: "below (xs @ [x]) k \<longleftrightarrow> below xs k"
      using False by (simp add: below_def prefix_successor_snoc)
    show ?thesis
    proof
      assume "prefix (xs @ [x]) k"
      then show "xs @ [x] \<le> k \<and> below (xs @ [x]) k"
        using snoc.IH [of k] b prefix_le [of "xs @ [x]" k] append_prefixD [of xs "[x]" k] by blast
    next
      assume k: "xs @ [x] \<le> k \<and> below (xs @ [x]) k"
      then have "xs \<le> k" using prefix_le [of xs "xs @ [x]"] by (meson order_trans prefixI)
      then obtain r where r: "k = xs @ r" using k b snoc.IH [of k] by (auto simp: prefix_def)
      show "prefix (xs @ [x]) k"
        using k r x less_append [of xs "[x]"] u8_max [of "hd r"] by (cases r) (auto simp: Cons_le_Cons)
    qed
  qed
qed

lemma prefix_successor_above: "prefix_successor p = Some e \<Longrightarrow> p < e"
  using prefix_iff_below [of p p] by (simp add: below_def)

lemma scan_prefix_eq: "scan_prefix st p = Inr (filter (\<lambda>kv. prefix p (fst kv)) st)"
  using prefix_successor_above [of p] prefix_iff_below [of p]
  by (auto simp: scan_prefix_def MemoryStore_scan_def below_def split: option.splits)

subsection \<open>Effect of a batch\<close>

fun batch_value :: "WriteBatch \<Rightarrow> bytes \<Rightarrow> bytes option \<Rightarrow> bytes option" where
  "batch_value [] k v = v"
| "batch_value (Put k' v' # ops) k v = batch_value ops k (if k = k' then Some v' else v)"
| "batch_value (Del k' # ops) k v = batch_value ops k (if k = k' then None else v)"

fun op_key :: "Op \<Rightarrow> bytes" where
  "op_key (Put k v) = k"
| "op_key (Del k) = k"

lemma batch_value_append [simp]: "batch_value (xs @ ys) k v = batch_value ys k (batch_value xs k v)"
  by (induction xs k v rule: batch_value.induct) auto

lemma batch_value_untouched [simp]: "k \<notin> op_key ` set ops \<Longrightarrow> batch_value ops k v = v"
  by (induction ops k v rule: batch_value.induct) auto

lemma batch_value_puts:
  assumes "bt_wf t" and "\<And>a b. a \<in> fst ` set t \<Longrightarrow> f a = f b \<Longrightarrow> a = b"
  shows "batch_value (map (\<lambda>(a, r). Put (f a) (g a r)) t) (f a) v =
    (case bt_get t a of Some r \<Rightarrow> Some (g a r) | None \<Rightarrow> v)"
  using assms
proof (induction t arbitrary: v)
  case (Cons ar t)
  obtain b r where ar: "ar = (b, r)" by (cases ar)
  have wf: "bt_wf t" and fresh: "b \<notin> fst ` set t" using Cons.prems(1) ar by auto
  have "a = b" if "a \<in> fst ` set t" "f a = f b" for a b
    by (rule Cons.prems(2) [OF _ that(2)]) (use that(1) in simp)
  note IH = Cons.IH [OF wf this]
  show ?case
  proof (cases "a = b")
    case True
    with fresh have "bt_get t a = None" by (simp add: bt_get_None)
    with True ar IH show ?thesis by (simp add: bt_get_Cons)
  next
    case False
    have "f a \<noteq> f b"
    proof
      assume "f a = f b"
      then have "b = a" by (intro Cons.prems(2)) (simp_all add: ar)
      with False show False by simp
    qed
    with False ar IH show ?thesis by (simp add: bt_get_Cons)
  qed
qed simp

subsection \<open>The store contract\<close>

locale ordered_store =
  fixes ok :: "'s \<Rightarrow> bool"
    and get :: "'s \<Rightarrow> bytes \<Rightarrow> bytes option"
    and scan :: "'s \<Rightarrow> bytes \<Rightarrow> bytes option \<Rightarrow> Error + (bytes \<times> bytes) list"
    and apply_batch :: "WriteBatch \<Rightarrow> 's \<Rightarrow> 's"
  assumes apply_ok: "ok s \<Longrightarrow> ok (apply_batch ops s)"
    and get_apply: "ok s \<Longrightarrow> get (apply_batch ops s) k = batch_value ops k (get s k)"
    and scan_window: "ok s \<Longrightarrow> (\<And>e. bound = Some e \<Longrightarrow> start \<le> e) \<Longrightarrow>
      \<exists>kvs. scan s start bound = Inr kvs \<and> sorted_wrt (<) (map fst kvs) \<and>
        (\<forall>k v. (k, v) \<in> set kvs \<longleftrightarrow> get s k = Some v \<and> start \<le> k \<and> (\<forall>e. bound = Some e \<longrightarrow> k < e))"
begin

lemma scan_enumerates:
  assumes "ok s" "\<And>e. bound = Some e \<Longrightarrow> start \<le> e"
    and "sorted_wrt (\<lambda>a b. f a < f b) xs"
    and "\<And>k v. get s k = Some v \<and> start \<le> k \<and> (\<forall>e. bound = Some e \<longrightarrow> k < e) \<longleftrightarrow>
      (\<exists>x \<in> set xs. k = f x \<and> v = g x)"
  shows "scan s start bound = Inr (map (\<lambda>x. (f x, g x)) xs)"
proof -
  obtain kvs where kvs: "scan s start bound = Inr kvs" "bt_wf kvs"
    and raw: "\<forall>k v. (k, v) \<in> set kvs \<longleftrightarrow> get s k = Some v \<and> start \<le> k \<and> (\<forall>e. bound = Some e \<longrightarrow> k < e)"
    using scan_window [OF assms(1) assms(2)] unfolding bt_wf_def by blast
  have mem: "(k, v) \<in> set kvs \<longleftrightarrow> (\<exists>x \<in> set xs. k = f x \<and> v = g x)" for k v
    using raw assms(4) [of k v] by blast
  have wf: "bt_wf (map (\<lambda>x. (f x, g x)) xs)"
    using assms(3) by (simp add: bt_wf_def sorted_wrt_map comp_def)
  have "kvs = map (\<lambda>x. (f x, g x)) xs"
  proof (rule bt_ext [OF kvs(2) wf])
    fix k
    have "bt_get kvs k = Some v \<longleftrightarrow> bt_get (map (\<lambda>x. (f x, g x)) xs) k = Some v" for v
      unfolding bt_get_Some [OF kvs(2)] bt_get_Some [OF wf] mem by auto
    then show "bt_get kvs k = bt_get (map (\<lambda>x. (f x, g x)) xs) k"
      by (rule option_eqI)
  qed
  with kvs(1) show ?thesis by simp
qed

lemma prefix_scan_enumerates:
  assumes "ok s" and "sorted_wrt (\<lambda>a b. f a < f b) xs"
    and "\<And>k v. get s k = Some v \<and> prefix p k \<longleftrightarrow> (\<exists>x \<in> set xs. k = f x \<and> v = g x)"
  shows "scan s p (prefix_successor p) = Inr (map (\<lambda>x. (f x, g x)) xs)"
proof (rule scan_enumerates [OF assms(1) _ assms(2)])
  show "p \<le> e" if "prefix_successor p = Some e" for e
    using prefix_successor_above [OF that] by (rule less_imp_le)
  show "get s k = Some v \<and> p \<le> k \<and> (\<forall>e. prefix_successor p = Some e \<longrightarrow> k < e) \<longleftrightarrow>
      (\<exists>x \<in> set xs. k = f x \<and> v = g x)" for k v
    unfolding assms(3) [symmetric] prefix_iff_below below_def by (auto split: option.splits)
qed

end

lemma MemoryStore_apply_Cons: "MemoryStore_apply (op # ops) st = MemoryStore_apply ops (Op_apply op st)"
  by (simp add: MemoryStore_apply_def)

lemma bt_wf_apply [simp]: "bt_wf st \<Longrightarrow> bt_wf (MemoryStore_apply ops st)"
proof (induction ops arbitrary: st)
  case (Cons op ops)
  then show ?case by (cases op) (simp_all add: MemoryStore_apply_Cons)
qed (simp add: MemoryStore_apply_def)

lemma MemoryStore_get_apply:
  "bt_wf st \<Longrightarrow> MemoryStore_get (MemoryStore_apply ops st) k = batch_value ops k (MemoryStore_get st k)"
proof (induction ops arbitrary: st)
  case (Cons op ops)
  then show ?case by (cases op) (simp_all add: MemoryStore_apply_Cons MemoryStore_get_def)
qed (simp add: MemoryStore_apply_def)

interpretation mem: ordered_store bt_wf MemoryStore_get MemoryStore_scan MemoryStore_apply
proof unfold_locales
  fix s :: MemoryStore and start :: bytes and bound :: "bytes option"
  assume s: "bt_wf s" and le: "\<And>e. bound = Some e \<Longrightarrow> start \<le> e"
  let ?kvs = "filter (\<lambda>kv. start \<le> fst kv \<and> (\<forall>e. bound = Some e \<longrightarrow> fst kv < e)) s"
  have "MemoryStore_scan s start bound = Inr ?kvs"
    using le by (auto simp: MemoryStore_scan_def split: option.splits)
  moreover have "sorted_wrt (<) (map fst ?kvs)"
    using bt_wf_filter [OF s] by (simp add: bt_wf_def)
  moreover have "\<forall>k v. (k, v) \<in> set ?kvs \<longleftrightarrow>
      MemoryStore_get s k = Some v \<and> start \<le> k \<and> (\<forall>e. bound = Some e \<longrightarrow> k < e)"
    by (simp add: MemoryStore_get_def bt_get_Some [OF s])
  ultimately show "\<exists>kvs. MemoryStore_scan s start bound = Inr kvs \<and> sorted_wrt (<) (map fst kvs) \<and>
      (\<forall>k v. (k, v) \<in> set kvs \<longleftrightarrow>
        MemoryStore_get s k = Some v \<and> start \<le> k \<and> (\<forall>e. bound = Some e \<longrightarrow> k < e))"
    by blast
qed (simp_all add: MemoryStore_get_apply)

subsection \<open>Properties\<close>

text \<open>C37: \<open>prefix_successor\<close> is the least upper bound of the byte strings that start with the
  prefix, and no bound exists exactly when it returns \<open>None\<close>; hence the half-open scan of
  \<open>scan_prefix\<close> returns exactly the entries whose key starts with the prefix, in key order, and
  never with a start above its end.\<close>

theorem prefix_scan_is_exact:
  "(case prefix_successor p of
      None \<Rightarrow> \<not> (\<exists>e. \<forall>k. prefix p k \<longrightarrow> k < e)
    | Some e \<Rightarrow> (\<forall>k. prefix p k \<longrightarrow> k < e) \<and> (\<forall>e'. (\<forall>k. prefix p k \<longrightarrow> k < e') \<longrightarrow> e \<le> e')) \<and>
   scan_prefix st p = Inr (filter (\<lambda>kv. prefix p (fst kv)) st)"
proof -
  have b: "p \<le> e" if "\<forall>k. prefix p k \<longrightarrow> k < e" for e
    using that by (metis less_imp_le prefix_order.refl)
  show ?thesis
  proof (cases "prefix_successor p")
    case None
    then show ?thesis
      using b prefix_iff_below [of p] scan_prefix_eq [of st p] by (auto simp: below_def)
  next
    case (Some e)
    then have "e \<le> e'" if "\<forall>k. prefix p k \<longrightarrow> k < e'" for e'
      using b [OF that] that prefix_iff_below [of p e'] by (auto simp: below_def not_le)
    with Some show ?thesis
      using prefix_iff_below [of p] scan_prefix_eq [of st p] by (auto simp: below_def)
  qed
qed

text \<open>The witness: the bound of the prefix \<open>[1, 255]\<close> is \<open>[2]\<close>.\<close>

theorem prefix_scan_is_exact_witness:
  "prefix_successor [1, 255] = Some [2] \<and>
   scan_prefix [([1], [7]), ([1, 255, 3], [8]), ([2], [9])] [1, 255] = Inr [([1, 255, 3], [8])]"
proof -
  have "prefix_successor [1, 255] = Some [2]"
    by (simp add: prefix_successor.simps)
  then show ?thesis
    using prefix_scan_is_exact [of "[1, 255]" "[([1], [7]), ([1, 255, 3], [8]), ([2], [9])]"] by simp
qed

end
