(* ===== verification/Schema.thy ===== *)
theory Schema
  imports Store
begin

text \<open>
  Storage keys of the server (\<open>server/src/schema.rs\<close>): every record of a space lives under the
  tuple \<open>(space, kind, \<dots>)\<close>, encoded by the order-preserving component codec.  The \<open>expect\<close>s in the
  component constructors cannot fire: every component is a non-empty array of fixed size, and the
  depth of a well-formed key is at most \<open>MAX_COMPONENTS\<close> (\<open>schema_components_valid\<close>).

  \<open>skey\<close> is the sum of all record keys of one space; \<open>skey_bytes\<close> is injective on well-formed keys,
  separates spaces, and turns every scan prefix of the server into a condition on \<open>skey\<close>s.
\<close>

datatype RecordKind =
  Data | RangeDelete | LeaseByPrefix | LeaseById | Meta | Device | PrefixMeta | AdmissionLog

fun RecordKind_u8 :: "RecordKind \<Rightarrow> u8" where
  "RecordKind_u8 Data = 0"
| "RecordKind_u8 RangeDelete = 1"
| "RecordKind_u8 LeaseByPrefix = 2"
| "RecordKind_u8 LeaseById = 3"
| "RecordKind_u8 Meta = 4"
| "RecordKind_u8 Device = 5"
| "RecordKind_u8 PrefixMeta = 6"
| "RecordKind_u8 AdmissionLog = 7"

definition kind_component :: "RecordKind \<Rightarrow> key_component" where
  "kind_component kind = [RecordKind_u8 kind]"

definition space_component :: "SpaceId \<Rightarrow> key_component" where
  "space_component space = space"

definition u64_component :: "u64 \<Rightarrow> key_component" where
  "u64_component v = u64_be v"

definition u32_component :: "u32 \<Rightarrow> key_component" where
  "u32_component v = u32_be v"

text \<open>The source asserts that the depth is at most \<open>MAX_COMPONENTS\<close>, which every key satisfies by
  construction (\<open>wf_key\<close>).\<close>

definition depth_component :: "nat \<Rightarrow> key_component" where
  "depth_component depth = u16_be (of_nat depth)"

definition root_literal :: key_component where
  "root_literal = map of_char ''root''"

definition counters_literal :: key_component where
  "counters_literal = map of_char ''counters''"

definition get_at :: "'a list \<Rightarrow> nat \<Rightarrow> 'a option" where
  "get_at xs i = (if i < length xs then Some (xs ! i) else None)"

subsection \<open>Keys\<close>

definition data_key :: "SpaceId \<Rightarrow> key \<Rightarrow> bytes" where
  "data_key space key = encode_components ([space_component space, kind_component Data] @ key)"

definition user_key_from_data :: "bytes \<Rightarrow> key option" where
  "user_key_from_data storage_key =
     Option.bind (ok_opt (decode_components storage_key)) (\<lambda>components.
       if length components < 2 then None else ok_opt (Key_new (drop 2 components)))"

definition data_scan_all :: "SpaceId \<Rightarrow> bytes" where
  "data_scan_all space = encode_components [space_component space, kind_component Data]"

definition prefix_meta_key :: "SpaceId \<Rightarrow> key_component list \<Rightarrow> bytes" where
  "prefix_meta_key space head =
     encode_components ([space_component space, kind_component PrefixMeta, depth_component (length head)] @ head)"

definition prefix_meta_scan_all :: "SpaceId \<Rightarrow> bytes" where
  "prefix_meta_scan_all space = encode_components [space_component space, kind_component PrefixMeta]"

definition root_meta_key :: "SpaceId \<Rightarrow> bytes" where
  "root_meta_key space = encode_components [space_component space, kind_component Meta, root_literal]"

definition range_delete_key :: "SpaceId \<Rightarrow> Range \<Rightarrow> bytes" where
  "range_delete_key space rng =
     encode_components ([space_component space, kind_component RangeDelete] @
       (case rng of
          Full \<Rightarrow> [depth_component 0]
        | Prefix pre \<Rightarrow> depth_component (length pre) # pre))"

definition range_delete_scan_all :: "SpaceId \<Rightarrow> bytes" where
  "range_delete_scan_all space = encode_components [space_component space, kind_component RangeDelete]"

definition range_delete_parts :: "bytes \<Rightarrow> (SpaceId \<times> Range) option" where
  "range_delete_parts storage_key =
     Option.bind (ok_opt (decode_components storage_key)) (\<lambda>components.
     Option.bind (get_at components 0) (\<lambda>space.
     if length space \<noteq> 16 then None
     else Option.bind (get_at components 1) (\<lambda>kind.
     if kind \<noteq> [RecordKind_u8 RangeDelete] then None
     else Option.bind (get_at components 2) (\<lambda>d.
     if length d \<noteq> 2 then None
     else (let depth = unat (u16_of_be d) in
       if length components \<noteq> 3 + depth then None
       else if depth = 0 then Some (space, Full)
       else map_option (\<lambda>k. (space, Prefix k)) (ok_opt (Key_new (drop 3 components))))))))"

definition covering_range_delete_keys :: "SpaceId \<Rightarrow> Range \<Rightarrow> bytes list" where
  "covering_range_delete_keys space target =
     range_delete_key space Full #
     (case target of
        Full \<Rightarrow> []
      | Prefix pre \<Rightarrow> map (\<lambda>depth. range_delete_key space (Prefix (take depth pre))) [1..<length pre + 1])"

definition ADMISSION_HEADER_COMPONENT :: u8 where "ADMISSION_HEADER_COMPONENT = 0"
definition ADMISSION_OP_COMPONENT :: u8 where "ADMISSION_OP_COMPONENT = 1"
definition ADMISSION_POINT_TARGET :: u8 where "ADMISSION_POINT_TARGET = 0"
definition ADMISSION_FULL_TARGET :: u8 where "ADMISSION_FULL_TARGET = 1"
definition ADMISSION_PREFIX_TARGET :: u8 where "ADMISSION_PREFIX_TARGET = 2"

definition admission_component :: "u8 \<Rightarrow> key_component" where
  "admission_component kind = [kind]"

definition admission_log_scan_all :: "SpaceId \<Rightarrow> bytes" where
  "admission_log_scan_all space = encode_components [space_component space, kind_component AdmissionLog]"

definition admission_header_key :: "SpaceId \<Rightarrow> AdmissionSeq \<Rightarrow> bytes" where
  "admission_header_key space seq =
     encode_components [space_component space, kind_component AdmissionLog, u64_component seq,
       admission_component ADMISSION_HEADER_COMPONENT]"

datatype AdmissionTarget = TPoint key | TRange Range

definition admission_op_key :: "SpaceId \<Rightarrow> AdmissionSeq \<Rightarrow> u32 \<Rightarrow> key \<Rightarrow> bytes" where
  "admission_op_key space seq op_index key =
     encode_components ([space_component space, kind_component AdmissionLog, u64_component seq,
       admission_component ADMISSION_OP_COMPONENT, u32_component op_index,
       admission_component ADMISSION_POINT_TARGET] @ key)"

definition admission_range_op_key :: "SpaceId \<Rightarrow> AdmissionSeq \<Rightarrow> u32 \<Rightarrow> Range \<Rightarrow> bytes" where
  "admission_range_op_key space seq op_index rng =
     encode_components ([space_component space, kind_component AdmissionLog, u64_component seq,
       admission_component ADMISSION_OP_COMPONENT, u32_component op_index] @
       (case rng of
          Full \<Rightarrow> [admission_component ADMISSION_FULL_TARGET]
        | Prefix pre \<Rightarrow> admission_component ADMISSION_PREFIX_TARGET # pre))"

definition admission_op_scan :: "SpaceId \<Rightarrow> AdmissionSeq \<Rightarrow> bytes" where
  "admission_op_scan space seq =
     encode_components [space_component space, kind_component AdmissionLog, u64_component seq,
       admission_component ADMISSION_OP_COMPONENT]"

definition admission_op_parts :: "bytes \<Rightarrow> (AdmissionSeq \<times> u32 \<times> AdmissionTarget) option" where
  "admission_op_parts storage_key =
     Option.bind (ok_opt (decode_components storage_key)) (\<lambda>components.
     Option.bind (get_at components 3) (\<lambda>kind.
     if kind \<noteq> [ADMISSION_OP_COMPONENT] then None
     else Option.bind (get_at components 2) (\<lambda>s.
     if length s \<noteq> 8 then None
     else Option.bind (get_at components 4) (\<lambda>i.
     if length i \<noteq> 4 then None
     else Option.bind (get_at components 5) (\<lambda>target_kind.
     if length target_kind \<noteq> 1 then None
     else (let suf = drop 6 components in
       map_option (\<lambda>target. (u64_of_be s, u32_of_be i, target))
         (if target_kind ! 0 = ADMISSION_POINT_TARGET then map_option TPoint (ok_opt (Key_new suf))
          else if target_kind ! 0 = ADMISSION_FULL_TARGET \<and> suf = [] then Some (TRange Full)
          else if target_kind ! 0 = ADMISSION_PREFIX_TARGET
          then map_option (\<lambda>k. TRange (Prefix k)) (ok_opt (Key_new suf))
          else None)))))))"

definition device_key :: "SpaceId \<Rightarrow> DeviceId \<Rightarrow> bytes" where
  "device_key space device = encode_components [space_component space, kind_component Device, device]"

definition lease_by_id_key :: "SpaceId \<Rightarrow> LeaseId \<Rightarrow> bytes" where
  "lease_by_id_key space lid = encode_components [space_component space, kind_component LeaseById, u64_component lid]"

definition lease_by_id_scan :: "SpaceId \<Rightarrow> bytes" where
  "lease_by_id_scan space = encode_components [space_component space, kind_component LeaseById]"

definition lease_by_prefix_key :: "SpaceId \<Rightarrow> key \<Rightarrow> LeaseId \<Rightarrow> bytes" where
  "lease_by_prefix_key space pre lid =
     encode_components ([space_component space, kind_component LeaseByPrefix, depth_component (length pre)] @
       pre @ [u64_component lid])"

definition lease_by_prefix_scan :: "SpaceId \<Rightarrow> nat \<Rightarrow> key_component list \<Rightarrow> bytes" where
  "lease_by_prefix_scan space depth head =
     encode_components ([space_component space, kind_component LeaseByPrefix, depth_component depth] @ head)"

definition lease_by_prefix_scan_all :: "SpaceId \<Rightarrow> bytes" where
  "lease_by_prefix_scan_all space = encode_components [space_component space, kind_component LeaseByPrefix]"

definition counters_key :: "SpaceId \<Rightarrow> bytes" where
  "counters_key space = encode_components [space_component space, kind_component Meta, counters_literal]"

subsection \<open>The keys of one space\<close>

datatype skey =
    KData key
  | KRangeDelete Range
  | KLeaseByPrefix key LeaseId
  | KLeaseById LeaseId
  | KRoot
  | KCounters
  | KDevice DeviceId
  | KPrefixMeta key
  | KHeader AdmissionSeq
  | KOp AdmissionSeq u32 AdmissionTarget

fun range_suffix :: "Range \<Rightarrow> key_component list" where
  "range_suffix Full = [u16_be 0]"
| "range_suffix (Prefix pre) = u16_be (of_nat (length pre)) # pre"

fun target_suffix :: "AdmissionTarget \<Rightarrow> key_component list" where
  "target_suffix (TPoint key) = [0] # key"
| "target_suffix (TRange Full) = [[1]]"
| "target_suffix (TRange (Prefix pre)) = [2] # pre"

fun skey_suffix :: "skey \<Rightarrow> key_component list" where
  "skey_suffix (KData key) = [0] # key"
| "skey_suffix (KRangeDelete rng) = [1] # range_suffix rng"
| "skey_suffix (KLeaseByPrefix pre lid) = [2] # u16_be (of_nat (length pre)) # pre @ [u64_be lid]"
| "skey_suffix (KLeaseById lid) = [[3], u64_be lid]"
| "skey_suffix KRoot = [[4], root_literal]"
| "skey_suffix KCounters = [[4], counters_literal]"
| "skey_suffix (KDevice device) = [[5], device]"
| "skey_suffix (KPrefixMeta pre) = [6] # u16_be (of_nat (length pre)) # pre"
| "skey_suffix (KHeader seq) = [[7], u64_be seq, [0]]"
| "skey_suffix (KOp seq i target) = [7] # u64_be seq # [1] # u32_be i # target_suffix target"

definition skey_bytes :: "SpaceId \<Rightarrow> skey \<Rightarrow> bytes" where
  "skey_bytes space s = encode_components (space # skey_suffix s)"

fun wf_target :: "AdmissionTarget \<Rightarrow> bool" where
  "wf_target (TPoint key) = wf_key key"
| "wf_target (TRange rng) = wf_range rng"

fun wf_skey :: "skey \<Rightarrow> bool" where
  "wf_skey (KData key) = wf_key key"
| "wf_skey (KRangeDelete rng) = wf_range rng"
| "wf_skey (KLeaseByPrefix pre lid) = wf_key pre"
| "wf_skey (KDevice device) = wf_id device"
| "wf_skey (KPrefixMeta pre) = wf_key pre"
| "wf_skey (KOp seq i target) = wf_target target"
| "wf_skey _ = True"

lemmas schema_component_defs = space_component_def kind_component_def u64_component_def u32_component_def
  depth_component_def admission_component_def ADMISSION_HEADER_COMPONENT_def ADMISSION_OP_COMPONENT_def
  ADMISSION_POINT_TARGET_def ADMISSION_FULL_TARGET_def ADMISSION_PREFIX_TARGET_def

lemma skey_bytes_eqs:
  "data_key space key = skey_bytes space (KData key)"
  "range_delete_key space rng = skey_bytes space (KRangeDelete rng)"
  "lease_by_prefix_key space pre lid = skey_bytes space (KLeaseByPrefix pre lid)"
  "lease_by_id_key space lid = skey_bytes space (KLeaseById lid)"
  "root_meta_key space = skey_bytes space KRoot"
  "counters_key space = skey_bytes space KCounters"
  "device_key space device = skey_bytes space (KDevice device)"
  "prefix_meta_key space pre = skey_bytes space (KPrefixMeta pre)"
  "admission_header_key space seq = skey_bytes space (KHeader seq)"
  "admission_op_key space seq i key = skey_bytes space (KOp seq i (TPoint key))"
  "admission_range_op_key space seq i rng = skey_bytes space (KOp seq i (TRange rng))"
  by (cases rng; simp add: skey_bytes_def schema_component_defs data_key_def range_delete_key_def
      lease_by_prefix_key_def lease_by_id_key_def root_meta_key_def counters_key_def device_key_def
      prefix_meta_key_def admission_header_key_def admission_op_key_def admission_range_op_key_def)+

lemma literals_differ [simp]: "root_literal \<noteq> counters_literal" "counters_literal \<noteq> root_literal"
  by (simp_all add: root_literal_def counters_literal_def)

lemma range_suffix_inject: "wf_range r \<Longrightarrow> wf_range r' \<Longrightarrow> range_suffix r = range_suffix r' \<longleftrightarrow> r = r'"
  by (cases r; cases r') (auto simp: wf_key_def)

lemma target_suffix_inject: "target_suffix t = target_suffix t' \<longleftrightarrow> t = t'"
  by (cases t rule: target_suffix.cases; cases t' rule: target_suffix.cases) auto

lemma skey_suffix_inject: "wf_skey s \<Longrightarrow> wf_skey s' \<Longrightarrow> skey_suffix s = skey_suffix s' \<longleftrightarrow> s = s'"
  by (cases s; cases s') (auto simp: range_suffix_inject target_suffix_inject)

lemma skey_bytes_inject:
  "wf_skey s \<Longrightarrow> wf_skey s' \<Longrightarrow> skey_bytes space s = skey_bytes space' s' \<longleftrightarrow> space = space' \<and> s = s'"
  by (simp add: skey_bytes_def skey_suffix_inject del: encode_components_Cons)

lemma schema_components_valid: "wf_id space \<Longrightarrow> wf_skey s \<Longrightarrow> list_all wf_component (space # skey_suffix s)"
proof -
  assume w: "wf_id space" "wf_skey s"
  have c: "length c \<in> {1, 2, 4, 8, 16} \<Longrightarrow> wf_component c" for c
    by (auto simp: wf_component_def key_limits)
  have "wf_component root_literal" "wf_component counters_literal"
    by (simp_all add: root_literal_def counters_literal_def wf_component_def key_limits)
  moreover have "list_all wf_component (range_suffix r)" if "wf_range r" for r
    using that by (cases r) (auto simp: wf_key_def c)
  moreover have "list_all wf_component (target_suffix t)" if "wf_target t" for t
    using that by (cases t rule: target_suffix.cases) (auto simp: wf_key_def c)
  ultimately show ?thesis
    using w by (cases s) (auto simp: c wf_id_def wf_key_def)
qed

lemma decode_skey: "wf_id space \<Longrightarrow> wf_skey s \<Longrightarrow> decode_components (skey_bytes space s) = Inr (space # skey_suffix s)"
  unfolding skey_bytes_def decode_components_iff using schema_components_valid by blast

lemma wf_key_Nil [simp]: "\<not> wf_key []"
  by (simp add: wf_key_def)

lemma Key_new_limits [simp]: "wf_key k \<Longrightarrow> length k < 65536" "wf_key k \<Longrightarrow> k \<noteq> []"
  by (auto simp: wf_key_def key_limits)

lemma unat_depth [simp]: "n < 65536 \<Longrightarrow> unat (of_nat n :: u16) = n"
  by (simp add: unat_of_nat)

lemma user_key_from_data_key: "wf_id space \<Longrightarrow> wf_key k \<Longrightarrow> user_key_from_data (data_key space k) = Some k"
  by (simp add: user_key_from_data_def skey_bytes_eqs decode_skey)

lemma range_delete_parts_key:
  "wf_id space \<Longrightarrow> wf_range r \<Longrightarrow> range_delete_parts (range_delete_key space r) = Some (space, r)"
  by (cases r) (simp_all add: range_delete_parts_def skey_bytes_eqs decode_skey get_at_def Let_def wf_id_def)

lemma admission_op_parts_key:
  "wf_id space \<Longrightarrow> wf_target t \<Longrightarrow> admission_op_parts (skey_bytes space (KOp seq i t)) = Some (seq, i, t)"
  by (cases t rule: target_suffix.cases)
    (simp_all add: admission_op_parts_def decode_skey get_at_def Let_def schema_component_defs)

subsection \<open>Scan prefixes and order\<close>

lemma prefix_skey_bytes:
  "prefix (encode_components (space # cs)) (skey_bytes space' s) \<longleftrightarrow> space = space' \<and> prefix cs (skey_suffix s)"
  by (simp add: skey_bytes_def del: encode_components_Cons)

lemma scan_prefix_eqs:
  "data_scan_all space = encode_components (space # [[0]])"
  "data_key space p = encode_components (space # [0] # p)"
  "admission_op_scan space seq = encode_components (space # [[7], u64_be seq, [1]])"
  "lease_by_id_scan space = encode_components (space # [[3]])"
  "lease_by_prefix_scan space depth head = encode_components (space # [2] # u16_be (of_nat depth) # head)"
  by (simp_all add: data_scan_all_def data_key_def admission_op_scan_def lease_by_id_scan_def
      lease_by_prefix_scan_def schema_component_defs)

lemma scan_prefixes:
  "prefix (data_scan_all space) (skey_bytes space' s) \<longleftrightarrow> space = space' \<and> (\<exists>k. s = KData k)"
  "prefix (data_key space p) (skey_bytes space' s) \<longleftrightarrow> space = space' \<and> (\<exists>k. s = KData k \<and> prefix p k)"
  "prefix (admission_op_scan space seq) (skey_bytes space' s) \<longleftrightarrow> space = space' \<and> (\<exists>i t. s = KOp seq i t)"
  "prefix (lease_by_id_scan space) (skey_bytes space' s) \<longleftrightarrow> space = space' \<and> (\<exists>lid. s = KLeaseById lid)"
  unfolding scan_prefix_eqs prefix_skey_bytes by (cases s; auto)+

lemma lease_by_prefix_scan_prefix:
  assumes "wf_skey s" "length head \<le> depth" "depth \<le> MAX_COMPONENTS"
  shows "prefix (lease_by_prefix_scan space depth head) (skey_bytes space' s) \<longleftrightarrow>
    space = space' \<and> (\<exists>pre lid. s = KLeaseByPrefix pre lid \<and> length pre = depth \<and> prefix head pre)"
proof (cases s)
  case (KLeaseByPrefix pre lid)
  have "length pre < 65536" "depth < 65536"
    using assms KLeaseByPrefix by (auto simp: key_limits)
  then have d: "(of_nat depth :: u16) = of_nat (length pre) \<longleftrightarrow> depth = length pre"
    by (metis unat_depth)
  then show ?thesis
    unfolding scan_prefix_eqs prefix_skey_bytes
    using KLeaseByPrefix assms(2) by (auto simp: prefix_append)
qed (simp_all add: scan_prefix_eqs prefix_skey_bytes del: encode_components_Cons)

lemma skey_bytes_less:
  "skey_bytes space (KData k) < skey_bytes space (KData k') \<longleftrightarrow> k < k'"
  "skey_bytes space (KLeaseById a) < skey_bytes space (KLeaseById b) \<longleftrightarrow> a < b"
  "i < j \<Longrightarrow> skey_bytes space (KOp seq i t) < skey_bytes space (KOp seq j u)"
  by (simp_all add: skey_bytes_def del: encode_components_Cons)

lemma space_prefix: "prefix (encode_components [space]) (skey_bytes space' s) \<longleftrightarrow> space = space'"
  by (simp add: skey_bytes_def del: encode_components_Cons)

lemma wf_take_Prefix: "wf_key k \<Longrightarrow> 0 < n \<Longrightarrow> wf_range (Prefix (take n k))"
  by (simp add: wf_key_take)

subsection \<open>Covering tombstone keys\<close>

definition ancestors :: "Range \<Rightarrow> Range list" where
  "ancestors target = Full # (case target of Full \<Rightarrow> [] | Prefix pre \<Rightarrow> map (\<lambda>d. Prefix (take d pre)) [1..<length pre + 1])"

lemma covering_range_delete_keys_eq:
  "covering_range_delete_keys space target = map (range_delete_key space) (ancestors target)"
  by (cases target) (simp_all add: covering_range_delete_keys_def ancestors_def)

lemma nonempty_prefix_iff_take:
  "(\<exists>d \<in> {1..<length k + 1}. p = take d k) \<longleftrightarrow> p \<noteq> [] \<and> prefix p k"
proof
  assume "p \<noteq> [] \<and> prefix p k"
  then show "\<exists>d \<in> {1..<length k + 1}. p = take d k"
    by (intro bexI [of _ "length p"]) (auto simp: prefix_def Suc_le_eq)
qed (auto simp: take_is_prefix)

lemma ancestors_iff:
  assumes "wf_range target"
  shows "r \<in> set (ancestors target) \<longleftrightarrow> wf_range r \<and> covers_range r target"
proof (cases target)
  case Full
  then show ?thesis by (cases r) (auto simp: ancestors_def)
next
  case (Prefix k)
  show ?thesis
  proof (cases r)
    case (Prefix p)
    have "r \<in> set (ancestors target) \<longleftrightarrow> (\<exists>d \<in> {1..<length k + 1}. p = take d k)"
      unfolding \<open>target = Prefix k\<close> Prefix ancestors_def by (simp add: image_iff del: upt_Suc)
    also have "\<dots> \<longleftrightarrow> wf_key p \<and> prefix p k"
      unfolding nonempty_prefix_iff_take
      using assms \<open>target = Prefix k\<close> wf_key_prefix [of k p] by auto
    finally show ?thesis
      unfolding \<open>target = Prefix k\<close> Prefix by (simp add: Key_starts_with_def)
  qed (use Prefix in \<open>simp add: ancestors_def\<close>)
qed

subsection \<open>The stored records of one space\<close>

definition keys_ok :: "SpaceId \<Rightarrow> MemoryStore \<Rightarrow> bool" where
  "keys_ok space st \<longleftrightarrow> (\<forall>k v. MemoryStore_get st k = Some v \<and> prefix (encode_components [space]) k \<longrightarrow>
     (\<exists>s. wf_skey s \<and> k = skey_bytes space s))"

definition sget :: "SpaceId \<Rightarrow> MemoryStore \<Rightarrow> skey \<Rightarrow> bytes option" where
  "sget space st s = MemoryStore_get st (skey_bytes space s)"

lemma scan_prefix_member:
  assumes "bt_wf st" "keys_ok space st" "prefix (encode_components [space]) p" "scan_prefix st p = Inr kvs"
  shows "(k, v) \<in> set kvs \<longleftrightarrow> (\<exists>s. wf_skey s \<and> k = skey_bytes space s \<and> prefix p k \<and> sget space st s = Some v)"
proof -
  have "(k, v) \<in> set kvs \<longleftrightarrow> MemoryStore_get st k = Some v \<and> prefix p k"
    using assms(4) by (auto simp: scan_prefix_eq MemoryStore_get_def bt_get_Some [OF assms(1)])
  also have "\<dots> \<longleftrightarrow> (\<exists>s. wf_skey s \<and> k = skey_bytes space s \<and> prefix p k \<and> sget space st s = Some v)"
    using assms(2,3) unfolding keys_ok_def sget_def by (auto dest: prefix_order.trans)
  finally show ?thesis .
qed

text \<open>A batch addresses the well-formed keys \<open>K\<close> of one space; everything else keeps its value.\<close>

definition batch_within :: "SpaceId \<Rightarrow> skey set \<Rightarrow> WriteBatch \<Rightarrow> bool" where
  "batch_within space K ops \<longleftrightarrow> (\<forall>op \<in> set ops. \<exists>s \<in> K. wf_skey s \<and> op_key op = skey_bytes space s)"

lemma batch_within_simps [simp]:
  "batch_within space K []"
  "batch_within space K (op # ops) \<longleftrightarrow> (\<exists>s \<in> K. wf_skey s \<and> op_key op = skey_bytes space s) \<and> batch_within space K ops"
  "batch_within space K (ops @ ops') \<longleftrightarrow> batch_within space K ops \<and> batch_within space K ops'"
  by (auto simp: batch_within_def)

lemma within_key: "s \<in> K \<Longrightarrow> wf_skey s \<Longrightarrow> \<exists>t \<in> K. wf_skey t \<and> skey_bytes space s = skey_bytes space t"
  by blast

lemma batch_within_mono: "batch_within space K ops \<Longrightarrow> K \<subseteq> K' \<Longrightarrow> batch_within space K' ops"
  unfolding batch_within_def by blast

lemma sget_apply: "bt_wf st \<Longrightarrow> sget space (MemoryStore_apply ops st) s = batch_value ops (skey_bytes space s) (sget space st s)"
  by (simp add: sget_def MemoryStore_get_apply)

lemma sget_frame:
  assumes "bt_wf st" "batch_within space K ops" "wf_skey s" "s \<notin> K \<or> space' \<noteq> space"
  shows "sget space' (MemoryStore_apply ops st) s = sget space' st s"
proof -
  have "skey_bytes space' s \<notin> op_key ` set ops"
  proof
    assume "skey_bytes space' s \<in> op_key ` set ops"
    then obtain op where "op \<in> set ops" "skey_bytes space' s = op_key op" by blast
    with assms(2) obtain t where "t \<in> K" "wf_skey t" "skey_bytes space' s = skey_bytes space t"
      unfolding batch_within_def by metis
    with assms(3,4) show False by (auto simp: skey_bytes_inject)
  qed
  then show ?thesis by (simp add: sget_apply assms(1))
qed

lemma keys_ok_apply:
  assumes "bt_wf st" "keys_ok space' st" "batch_within space K ops"
  shows "keys_ok space' (MemoryStore_apply ops st)"
  unfolding keys_ok_def
proof (intro allI impI)
  fix k v
  assume k: "MemoryStore_get (MemoryStore_apply ops st) k = Some v \<and> prefix (encode_components [space']) k"
  show "\<exists>s. wf_skey s \<and> k = skey_bytes space' s"
  proof (cases "k \<in> op_key ` set ops")
    case True
    then obtain op where "op \<in> set ops" "k = op_key op" by blast
    with assms(3) obtain s where s: "wf_skey s" "k = skey_bytes space s" unfolding batch_within_def by metis
    with k have "space' = space" by (simp only: space_prefix)
    with s show ?thesis by blast
  next
    case False
    with k assms(1,2) show ?thesis unfolding keys_ok_def by (simp add: MemoryStore_get_apply)
  qed
qed

lemma MemoryStore_apply_append: "MemoryStore_apply (a @ b) st = MemoryStore_apply b (MemoryStore_apply a st)"
  by (simp add: MemoryStore_apply_def)

subsection \<open>Properties\<close>

text \<open>C38: storage keys are unambiguous: for any arguments, a key of one of the eleven kinds of record never
  equals a key of another kind or of another space, and within a kind equal keys have equal
  arguments.  The key parsers recover exactly what the key constructors encoded, and the keys read
  to find a covering tombstone are exactly those of the ranges covering the target.\<close>

theorem storage_keys_are_unambiguous:
  assumes "wf_key k" "wf_key k'" "wf_range r" "wf_range r'" "wf_key p" "wf_key p'" "wf_id d" "wf_id d'" "wf_id space"
    and "keys = (\<lambda>space k r p d l seq i. [data_key space k, range_delete_key space r, lease_by_prefix_key space p l, lease_by_id_key space l,
      root_meta_key space, counters_key space, device_key space d, prefix_meta_key space p, admission_header_key space seq,
      admission_op_key space seq i k, admission_range_op_key space seq i r])"
  shows "(\<forall>m n. m < 11 \<and> n < 11 \<and> keys space k r p d l seq i ! m = keys space' k' r' p' d' l' seq' i' ! n \<longrightarrow> m = n \<and> space = space') \<and>
    (data_key space k = data_key space k' \<longrightarrow> k = k') \<and> (range_delete_key space r = range_delete_key space r' \<longrightarrow> r = r') \<and>
    (lease_by_prefix_key space p l = lease_by_prefix_key space p' l' \<longrightarrow> p = p' \<and> l = l') \<and>
    (lease_by_id_key space l = lease_by_id_key space l' \<longrightarrow> l = l') \<and> (device_key space d = device_key space d' \<longrightarrow> d = d') \<and>
    (prefix_meta_key space p = prefix_meta_key space p' \<longrightarrow> p = p') \<and>
    (admission_header_key space seq = admission_header_key space seq' \<longrightarrow> seq = seq') \<and>
    (admission_op_key space seq i k = admission_op_key space seq' i' k' \<longrightarrow> seq = seq' \<and> i = i' \<and> k = k') \<and>
    (admission_range_op_key space seq i r = admission_range_op_key space seq' i' r' \<longrightarrow> seq = seq' \<and> i = i' \<and> r = r') \<and>
    user_key_from_data (data_key space k) = Some k \<and>
    range_delete_parts (range_delete_key space r) = Some (space, r) \<and>
    admission_op_parts (admission_op_key space seq i k) = Some (seq, i, TPoint k) \<and>
    admission_op_parts (admission_range_op_key space seq i r) = Some (seq, i, TRange r) \<and>
    set (covering_range_delete_keys space r) = range_delete_key space ` {a. wf_range a \<and> covers_range a r}"
proof (intro conjI allI impI)
  fix m n
  assume a: "m < 11 \<and> n < 11 \<and> keys space k r p d l seq i ! m = keys space' k' r' p' d' l' seq' i' ! n"
  define ids where "ids = (\<lambda>k r p d l seq i. [KData k, KRangeDelete r, KLeaseByPrefix p l, KLeaseById l, KRoot, KCounters, KDevice d,
    KPrefixMeta p, KHeader seq, KOp seq i (TPoint k), KOp seq i (TRange r)])"
  have keys: "keys space k r p d l seq i = map (skey_bytes space) (ids k r p d l seq i)" for space k r p d l seq i
    by (simp add: assms(10) ids_def skey_bytes_eqs)
  have wf: "list_all wf_skey (ids k r p d l seq i)" "list_all wf_skey (ids k' r' p' d' l' seq' i')"
    using assms(1-8) by (simp_all add: ids_def)
  have len: "length (ids k r p d l seq i) = 11" for k r p d l seq i by (simp add: ids_def)
  have mn: "m < 11" "n < 11" using a by simp_all
  have "skey_bytes space (ids k r p d l seq i ! m) = skey_bytes space' (ids k' r' p' d' l' seq' i' ! n)"
    using a mn by (simp add: keys len)
  moreover have "wf_skey (ids k r p d l seq i ! m)" "wf_skey (ids k' r' p' d' l' seq' i' ! n)"
    using wf mn by (simp_all add: list_all_length len)
  ultimately have "space = space' \<and> ids k r p d l seq i ! m = ids k' r' p' d' l' seq' i' ! n"
    by (simp add: skey_bytes_inject)
  moreover have "m \<in> {0..<11}" "n \<in> {0..<11}" using a by simp_all
  ultimately show "m = n" "space = space'"
    by (auto simp: ids_def eval_nat_numeral nth_Cons less_Suc_eq split: nat.splits)
qed (use assms(1-9) ancestors_iff [OF assms(3)] in
  \<open>auto simp: skey_bytes_eqs skey_bytes_inject covering_range_delete_keys_eq
    user_key_from_data_key [unfolded skey_bytes_eqs] range_delete_parts_key [unfolded skey_bytes_eqs] admission_op_parts_key [unfolded skey_bytes_eqs]\<close>)

text \<open>The witness: the keys of a lease and of a device of one space, and a two-component range.\<close>

theorem storage_keys_are_unambiguous_witness:
  "lease_by_id_key (replicate 16 1) 3 \<noteq> device_key (replicate 16 1) (replicate 16 2) \<and>
   user_key_from_data (data_key (replicate 16 1) [[2]]) = Some [[2]] \<and>
   range_delete_parts (range_delete_key (replicate 16 1) (Prefix [[2], [0]])) =
     Some (replicate 16 1, Prefix [[2], [0]])"
proof -
  have w: "wf_id (replicate 16 1)" "wf_id (replicate 16 2)" "wf_key [[2]]" "wf_range (Prefix [[2], [0]])"
    by (simp_all add: wf_id_def wf_key_def wf_component_def key_limits)
  note U = storage_keys_are_unambiguous [OF w(3,3,4,4,3,3,2,2,1) refl, where l = 3 and space' = "replicate 16 1"]
  have "lease_by_id_key (replicate 16 1) 3 \<noteq> device_key (replicate 16 1) (replicate 16 2)"
    using U [THEN conjunct1, THEN spec, THEN spec, of 3 6] by simp
  with U show ?thesis by blast
qed

end
