(* ===== verification/Records.thy ===== *)
theory Records
  imports Schema
begin

text \<open>
  Record values of the server (\<open>server/src/schema.rs\<close>): versioned byte codecs of the admission
  header, leases, counters, point data, range tombstones, prefix aggregates and device state, and
  the two-device history \<open>HistoricalHeads\<close>.

  \<open>record_codec\<close> is the contract of a codec with a validity predicate; every record type interprets
  it, and the server's \<open>expect\<close> on a stored record is discharged through it.  \<open>heads_repr\<close> says what
  the two heads mean: they are the two greatest per-device maxima, which is exactly what is needed
  to answer \<open>max_excluding\<close> for any device.
\<close>

definition LEASE_RECORD_VERSION :: u8 where "LEASE_RECORD_VERSION = 2"
definition COUNTERS_RECORD_VERSION :: u8 where "COUNTERS_RECORD_VERSION = 1"
definition DATA_RECORD_VERSION :: u8 where "DATA_RECORD_VERSION = 1"
definition DEVICE_RECORD_VERSION :: u8 where "DEVICE_RECORD_VERSION = 1"
definition PREFIX_META_RECORD_VERSION :: u8 where "PREFIX_META_RECORD_VERSION = 1"
definition ADMISSION_HEADER_RECORD_VERSION :: u8 where "ADMISSION_HEADER_RECORD_VERSION = 1"
definition RANGE_DELETE_RECORD_VERSION :: u8 where "RANGE_DELETE_RECORD_VERSION = 1"

lemmas record_versions = LEASE_RECORD_VERSION_def COUNTERS_RECORD_VERSION_def DATA_RECORD_VERSION_def
  DEVICE_RECORD_VERSION_def PREFIX_META_RECORD_VERSION_def ADMISSION_HEADER_RECORD_VERSION_def
  RANGE_DELETE_RECORD_VERSION_def

subsection \<open>Admission headers\<close>

record AdmissionHeaderRecord =
  ah_device :: DeviceId
  ah_device_seq :: DeviceSeq
  ah_checksum :: DeviceChecksum
  ah_operation_count :: u32

definition AdmissionHeaderRecord_encode :: "AdmissionHeaderRecord \<Rightarrow> bytes" where
  "AdmissionHeaderRecord_encode h =
     [ADMISSION_HEADER_RECORD_VERSION] @ ah_device h @ u64_be (ah_device_seq h) @ ah_checksum h @
     u32_be (ah_operation_count h)"

definition AdmissionHeaderRecord_decode :: "bytes \<Rightarrow> AdmissionHeaderRecord option" where
  "AdmissionHeaderRecord_decode bs =
     reading Reader_u8 (\<lambda>v. if v \<noteq> ADMISSION_HEADER_RECORD_VERSION then (\<lambda>_. None) else
     reading Reader_bytes16 (\<lambda>device.
     reading Reader_u64 (\<lambda>device_seq.
     reading (Reader_take 32) (\<lambda>checksum.
     reading Reader_u32 (\<lambda>operation_count r.
       if Reader_rest r = []
       then Some \<lparr>ah_device = device, ah_device_seq = device_seq, ah_checksum = checksum,
              ah_operation_count = operation_count\<rparr>
       else None))))) (Reader_new bs)"

subsection \<open>Leases\<close>

record LeaseRecord =
  lr_id :: LeaseId
  lr_prefix :: key
  lr_mode :: LeaseMode
  lr_device :: DeviceId
  lr_requested_at :: HybridTimestamp
  lr_granted_at :: Timestamp
  lr_barrier :: AdmissionSeq
  lr_deadline :: Timestamp
  lr_ttl :: Duration

definition is_live :: "LeaseRecord \<Rightarrow> Timestamp \<Rightarrow> bool" where
  "is_live rec now \<longleftrightarrow> now < lr_deadline rec"

definition LeaseRecord_encode :: "LeaseRecord \<Rightarrow> bytes" where
  "LeaseRecord_encode rec =
     [LEASE_RECORD_VERSION] @ u64_be (lr_id rec) @
     [case lr_mode rec of Read \<Rightarrow> 0 | Write \<Rightarrow> 1] @
     lr_device rec @ u64_be (wall (lr_requested_at rec)) @ u64_be (mono (lr_requested_at rec)) @
     lineage (lr_requested_at rec) @ u64_be (lr_granted_at rec) @ u64_be (lr_barrier rec) @
     u64_be (lr_deadline rec) @ u64_be (millis_u64 (lr_ttl rec)) @ Key_encode (lr_prefix rec)"

definition LeaseRecord_decode :: "bytes \<Rightarrow> LeaseRecord option" where
  "LeaseRecord_decode bs =
     reading Reader_u8 (\<lambda>v. if v \<noteq> LEASE_RECORD_VERSION then (\<lambda>_. None) else
     reading Reader_u64 (\<lambda>id.
     reading Reader_u8 (\<lambda>m. if m \<noteq> 0 \<and> m \<noteq> 1 then (\<lambda>_. None) else
     reading Reader_bytes16 (\<lambda>device.
     reading Reader_u64 (\<lambda>w.
     reading Reader_u64 (\<lambda>mo.
     reading Reader_bytes16 (\<lambda>lin.
     reading Reader_u64 (\<lambda>granted_at.
     reading Reader_u64 (\<lambda>barrier.
     reading Reader_u64 (\<lambda>deadline.
     reading Reader_u64 (\<lambda>ttl r.
       case ok_opt (Key_decode (Reader_rest r)) of
         None \<Rightarrow> None
       | Some pre \<Rightarrow> Some \<lparr>lr_id = id, lr_prefix = pre, lr_mode = (if m = 0 then Read else Write),
           lr_device = device, lr_requested_at = \<lparr>wall = w, mono = mo, lineage = lin\<rparr>,
           lr_granted_at = granted_at, lr_barrier = barrier, lr_deadline = deadline,
           lr_ttl = from_millis ttl\<rparr>))))))))))) (Reader_new bs)"

subsection \<open>Counters and device state\<close>

record CountersRecord =
  next_lease_id :: u64
  admission_high_water :: u64

definition CountersRecord_default :: CountersRecord where
  "CountersRecord_default = \<lparr>next_lease_id = 0, admission_high_water = 0\<rparr>"

definition CountersRecord_encode :: "CountersRecord \<Rightarrow> bytes" where
  "CountersRecord_encode c =
     [COUNTERS_RECORD_VERSION] @ u64_be (next_lease_id c) @ u64_be (admission_high_water c)"

definition CountersRecord_decode :: "bytes \<Rightarrow> CountersRecord option" where
  "CountersRecord_decode bs =
     reading Reader_u8 (\<lambda>v. if v \<noteq> COUNTERS_RECORD_VERSION then (\<lambda>_. None) else
     reading Reader_u64 (\<lambda>next.
     reading Reader_u64 (\<lambda>high _.
       Some \<lparr>next_lease_id = next, admission_high_water = high\<rparr>))) (Reader_new bs)"

record DeviceRecord =
  dr_last_seq :: DeviceSeq
  dr_checksum :: DeviceChecksum

definition DeviceRecord_encode :: "DeviceRecord \<Rightarrow> bytes" where
  "DeviceRecord_encode d = [DEVICE_RECORD_VERSION] @ u64_be (dr_last_seq d) @ dr_checksum d"

definition DeviceRecord_decode :: "bytes \<Rightarrow> DeviceRecord option" where
  "DeviceRecord_decode bs =
     reading Reader_u8 (\<lambda>v. if v \<noteq> DEVICE_RECORD_VERSION then (\<lambda>_. None) else
     reading Reader_u64 (\<lambda>last_seq.
     reading (Reader_take 32) (\<lambda>checksum _.
       Some \<lparr>dr_last_seq = last_seq, dr_checksum = checksum\<rparr>))) (Reader_new bs)"

subsection \<open>Point data\<close>

type_synonym DataRecord = admitted

definition DataRecord_encode :: "DataRecord \<Rightarrow> Error + bytes" where
  "DataRecord_encode e =
     (let tag = de_tag (ae_device_entry e); seal = Seal_encode (de_seal (ae_device_entry e));
          head = [DATA_RECORD_VERSION] @ dt_device tag @ u64_be (dt_device_seq tag) @ u64_be (dt_ver tag) @
            u64_be (dt_cipher_epoch tag) @ u64_be (at_admission_seq (ae_admission e)) @
            u32_be (at_op_index (ae_admission e)) @ u32_be (of_nat (length seal)) @ seal
      in case mutation_of e of
           Delete _ \<Rightarrow> Inr (head @ [0])
         | Set _ v \<Rightarrow> Inr (head @ [1] @ v)
         | DeleteRange _ \<Rightarrow> Inl (Panic ''DeleteRange cannot be stored as point data''))"

definition DataRecord_decode :: "key \<Rightarrow> bytes \<Rightarrow> DataRecord option" where
  "DataRecord_decode key bs =
     reading Reader_u8 (\<lambda>v. if v \<noteq> DATA_RECORD_VERSION then (\<lambda>_. None) else
     reading Reader_bytes16 (\<lambda>device.
     reading Reader_u64 (\<lambda>device_seq.
     reading Reader_u64 (\<lambda>ver.
     reading Reader_u64 (\<lambda>cipher_epoch.
     reading Reader_u64 (\<lambda>admission_seq.
     reading Reader_u32 (\<lambda>op_index.
     reading Reader_u32 (\<lambda>seal_len.
     reading (Reader_take (unat seal_len)) (\<lambda>sb. case ok_opt (Seal_decode sb) of None \<Rightarrow> (\<lambda>_. None) | Some seal \<Rightarrow>
     reading Reader_u8 (\<lambda>m r.
       map_option (\<lambda>mutation.
           \<lparr>ae_device_entry = \<lparr>de_mutation = mutation,
              de_tag = \<lparr>dt_device = device, dt_device_seq = device_seq, dt_ver = ver, dt_cipher_epoch = cipher_epoch\<rparr>,
              de_seal = seal\<rparr>,
            ae_admission = \<lparr>at_admission_seq = admission_seq, at_op_index = op_index\<rparr>\<rparr>)
         (if m = 0 then Some (Delete key)
          else if m = 1 then Some (Set key (Reader_rest r))
          else None)))))))))) ) (Reader_new bs)"

subsection \<open>Two-device history\<close>

record DeviceAdmission =
  da_device :: DeviceId
  da_admission_seq :: AdmissionSeq

definition DeviceAdmission_EMPTY :: DeviceAdmission where
  "DeviceAdmission_EMPTY = \<lparr>da_device = replicate 16 0, da_admission_seq = 0\<rparr>"

record HistoricalHeads =
  first :: DeviceAdmission
  second :: DeviceAdmission

definition HistoricalHeads_empty :: HistoricalHeads where
  "HistoricalHeads_empty = \<lparr>first = DeviceAdmission_EMPTY, second = DeviceAdmission_EMPTY\<rparr>"

definition HistoricalHeads_max_admission_seq :: "HistoricalHeads \<Rightarrow> AdmissionSeq" where
  "HistoricalHeads_max_admission_seq h = max (da_admission_seq (first h)) (da_admission_seq (second h))"

definition HistoricalHeads_max_excluding :: "HistoricalHeads \<Rightarrow> DeviceId \<Rightarrow> AdmissionSeq" where
  "HistoricalHeads_max_excluding h device =
     (if da_device (first h) \<noteq> device then da_admission_seq (first h) else da_admission_seq (second h))"

definition HistoricalHeads_observe :: "DeviceId \<Rightarrow> AdmissionSeq \<Rightarrow> HistoricalHeads \<Rightarrow> HistoricalHeads" where
  "HistoricalHeads_observe device seq h =
     (let observed = \<lparr>da_device = device, da_admission_seq = seq\<rparr>;
          h = (if da_admission_seq (first h) = 0 then h\<lparr>first := observed\<rparr>
               else if da_device (first h) = device
               then h\<lparr>first := (first h)\<lparr>da_admission_seq := max (da_admission_seq (first h)) seq\<rparr>\<rparr>
               else if da_admission_seq (second h) = 0 then h\<lparr>second := observed\<rparr>
               else if da_device (second h) = device
               then h\<lparr>second := (second h)\<lparr>da_admission_seq := max (da_admission_seq (second h)) seq\<rparr>\<rparr>
               else if seq > da_admission_seq (second h) then h\<lparr>second := observed\<rparr>
               else h)
      in if da_admission_seq (second h) > da_admission_seq (first h)
         then \<lparr>first = second h, second = first h\<rparr> else h)"

definition HistoricalHeads_merge :: "HistoricalHeads \<Rightarrow> HistoricalHeads \<Rightarrow> HistoricalHeads" where
  "HistoricalHeads_merge other h =
     fold (\<lambda>head h. if da_admission_seq head \<noteq> 0
                    then HistoricalHeads_observe (da_device head) (da_admission_seq head) h else h)
       [first other, second other] h"

definition HistoricalHeads_encode :: "HistoricalHeads \<Rightarrow> bytes" where
  "HistoricalHeads_encode h =
     da_device (first h) @ u64_be (da_admission_seq (first h)) @
     da_device (second h) @ u64_be (da_admission_seq (second h))"

definition HistoricalHeads_decode :: "(HistoricalHeads \<Rightarrow> Reader \<Rightarrow> 'b option) \<Rightarrow> Reader \<Rightarrow> 'b option" where
  "HistoricalHeads_decode k =
     reading Reader_bytes16 (\<lambda>d1.
     reading Reader_u64 (\<lambda>s1.
     reading Reader_bytes16 (\<lambda>d2.
     reading Reader_u64 (\<lambda>s2.
       let heads = \<lparr>first = \<lparr>da_device = d1, da_admission_seq = s1\<rparr>, second = \<lparr>da_device = d2, da_admission_seq = s2\<rparr>\<rparr>;
           ordered = (s1 \<ge> s2);
           distinct_devices = (s2 = 0 \<or> d1 \<noteq> d2);
           no_second_without_first = (s1 \<noteq> 0 \<or> s2 = 0)
       in if ordered \<and> distinct_devices \<and> no_second_without_first then k heads else (\<lambda>_. None)))))"

subsection \<open>Range tombstones\<close>

record RangeDeleteRecord =
  rd_entry :: admitted
  rd_history :: HistoricalHeads
  rd_max_ver :: Ver

definition RangeDeleteRecord_new :: "admitted \<Rightarrow> Error + RangeDeleteRecord" where
  "RangeDeleteRecord_new e =
     (if \<not> is_delete_range (mutation_of e) then Inl (Panic ''range tombstone record requires DeleteRange'')
      else Inr \<lparr>rd_entry = e,
        rd_history = HistoricalHeads_observe (device_of e) (seq_of e) HistoricalHeads_empty,
        rd_max_ver = AdmittedEntry_ver e\<rparr>)"

definition RangeDeleteRecord_observe :: "admitted \<Rightarrow> RangeDeleteRecord \<Rightarrow> Error + RangeDeleteRecord" where
  "RangeDeleteRecord_observe e rec =
     (if mutation_range (mutation_of (rd_entry rec)) \<noteq> mutation_range (mutation_of e)
      then Inl (Panic ''range history target changed'')
      else Inr (rec\<lparr>rd_history := HistoricalHeads_observe (device_of e) (seq_of e) (rd_history rec),
        rd_max_ver := max (rd_max_ver rec) (AdmittedEntry_ver e),
        rd_entry := (if order_of e > order_of (rd_entry rec) then e else rd_entry rec)\<rparr>))"

definition RangeDeleteRecord_encode :: "RangeDeleteRecord \<Rightarrow> Error + bytes" where
  "RangeDeleteRecord_encode rec =
     (if \<not> is_delete_range (mutation_of (rd_entry rec))
      then Inl (Panic ''range tombstone record requires DeleteRange'')
      else (let e = rd_entry rec; tag = de_tag (ae_device_entry e); seal = Seal_encode (de_seal (ae_device_entry e))
        in Inr ([RANGE_DELETE_RECORD_VERSION] @ dt_device tag @ u64_be (dt_device_seq tag) @ u64_be (dt_ver tag) @
          u64_be (dt_cipher_epoch tag) @ u64_be (at_admission_seq (ae_admission e)) @
          u32_be (at_op_index (ae_admission e)) @ HistoricalHeads_encode (rd_history rec) @
          u64_be (rd_max_ver rec) @ u32_be (of_nat (length seal)) @ seal)))"

definition RangeDeleteRecord_decode :: "Range \<Rightarrow> bytes \<Rightarrow> RangeDeleteRecord option" where
  "RangeDeleteRecord_decode rng bs =
     reading Reader_u8 (\<lambda>v. if v \<noteq> RANGE_DELETE_RECORD_VERSION then (\<lambda>_. None) else
     reading Reader_bytes16 (\<lambda>device.
     reading Reader_u64 (\<lambda>device_seq.
     reading Reader_u64 (\<lambda>ver.
     reading Reader_u64 (\<lambda>cipher_epoch.
     reading Reader_u64 (\<lambda>admission_seq.
     reading Reader_u32 (\<lambda>op_index.
     HistoricalHeads_decode (\<lambda>history.
     reading Reader_u64 (\<lambda>max_ver.
     reading Reader_u32 (\<lambda>seal_len.
     reading (Reader_take (unat seal_len)) (\<lambda>sb r. case ok_opt (Seal_decode sb) of None \<Rightarrow> None | Some seal \<Rightarrow>
       let current_in_history =
             list_ex (\<lambda>head. da_device head = device \<and> da_admission_seq head = admission_seq)
               [first history, second history]
       in if Reader_rest r \<noteq> [] then None
          else if \<not> current_in_history \<or> HistoricalHeads_max_admission_seq history \<noteq> admission_seq \<or> max_ver < ver
          then None
          else Some \<lparr>rd_entry = \<lparr>ae_device_entry = \<lparr>de_mutation = DeleteRange rng,
              de_tag = \<lparr>dt_device = device, dt_device_seq = device_seq, dt_ver = ver, dt_cipher_epoch = cipher_epoch\<rparr>,
              de_seal = seal\<rparr>,
            ae_admission = \<lparr>at_admission_seq = admission_seq, at_op_index = op_index\<rparr>\<rparr>,
            rd_history = history, rd_max_ver = max_ver\<rparr>))))))))))) (Reader_new bs)"

subsection \<open>Prefix aggregates\<close>

record PrefixMetaRecord =
  pm_history :: HistoricalHeads
  pm_max_ver :: Ver
  pm_live_count :: u64
  pm_count_epoch :: AdmissionOrder

definition PrefixMetaRecord_empty :: PrefixMetaRecord where
  "PrefixMetaRecord_empty =
     \<lparr>pm_history = HistoricalHeads_empty, pm_max_ver = 0, pm_live_count = 0, pm_count_epoch = AdmissionOrder 0 0\<rparr>"

definition observe_history :: "DeviceId \<Rightarrow> AdmissionSeq \<Rightarrow> Ver \<Rightarrow> PrefixMetaRecord \<Rightarrow> PrefixMetaRecord" where
  "observe_history device seq ver rec =
     rec\<lparr>pm_history := HistoricalHeads_observe device seq (pm_history rec), pm_max_ver := max (pm_max_ver rec) ver\<rparr>"

definition materialize_count_at :: "AdmissionOrder \<Rightarrow> PrefixMetaRecord \<Rightarrow> PrefixMetaRecord" where
  "materialize_count_at epoch rec = rec\<lparr>pm_count_epoch := max (pm_count_epoch rec) epoch\<rparr>"

definition PrefixMetaRecord_observe ::
  "DeviceId \<Rightarrow> AdmissionSeq \<Rightarrow> Ver \<Rightarrow> AdmissionOrder \<Rightarrow> PrefixMetaRecord \<Rightarrow> PrefixMetaRecord" where
  "PrefixMetaRecord_observe device seq ver epoch rec =
     materialize_count_at epoch (observe_history device seq ver rec)"

definition PrefixMetaRecord_encode :: "PrefixMetaRecord \<Rightarrow> bytes" where
  "PrefixMetaRecord_encode rec =
     [PREFIX_META_RECORD_VERSION] @ HistoricalHeads_encode (pm_history rec) @ u64_be (pm_max_ver rec) @
     u64_be (pm_live_count rec) @ u64_be (ao_admission_seq (pm_count_epoch rec)) @
     u32_be (ao_op_index (pm_count_epoch rec))"

definition PrefixMetaRecord_decode :: "bytes \<Rightarrow> PrefixMetaRecord option" where
  "PrefixMetaRecord_decode bs =
     reading Reader_u8 (\<lambda>v. if v \<noteq> PREFIX_META_RECORD_VERSION then (\<lambda>_. None) else
     HistoricalHeads_decode (\<lambda>history.
     reading Reader_u64 (\<lambda>max_ver.
     reading Reader_u64 (\<lambda>live_count.
     reading Reader_u64 (\<lambda>seq.
     reading Reader_u32 (\<lambda>op_index r.
       if Reader_rest r = []
       then Some \<lparr>pm_history = history, pm_max_ver = max_ver, pm_live_count = live_count,
              pm_count_epoch = AdmissionOrder seq op_index\<rparr>
       else None)))))) (Reader_new bs)"

subsection \<open>The codec contract\<close>

definition read_with :: "(bytes \<Rightarrow> 'a option) \<Rightarrow> string \<Rightarrow> bytes option \<Rightarrow> Error + 'a option" where
  "read_with decode msg stored =
     (case stored of None \<Rightarrow> Inr None | Some bs \<Rightarrow> rbind (ok_or (Panic msg) (decode bs)) (\<lambda>rec. Inr (Some rec)))"

locale record_codec =
  fixes valid :: "'a \<Rightarrow> bool" and encode :: "'a \<Rightarrow> bytes" and decode :: "bytes \<Rightarrow> 'a option"
  assumes decode_encode: "valid x \<Longrightarrow> decode (encode x) = Some x"
begin

lemma encode_inject: "valid x \<Longrightarrow> valid y \<Longrightarrow> encode x = encode y \<longleftrightarrow> x = y"
  by (metis decode_encode option.inject)

lemma read_back: "pred_option valid stored \<Longrightarrow> read_with decode msg (map_option encode stored) = Inr stored"
  by (cases stored) (simp_all add: read_with_def decode_encode)

end

definition valid_header :: "AdmissionHeaderRecord \<Rightarrow> bool" where
  "valid_header h \<longleftrightarrow> wf_id (ah_device h) \<and> wf_checksum (ah_checksum h)"

interpretation header: record_codec valid_header AdmissionHeaderRecord_encode AdmissionHeaderRecord_decode
  by unfold_locales (simp add: AdmissionHeaderRecord_encode_def AdmissionHeaderRecord_decode_def valid_header_def
      wf_id_def wf_checksum_def Reader_new_at codec_simps)

definition valid_lease :: "LeaseRecord \<Rightarrow> bool" where
  "valid_lease rec \<longleftrightarrow> wf_key (lr_prefix rec) \<and> wf_id (lr_device rec) \<and> wf_stamp (lr_requested_at rec) \<and>
     from_millis (millis_u64 (lr_ttl rec)) = lr_ttl rec"

lemma Key_decode_encode_ok: "wf_key k \<Longrightarrow> Key_decode (Key_encode k) = Inr k"
  by (simp add: Key_decode_Inr_iff)

interpretation lease: record_codec valid_lease LeaseRecord_encode LeaseRecord_decode
  by unfold_locales (auto simp: LeaseRecord_encode_def LeaseRecord_decode_def valid_lease_def
      wf_id_def wf_stamp_def Reader_new_at codec_simps Key_decode_encode_ok split: LeaseMode.splits)

interpretation counters: record_codec "\<lambda>_. True" CountersRecord_encode CountersRecord_decode
  by unfold_locales (simp add: CountersRecord_encode_def CountersRecord_decode_def Reader_new_at codec_simps)

definition valid_device :: "DeviceRecord \<Rightarrow> bool" where
  "valid_device d \<longleftrightarrow> wf_checksum (dr_checksum d)"

interpretation device: record_codec valid_device DeviceRecord_encode DeviceRecord_decode
  by unfold_locales (simp add: DeviceRecord_encode_def DeviceRecord_decode_def valid_device_def
      wf_checksum_def Reader_new_at codec_simps)

definition valid_heads :: "HistoricalHeads \<Rightarrow> bool" where
  "valid_heads h \<longleftrightarrow> wf_id (da_device (first h)) \<and> wf_id (da_device (second h)) \<and>
     da_admission_seq (second h) \<le> da_admission_seq (first h) \<and>
     (da_admission_seq (second h) = 0 \<or> da_device (first h) \<noteq> da_device (second h))"

lemma heads_cases:
  obtains d1 s1 d2 s2 where "h = \<lparr>first = \<lparr>da_device = d1, da_admission_seq = s1\<rparr>,
    second = \<lparr>da_device = d2, da_admission_seq = s2\<rparr>\<rparr>"
  by (metis DeviceAdmission.cases HistoricalHeads.cases)

lemma HistoricalHeads_decode_at [codec_simps]:
  "valid_heads h \<Longrightarrow> HistoricalHeads_decode k (reader_at pre (HistoricalHeads_encode h @ xs)) =
    k h (reader_at (pre @ HistoricalHeads_encode h) xs)"
  by (cases h rule: heads_cases) (auto simp: HistoricalHeads_decode_def HistoricalHeads_encode_def valid_heads_def
      wf_id_def codec_simps Let_def)

interpretation meta: record_codec "\<lambda>rec. valid_heads (pm_history rec)" PrefixMetaRecord_encode PrefixMetaRecord_decode
  by unfold_locales (simp add: PrefixMetaRecord_encode_def PrefixMetaRecord_decode_def Reader_new_at codec_simps)

definition valid_stored :: "admitted \<Rightarrow> bool" where
  "valid_stored e \<longleftrightarrow> wf_tag (de_tag (ae_device_entry e)) \<and> wf_seal (de_seal (ae_device_entry e)) \<and>
     payload (de_seal (ae_device_entry e)) = []"

lemma valid_stored_seal:
  assumes "valid_stored e"
  shows "unat (of_nat (length (Seal_encode (de_seal (ae_device_entry e)))) :: u32) =
      length (Seal_encode (de_seal (ae_device_entry e)))"
    and "Seal_decode (Seal_encode (de_seal (ae_device_entry e))) = Inr (de_seal (ae_device_entry e))"
  using assms by (simp_all add: valid_stored_def length_Seal_encode seal_lengths Seal_decode_encode)

definition data_bytes :: "admitted \<Rightarrow> bytes" where
  "data_bytes e = projr (DataRecord_encode e)"

lemma DataRecord_encode_point: "point_key (mutation_of e) = Some k \<Longrightarrow> DataRecord_encode e = Inr (data_bytes e)"
  by (cases "mutation_of e") (simp_all add: data_bytes_def DataRecord_encode_def Let_def)

interpretation data: record_codec "\<lambda>e. valid_stored e \<and> point_key (mutation_of e) = Some key" data_bytes
  "DataRecord_decode key" for key
proof unfold_locales
  fix e
  assume v: "valid_stored e \<and> point_key (mutation_of e) = Some key"
  then show "DataRecord_decode key (data_bytes e) = Some e"
    by (cases "mutation_of e")
      (auto simp: data_bytes_def DataRecord_encode_def DataRecord_decode_def Reader_new_at codec_simps Let_def
        valid_stored_seal wf_tag_def wf_id_def valid_stored_def)
qed

definition valid_tombstone :: "Range \<Rightarrow> RangeDeleteRecord \<Rightarrow> bool" where
  "valid_tombstone r rec \<longleftrightarrow> valid_stored (rd_entry rec) \<and> mutation_of (rd_entry rec) = DeleteRange r \<and>
     valid_heads (rd_history rec) \<and> da_device (first (rd_history rec)) = device_of (rd_entry rec) \<and>
     da_admission_seq (first (rd_history rec)) = seq_of (rd_entry rec) \<and>
     AdmittedEntry_ver (rd_entry rec) \<le> rd_max_ver rec"

definition tombstone_bytes :: "RangeDeleteRecord \<Rightarrow> bytes" where
  "tombstone_bytes rec = projr (RangeDeleteRecord_encode rec)"

lemma RangeDeleteRecord_encode_ok:
  "mutation_of (rd_entry rec) = DeleteRange r \<Longrightarrow> RangeDeleteRecord_encode rec = Inr (tombstone_bytes rec)"
  by (simp add: tombstone_bytes_def RangeDeleteRecord_encode_def Let_def)

interpretation tombstone: record_codec "valid_tombstone rng" tombstone_bytes "RangeDeleteRecord_decode rng" for rng
proof unfold_locales
  fix rec
  assume v: "valid_tombstone rng rec"
  then have m: "HistoricalHeads_max_admission_seq (rd_history rec) = seq_of (rd_entry rec)"
    by (auto simp: valid_tombstone_def valid_heads_def HistoricalHeads_max_admission_seq_def max_absorb1)
  from v show "RangeDeleteRecord_decode rng (tombstone_bytes rec) = Some rec"
    by (auto simp: tombstone_bytes_def RangeDeleteRecord_encode_def RangeDeleteRecord_decode_def Reader_new_at
        codec_simps Let_def valid_stored_seal wf_tag_def wf_id_def valid_tombstone_def m not_less
        AdmittedEntry_ver_def DeviceEntry_ver_def valid_stored_def)
qed

subsection \<open>What the two heads represent\<close>

definition heads_repr :: "HistoricalHeads \<Rightarrow> (DeviceId \<Rightarrow> AdmissionSeq) \<Rightarrow> bool" where
  "heads_repr h m \<longleftrightarrow>
     m (da_device (first h)) = da_admission_seq (first h) \<and>
     da_admission_seq (second h) \<le> da_admission_seq (first h) \<and>
     (da_admission_seq (second h) \<noteq> 0 \<longrightarrow>
        da_device (second h) \<noteq> da_device (first h) \<and> m (da_device (second h)) = da_admission_seq (second h)) \<and>
     (\<forall>d. d \<noteq> da_device (first h) \<longrightarrow> m d \<le> da_admission_seq (second h))"

lemma heads_repr_empty: "heads_repr HistoricalHeads_empty (\<lambda>_. 0)"
  by (simp add: heads_repr_def HistoricalHeads_empty_def DeviceAdmission_EMPTY_def)

lemma heads_repr_zero: "heads_repr h m \<Longrightarrow> da_admission_seq (first h) = 0 \<Longrightarrow> m d = 0"
  unfolding heads_repr_def by (metis word_le_0_iff)

lemma heads_repr_observe:
  assumes "heads_repr h m" "s \<noteq> 0"
  shows "heads_repr (HistoricalHeads_observe d s h) (m(d := max (m d) s))"
proof (cases h rule: heads_cases)
  case (1 d1 s1 d2 s2)
  show ?thesis
  proof (cases "s1 = 0")
    case True
    then have z: "m x = 0" for x using heads_repr_zero [OF assms(1)] 1 by simp
    show ?thesis
      using True assms(1) 1 by (simp add: heads_repr_def HistoricalHeads_observe_def z word_gt_0)
  next
    case False
    have m: "m d1 = s1" "s2 \<le> s1" "s2 \<noteq> 0 \<Longrightarrow> d2 \<noteq> d1 \<and> m d2 = s2" "\<And>x. x \<noteq> d1 \<Longrightarrow> m x \<le> s2"
      using assms(1) 1 by (auto simp: heads_repr_def)
    have le: "m x \<le> s1" for x using m(1,2) m(4) [of x] by (cases "x = d1") auto
    consider "d = d1" | "d \<noteq> d1" "s2 = 0" | "d \<noteq> d1" "s2 \<noteq> 0" "d = d2"
      | "d \<noteq> d1" "s2 \<noteq> 0" "d \<noteq> d2" "s2 < s" | "d \<noteq> d1" "s2 \<noteq> 0" "d \<noteq> d2" "s \<le> s2"
      by fastforce
    then show ?thesis
    proof cases
      case 1
      then show ?thesis
        using False m le \<open>h = _\<close> by (auto simp: heads_repr_def HistoricalHeads_observe_def Let_def max_def)
    next
      case 2
      then have "m x = 0" if "x \<noteq> d1" for x using m(4) [OF that] by simp
      with 2 show ?thesis
        using False m le \<open>h = _\<close> by (auto simp: heads_repr_def HistoricalHeads_observe_def Let_def max_def not_le)
    next
      case 3
      then have "m d2 = s2" "d2 \<noteq> d1" using m(3) by auto
      moreover have "m x \<le> max s2 s" if "x \<noteq> d1" for x using m(4) [OF that] by (simp add: le_max_iff_disj)
      ultimately show ?thesis
        using 3 False m(1) le \<open>h = _\<close>
        by (cases "s1 < max s2 s") (auto simp: heads_repr_def HistoricalHeads_observe_def Let_def not_less)
    next
      case 4
      have "m x \<le> s" if "x \<noteq> d1" for x using m(4) [OF that] 4 by simp
      with 4 show ?thesis
        using False m le \<open>h = _\<close>
        by (auto simp: heads_repr_def HistoricalHeads_observe_def Let_def max_def not_le not_less)
    next
      case 5
      then have "HistoricalHeads_observe d s h = h"
        using False leD [OF m(2)] \<open>h = _\<close> by (simp add: HistoricalHeads_observe_def Let_def leD)
      then show ?thesis
        using 5 m \<open>h = _\<close> by (auto simp: heads_repr_def)
    qed
  qed
qed

lemma heads_repr_dominated:
  assumes h: "heads_repr h m" and ge: "\<And>d. m d \<le> n d"
    and dom: "\<And>d. m d < n d \<Longrightarrow> \<exists>a b. a \<noteq> b \<and> a \<noteq> d \<and> b \<noteq> d \<and> n d \<le> m a \<and> n d \<le> m b"
  shows "heads_repr h n"
proof (cases h rule: heads_cases)
  case (1 d1 s1 d2 s2)
  then have m: "m d1 = s1" "s2 \<le> s1" "s2 \<noteq> 0 \<Longrightarrow> d2 \<noteq> d1 \<and> m d2 = s2" "\<And>x. x \<noteq> d1 \<Longrightarrow> m x \<le> s2"
    using h by (auto simp: heads_repr_def)
  have small: "n d \<le> s2" if "m d < n d" for d
    using dom [OF that] m(4) order_trans by metis
  have other: "n d \<le> s2" if "d \<noteq> d1" for d
  proof (cases "m d < n d")
    case True
    then show ?thesis by (rule small)
  next
    case False
    then show ?thesis using m(4) [OF that] by (simp add: not_less)
  qed
  have "n d1 = s1"
    using small [of d1] m(1,2) ge [of d1] by (metis order.antisym not_less order_trans)
  moreover have "n d2 = s2" if "s2 \<noteq> 0"
    using other [of d2] ge [of d2] m(3) [OF that] by (simp add: order.antisym)
  ultimately show ?thesis
    using 1 m(2,3) other by (simp add: heads_repr_def)
qed

lemma heads_repr_merge:
  assumes h: "heads_repr h m" and g: "heads_repr g n"
  shows "heads_repr (HistoricalHeads_merge g h) (\<lambda>d. max (m d) (n d))"
proof (cases g rule: heads_cases)
  case (1 d1 s1 d2 s2)
  then have n: "n d1 = s1" "s2 \<le> s1" "s2 \<noteq> 0 \<Longrightarrow> d2 \<noteq> d1 \<and> n d2 = s2" "\<And>x. x \<noteq> d1 \<Longrightarrow> n x \<le> s2"
    using g by (auto simp: heads_repr_def)
  have step: "heads_repr (if s \<noteq> 0 then HistoricalHeads_observe d s h else h) (m(d := max (m d) s))"
    if "heads_repr h m" for h m d s
    using heads_repr_observe [OF that] that by (simp add: max_absorb1)
  let ?m = "(m(d1 := max (m d1) s1))(d2 := max ((m(d1 := max (m d1) s1)) d2) s2)"
  have "HistoricalHeads_merge g h = (let h = if s1 \<noteq> 0 then HistoricalHeads_observe d1 s1 h else h in
      if s2 \<noteq> 0 then HistoricalHeads_observe d2 s2 h else h)"
    using 1 by (simp add: HistoricalHeads_merge_def)
  then have r: "heads_repr (HistoricalHeads_merge g h) ?m"
    using step [OF step [OF h]] by (simp add: Let_def)
  show ?thesis
  proof (rule heads_repr_dominated [OF r])
    show "?m d \<le> max (m d) (n d)" for d
      using n(1-3) by (cases "s2 = 0") (auto simp: le_max_iff_disj)
    show "\<exists>a b. a \<noteq> b \<and> a \<noteq> d \<and> b \<noteq> d \<and> max (m d) (n d) \<le> ?m a \<and> max (m d) (n d) \<le> ?m b"
      if d: "?m d < max (m d) (n d)" for d
    proof -
      have "m d \<le> ?m d" by (simp add: le_max_iff_disj)
      with d have mx: "max (m d) (n d) = n d" by (auto simp: max_def not_le split: if_splits)
      have "d \<noteq> d1"
        using d n(1) by (auto simp: max_def not_le not_less split: if_splits)
      then have le: "n d \<le> s2" by (rule n(4))
      with d mx have "s2 \<noteq> 0" by auto
      with n(3) have d2: "d2 \<noteq> d1" "n d2 = s2" by auto
      then have "d \<noteq> d2" using d by (auto simp: max_def not_le not_less split: if_splits)
      moreover have "n d \<le> s1" using le n(2) by (rule order_trans)
      ultimately show ?thesis
        using le d2 \<open>d \<noteq> d1\<close> unfolding mx by (intro exI [of _ d1] exI [of _ d2]) (auto simp: le_max_iff_disj)
    qed
  qed
qed

lemma heads_repr_le: "heads_repr h m \<Longrightarrow> m d \<le> da_admission_seq (first h)"
  unfolding heads_repr_def by (cases "d = da_device (first h)") (auto intro: order_trans)

lemma heads_repr_max:
  assumes "heads_repr h m"
  shows "m d \<le> HistoricalHeads_max_admission_seq h" and "\<exists>d. m d = HistoricalHeads_max_admission_seq h"
proof -
  have e: "HistoricalHeads_max_admission_seq h = da_admission_seq (first h)"
    using assms by (simp add: heads_repr_def HistoricalHeads_max_admission_seq_def max_absorb1)
  show "m d \<le> HistoricalHeads_max_admission_seq h"
    unfolding e by (rule heads_repr_le [OF assms])
  show "\<exists>d. m d = HistoricalHeads_max_admission_seq h"
    unfolding e using assms by (auto simp: heads_repr_def)
qed

lemma heads_repr_excluding:
  assumes "heads_repr h m"
  shows "d' \<noteq> d \<Longrightarrow> m d' \<le> HistoricalHeads_max_excluding h d"
    and "HistoricalHeads_max_excluding h d \<noteq> 0 \<Longrightarrow> \<exists>d'. d' \<noteq> d \<and> m d' = HistoricalHeads_max_excluding h d"
  using assms heads_repr_le [OF assms] unfolding HistoricalHeads_max_excluding_def
  by (auto simp: heads_repr_def split: if_splits)

lemma valid_heads_observe:
  "valid_heads h \<Longrightarrow> wf_id d \<Longrightarrow> s \<noteq> 0 \<Longrightarrow> valid_heads (HistoricalHeads_observe d s h)"
  by (auto simp: valid_heads_def HistoricalHeads_observe_def Let_def le_max_iff_disj)

lemma valid_heads_empty: "valid_heads HistoricalHeads_empty"
  by (simp add: valid_heads_def HistoricalHeads_empty_def DeviceAdmission_EMPTY_def wf_id_def)

lemma Max_insert_max: "finite S \<Longrightarrow> Max (insert (max a b) S) = Max (insert a (insert b (S :: 'a :: linorder set)))"
  by (cases "S = {}") (simp_all add: max.assoc)

lemma heads_repr_fold:
  assumes "heads_repr h m" "\<forall>p \<in> set obs. snd p \<noteq> 0"
  shows "heads_repr (fold (\<lambda>p. HistoricalHeads_observe (fst p) (snd p)) obs h)
    (\<lambda>d. Max (insert (m d) (snd ` {p \<in> set obs. fst p = d})))"
  using assms
proof (induction obs arbitrary: h m)
  case (Cons p obs)
  let ?m = "m(fst p := max (m (fst p)) (snd p))"
  have IH: "heads_repr (fold (\<lambda>p. HistoricalHeads_observe (fst p) (snd p)) (p # obs) h)
    (\<lambda>d. Max (insert (?m d) (snd ` {p \<in> set obs. fst p = d})))"
    using Cons.IH [OF heads_repr_observe [OF Cons.prems(1)]] Cons.prems(2) by simp
  have "Max (insert (?m d) (snd ` {p \<in> set obs. fst p = d})) =
      Max (insert (m d) (snd ` {q \<in> set (p # obs). fst q = d}))" for d
  proof (cases "d = fst p")
    case True
    then have "snd ` {q \<in> set (p # obs). fst q = d} = insert (snd p) (snd ` {q \<in> set obs. fst q = d})"
      by auto
    then show ?thesis using True by (simp add: Max_insert_max)
  next
    case False
    then have "{q \<in> set (p # obs). fst q = d} = {q \<in> set obs. fst q = d}" by auto
    then show ?thesis using False by simp
  qed
  with IH show ?case by simp
qed simp

subsection \<open>Properties\<close>

text \<open>C39: two heads are enough.  After any sequence of admissions, the history answers exactly, for
  every device, the greatest admission by any \<^emph>\<open>other\<close> device, and the greatest admission overall,
  although it stores only two devices.\<close>

theorem HistoricalHeads_answers_are_exact:
  assumes "\<forall>p \<in> set obs. snd p \<noteq> 0"
    and "h = fold (\<lambda>p. HistoricalHeads_observe (fst p) (snd p)) obs HistoricalHeads_empty"
  shows "HistoricalHeads_max_excluding h device = Max (insert 0 (snd ` {p \<in> set obs. fst p \<noteq> device})) \<and>
    HistoricalHeads_max_admission_seq h = Max (insert 0 (snd ` set obs))"
proof
  let ?m = "\<lambda>d. Max (insert 0 (snd ` {p \<in> set obs. fst p = d}))"
  have r: "heads_repr h ?m"
    using heads_repr_fold [OF heads_repr_empty assms(1)] assms(2) by simp
  have mem: "p \<in> set obs \<Longrightarrow> snd p \<le> ?m (fst p)" for p by (rule Max_ge) auto
  have in_m: "?m d = 0 \<or> (\<exists>p \<in> set obs. fst p = d \<and> ?m d = snd p)" for d
    using Max_in [of "insert 0 (snd ` {p \<in> set obs. fst p = d})"] by auto
  show "HistoricalHeads_max_excluding h device = Max (insert 0 (snd ` {p \<in> set obs. fst p \<noteq> device}))"
  proof (rule Max_eqI [symmetric])
    show "HistoricalHeads_max_excluding h device \<in> insert 0 (snd ` {p \<in> set obs. fst p \<noteq> device})"
    proof (cases "HistoricalHeads_max_excluding h device = 0")
      case False
      then obtain d where d: "d \<noteq> device" "?m d = HistoricalHeads_max_excluding h device"
        using heads_repr_excluding(2) [OF r] by blast
      with False in_m [of d] obtain p where "p \<in> set obs" "fst p = d" "?m d = snd p" by metis
      with d show ?thesis by (intro insertI2 image_eqI [of _ _ p]) auto
    qed simp
    show "y \<le> HistoricalHeads_max_excluding h device"
      if "y \<in> insert 0 (snd ` {p \<in> set obs. fst p \<noteq> device})" for y
      using that mem heads_repr_excluding(1) [OF r] by (auto intro: order_trans)
  qed simp
  show "HistoricalHeads_max_admission_seq h = Max (insert 0 (snd ` set obs))"
  proof (rule Max_eqI [symmetric])
    obtain d where d: "?m d = HistoricalHeads_max_admission_seq h"
      using heads_repr_max(2) [OF r] by blast
    then show "HistoricalHeads_max_admission_seq h \<in> insert 0 (snd ` set obs)"
      using in_m [of d] by auto
    show "y \<le> HistoricalHeads_max_admission_seq h" if "y \<in> insert 0 (snd ` set obs)" for y
      using that mem heads_repr_max(1) [OF r] by (auto intro: order_trans)
  qed simp
qed

text \<open>The witness: three devices, one of them twice.\<close>

theorem HistoricalHeads_answers_are_exact_witness:
  "HistoricalHeads_max_excluding
     (fold (\<lambda>p. HistoricalHeads_observe (fst p) (snd p)) [([1], 1), ([2], 2), ([3], 3), ([2], 4)] HistoricalHeads_empty)
     [2] = 3"
proof -
  let ?obs = "[([1], 1), ([2], 2), ([3], 3), ([2], 4)] :: (DeviceId \<times> AdmissionSeq) list"
  have "{p \<in> set ?obs. fst p \<noteq> [2]} = {([1], 1), ([3], 3)}" by auto
  then have "Max (insert 0 (snd ` {p \<in> set ?obs. fst p \<noteq> [2]})) = 3" by simp
  then show ?thesis
    using HistoricalHeads_answers_are_exact [of ?obs, OF _ refl, of "[2]"] by simp
qed

lemma LeaseRecord_decode_cut:
  assumes "wf_key (lr_prefix l)" "wf_id (lr_device l)" "wf_stamp (lr_requested_at l)"
  shows "LeaseRecord_decode (LeaseRecord_encode l) = Some (l\<lparr>lr_ttl := from_millis (millis_u64 (lr_ttl l))\<rparr>)"
proof -
  let ?l = "l\<lparr>lr_ttl := from_millis (millis_u64 (lr_ttl l))\<rparr>"
  have "valid_lease ?l" using assms by (simp add: valid_lease_def)
  moreover have "LeaseRecord_encode ?l = LeaseRecord_encode l" by (simp add: LeaseRecord_encode_def)
  ultimately show ?thesis using lease.decode_encode [of ?l] by simp
qed

text \<open>C40: every stored record reads back: on well-formed records encoding never panics and decoding
  inverts it, except that a lease record keeps its time to live in whole milliseconds, capped to 64 bits:
  a lease of any time to live decodes to the lease with that part cut and everything else, its
  deadline included, unchanged.\<close>

theorem record_codecs_roundtrip:
  assumes "valid_header h" "wf_key (lr_prefix l)" "wf_id (lr_device l)" "wf_stamp (lr_requested_at l)" "valid_device d"
    and "valid_heads (pm_history p)" "valid_stored e" "point_key (mutation_of e) = Some k" "valid_tombstone r t"
  shows "AdmissionHeaderRecord_decode (AdmissionHeaderRecord_encode h) = Some h \<and>
    LeaseRecord_decode (LeaseRecord_encode l) = Some (l\<lparr>lr_ttl := from_millis (millis_u64 (lr_ttl l))\<rparr>) \<and>
    CountersRecord_decode (CountersRecord_encode c) = Some c \<and>
    DeviceRecord_decode (DeviceRecord_encode d) = Some d \<and>
    PrefixMetaRecord_decode (PrefixMetaRecord_encode p) = Some p \<and>
    (\<exists>bs. DataRecord_encode e = Inr bs \<and> DataRecord_decode k bs = Some e) \<and>
    (\<exists>bs. RangeDeleteRecord_encode t = Inr bs \<and> RangeDeleteRecord_decode r bs = Some t)"
proof -
  have "mutation_of (rd_entry t) = DeleteRange r" using assms(9) by (simp add: valid_tombstone_def)
  then show ?thesis
    using assms DataRecord_encode_point [OF assms(8)] RangeDeleteRecord_encode_ok
    by (simp add: header.decode_encode LeaseRecord_decode_cut counters.decode_encode device.decode_encode
        meta.decode_encode data.decode_encode tombstone.decode_encode)
qed

text \<open>The witness: a concrete deletion, tombstone, lease, header and device record.\<close>

theorem record_codecs_roundtrip_witness:
  "LeaseRecord_decode (LeaseRecord_encode \<lparr>lr_id = 1, lr_prefix = [[7]], lr_mode = Write, lr_device = replicate 16 1,
     lr_requested_at = HybridTimestamp_ZERO, lr_granted_at = 1, lr_barrier = 2, lr_deadline = 3, lr_ttl = 2500000\<rparr>) =
   Some \<lparr>lr_id = 1, lr_prefix = [[7]], lr_mode = Write, lr_device = replicate 16 1,
     lr_requested_at = HybridTimestamp_ZERO, lr_granted_at = 1, lr_barrier = 2, lr_deadline = 3, lr_ttl = 2000000\<rparr> \<and>
   (\<exists>bs. DataRecord_encode
     \<lparr>ae_device_entry = \<lparr>de_mutation = Delete [[7]],
        de_tag = \<lparr>dt_device = replicate 16 1, dt_device_seq = 3, dt_ver = 1, dt_cipher_epoch = 0\<rparr>,
        de_seal = empty_aead_v1\<rparr>, ae_admission = \<lparr>at_admission_seq = 5, at_op_index = 0\<rparr>\<rparr> = Inr bs \<and>
   DataRecord_decode [[7]] bs = Some
     \<lparr>ae_device_entry = \<lparr>de_mutation = Delete [[7]],
        de_tag = \<lparr>dt_device = replicate 16 1, dt_device_seq = 3, dt_ver = 1, dt_cipher_epoch = 0\<rparr>,
        de_seal = empty_aead_v1\<rparr>, ae_admission = \<lparr>at_admission_seq = 5, at_op_index = 0\<rparr>\<rparr>)"
proof -
  define id1 where "id1 = replicate 16 (1 :: u8)"
  define tag where "tag = \<lparr>dt_device = id1, dt_device_seq = 3, dt_ver = 1, dt_cipher_epoch = 0\<rparr>"
  define adm where "adm = \<lparr>at_admission_seq = 5, at_op_index = 0\<rparr>"
  define e where "e = \<lparr>ae_device_entry = \<lparr>de_mutation = Delete [[7]] :: OpaqueValue Mutation, de_tag = tag,
    de_seal = empty_aead_v1\<rparr>, ae_admission = adm\<rparr>"
  define f where "f = e\<lparr>ae_device_entry := (ae_device_entry e)\<lparr>de_mutation := DeleteRange Full\<rparr>\<rparr>"
  define t where "t = \<lparr>rd_entry = f, rd_history = HistoricalHeads_observe id1 5 HistoricalHeads_empty, rd_max_ver = 1\<rparr>"
  define h where "h = \<lparr>ah_device = id1, ah_device_seq = 3, ah_checksum = DeviceChecksum_EMPTY, ah_operation_count = 1\<rparr>"
  define l where "l = \<lparr>lr_id = 1, lr_prefix = [[7]], lr_mode = Write, lr_device = id1,
    lr_requested_at = HybridTimestamp_ZERO, lr_granted_at = 1, lr_barrier = 2, lr_deadline = 3, lr_ttl = 2500000\<rparr>"
  have i: "wf_id id1" by (simp add: id1_def wf_id_def)
  have s: "wf_seal empty_aead_v1" "payload empty_aead_v1 = []"
    by (simp_all add: wf_seal_def empty_aead_v1_def)
  have "valid_header h" "wf_key (lr_prefix l)" "wf_id (lr_device l)" "wf_stamp (lr_requested_at l)"
    "valid_device \<lparr>dr_last_seq = 1, dr_checksum = DeviceChecksum_EMPTY\<rparr>"
    using i by (simp_all add: valid_header_def valid_device_def h_def l_def wf_key_def
        wf_component_def key_limits wf_stamp_def HybridTimestamp_ZERO_def Lineage_NONE_def)
  moreover have "valid_heads (pm_history PrefixMetaRecord_empty)"
    by (simp add: PrefixMetaRecord_empty_def valid_heads_empty)
  moreover have "valid_stored e" "point_key (mutation_of e) = Some [[7]]"
    using i s by (simp_all add: valid_stored_def e_def tag_def wf_tag_def)
  moreover have "valid_tombstone Full t"
    using i s by (simp add: valid_tombstone_def valid_stored_def t_def f_def e_def tag_def adm_def wf_tag_def
        valid_heads_observe valid_heads_empty HistoricalHeads_observe_def HistoricalHeads_empty_def
        DeviceAdmission_EMPTY_def AdmittedEntry_ver_def DeviceEntry_ver_def valid_heads_def wf_id_def)
  ultimately have "LeaseRecord_decode (LeaseRecord_encode l) = Some (l\<lparr>lr_ttl := from_millis (millis_u64 (lr_ttl l))\<rparr>) \<and>
      (\<exists>bs. DataRecord_encode e = Inr bs \<and> DataRecord_decode [[7]] bs = Some e)"
    using record_codecs_roundtrip [of h l _ PrefixMetaRecord_empty e "[[7]]" Full t] by blast
  moreover have "from_millis (millis_u64 2500000) = 2000000" by (simp add: from_millis_def millis_u64_def as_millis_def unat_of_nat)
  ultimately show ?thesis by (simp add: l_def e_def tag_def adm_def id1_def)
qed

end
