(* ===== verification/Log.thy ===== *)
theory Log
  imports Records
begin

text \<open>
  The abstract specification of a space's data: the admission log.  The state of the data plane is
  the sequence of admitted operations and nothing else; what a reader may observe is what replaying
  them yields (\<open>live\<close>), and the materialized records of the server are summaries of the log.

  \<^item> \<open>live log\<close>: the entries visible after replaying the log.
  \<^item> \<open>last_point\<close>, \<open>newest_reset\<close>: the newest point event at a key, the newest deletion covering a
    range; \<open>live_eq\<close> recovers visibility from these two, which is how the server computes it.
  \<^item> \<open>tomb_ok\<close>, \<open>agg_ok\<close>: what a tombstone record and a prefix aggregate must hold for a log.
  \<^item> \<open>conflicts\<close>: the pairs of operations whose versions must increase.
\<close>

subsection \<open>Replay\<close>

definition replay :: "admitted \<Rightarrow> (key \<rightharpoonup> admitted) \<Rightarrow> (key \<rightharpoonup> admitted)" where
  "replay e m = (case mutation_of e of
     Set k _ \<Rightarrow> m(k \<mapsto> e)
   | Delete k \<Rightarrow> m(k := None)
   | DeleteRange r \<Rightarrow> (\<lambda>k. if covers_key r k then None else m k))"

definition live :: "admitted list \<Rightarrow> (key \<rightharpoonup> admitted)" where
  "live log = fold replay log Map.empty"

definition last_point :: "admitted list \<Rightarrow> key \<Rightarrow> admitted option" where
  "last_point log k = find (\<lambda>e. point_key (mutation_of e) = Some k) (rev log)"

definition last_range :: "admitted list \<Rightarrow> Range \<Rightarrow> admitted option" where
  "last_range log r = find (\<lambda>e. mutation_of e = DeleteRange r) (rev log)"

fun newer :: "AdmissionOrder option \<Rightarrow> AdmissionOrder \<Rightarrow> AdmissionOrder option" where
  "newer None o1 = Some o1"
| "newer (Some o0) o1 = Some (max o0 o1)"

definition resets :: "Range \<Rightarrow> admitted \<Rightarrow> bool" where
  "resets target e \<longleftrightarrow> (\<exists>r. mutation_of e = DeleteRange r \<and> covers_range r target)"

definition newest_reset :: "admitted list \<Rightarrow> Range \<Rightarrow> AdmissionOrder option" where
  "newest_reset log target = foldl newer None (map order_of (filter (resets target) log))"

definition ascending :: "admitted list \<Rightarrow> bool" where
  "ascending log \<longleftrightarrow> sorted_wrt (<) (map order_of log) \<and> (\<forall>e \<in> set log. seq_of e \<noteq> 0)"

lemma live_Nil [simp]: "live [] = Map.empty" and live_snoc [simp]: "live (log @ [e]) = replay e (live log)"
  by (simp_all add: live_def)

lemma last_point_simps [simp]:
  "last_point [] k = None"
  "last_point (log @ [e]) k = (if point_key (mutation_of e) = Some k then Some e else last_point log k)"
  by (simp_all add: last_point_def)

lemma last_range_simps [simp]:
  "last_range [] r = None"
  "last_range (log @ [e]) r = (if mutation_of e = DeleteRange r then Some e else last_range log r)"
  by (simp_all add: last_range_def)

lemma newest_reset_simps [simp]:
  "newest_reset [] t = None"
  "newest_reset (log @ [e]) t = (if resets t e then newer (newest_reset log t) (order_of e) else newest_reset log t)"
  by (simp_all add: newest_reset_def)

lemma newest_reset_append:
  "newest_reset (log @ es) t = foldl newer (newest_reset log t) (map order_of (filter (resets t) es))"
  by (simp add: newest_reset_def)

lemma last_point_Some: "last_point log k = Some e \<Longrightarrow> e \<in> set log \<and> point_key (mutation_of e) = Some k"
  by (induction log rule: rev_induct) (auto split: if_splits)

lemma last_range_Some: "last_range log r = Some e \<Longrightarrow> e \<in> set log \<and> mutation_of e = DeleteRange r"
  by (induction log rule: rev_induct) (auto split: if_splits)

lemma last_point_None: "last_point log k = None \<longleftrightarrow> (\<forall>e \<in> set log. point_key (mutation_of e) \<noteq> Some k)"
  unfolding last_point_def by (auto simp: find_None_iff)

lemma last_range_None: "last_range log r = None \<longleftrightarrow> (\<forall>e \<in> set log. mutation_of e \<noteq> DeleteRange r)"
  unfolding last_range_def by (auto simp: find_None_iff)

lemma newer_Some: "newer a b = Some (case a of None \<Rightarrow> b | Some o0 \<Rightarrow> max o0 b)"
  by (cases a) auto

lemma newest_reset_None: "newest_reset log t = None \<longleftrightarrow> (\<forall>e \<in> set log. \<not> resets t e)"
  by (induction log rule: rev_induct) (auto simp: newer_Some)

lemma newest_reset_SomeD:
  "newest_reset log t = Some ro \<Longrightarrow>
     (\<exists>e \<in> set log. resets t e \<and> order_of e = ro) \<and> (\<forall>e \<in> set log. resets t e \<longrightarrow> order_of e \<le> ro)"
proof (induction log arbitrary: ro rule: rev_induct)
  case (snoc x log)
  show ?case
  proof (cases "resets t x")
    case True
    show ?thesis
    proof (cases "newest_reset log t")
      case None
      then show ?thesis using snoc.prems True newest_reset_None [of log t] by auto
    next
      case (Some o0)
      with snoc.prems True have "ro = max o0 (order_of x)" by simp
      with snoc.IH [OF Some] True show ?thesis by (auto simp: max_def intro: order_trans)
    qed
  qed (use snoc in auto)
qed simp

lemma newest_reset_eqI:
  assumes "e \<in> set log" "resets t e" "\<And>x. x \<in> set log \<Longrightarrow> resets t x \<Longrightarrow> order_of x \<le> order_of e"
  shows "newest_reset log t = Some (order_of e)"
proof (cases "newest_reset log t")
  case None
  then show ?thesis using assms(1,2) by (simp add: newest_reset_None)
next
  case (Some ro)
  from newest_reset_SomeD [OF this] assms have "ro = order_of e"
    by (metis order.antisym)
  with Some show ?thesis by simp
qed

lemma ascending_snoc:
  "ascending (log @ [e]) \<longleftrightarrow> ascending log \<and> (\<forall>x \<in> set log. order_of x < order_of e) \<and> seq_of e \<noteq> 0"
  by (auto simp: ascending_def sorted_wrt_append)

lemma ascending_append: "ascending (log @ es) \<Longrightarrow> ascending log"
  by (auto simp: ascending_def sorted_wrt_append)

lemma ascending_Nil [simp]: "ascending []"
  by (simp add: ascending_def)

subsection \<open>Visibility\<close>

definition after :: "AdmissionOrder \<Rightarrow> AdmissionOrder option \<Rightarrow> bool" where
  "after p ro \<longleftrightarrow> (case ro of None \<Rightarrow> True | Some r \<Rightarrow> r < p)"

lemma after_simps [simp]: "after p None" "after p (Some r) \<longleftrightarrow> r < p"
  by (simp_all add: after_def)

lemma newest_reset_less:
  "ascending (log @ [e]) \<Longrightarrow> after (order_of e) (newest_reset log t)"
  using newest_reset_SomeD [of log t] by (cases "newest_reset log t") (auto simp: ascending_snoc)

lemma newer_last: "ascending (log @ [e]) \<Longrightarrow> newer (newest_reset log t) (order_of e) = Some (order_of e)"
  using newest_reset_less [of log e t] by (cases "newest_reset log t") (simp_all add: max_absorb2 less_imp_le)

lemma live_eq:
  assumes "ascending log"
  shows "live log k = (case last_point log k of
      None \<Rightarrow> None
    | Some e \<Rightarrow> if is_set (mutation_of e) \<and> after (order_of e) (newest_reset log (Prefix k)) then Some e else None)"
  using assms
proof (induction log rule: rev_induct)
  case (snoc e log)
  then have IH: "live log k = (case last_point log k of
      None \<Rightarrow> None
    | Some e \<Rightarrow> if is_set (mutation_of e) \<and> after (order_of e) (newest_reset log (Prefix k)) then Some e else None)"
    by (simp add: ascending_snoc)
  note less = newest_reset_less [OF snoc.prems]
  show ?case
  proof (cases "mutation_of e")
    case (DeleteRange r)
    have "order_of x < order_of e" if "last_point log k = Some x" for x
      using last_point_Some [OF that] snoc.prems by (simp add: ascending_snoc)
    then show ?thesis
      using DeleteRange IH newer_last [OF snoc.prems]
      by (auto simp: replay_def resets_def covers_range_Prefix_key split: option.splits)
  qed (use IH less in \<open>auto simp: replay_def resets_def split: option.splits\<close>)
qed simp

lemma live_Some: "live log k = Some e \<Longrightarrow> e \<in> set log \<and> (\<exists>v. mutation_of e = Set k v)"
proof (induction log rule: rev_induct)
  case (snoc x log)
  then show ?case by (cases "mutation_of x") (auto simp: replay_def split: if_splits)
qed simp

lemma live_key: "live log k = Some e \<Longrightarrow> wf_mutation (mutation_of e) \<Longrightarrow> wf_key k"
  using live_Some by fastforce

subsection \<open>Live keys below a range\<close>

definition live_keys :: "admitted list \<Rightarrow> Range \<Rightarrow> key set" where
  "live_keys log n = {k. covers_key n k \<and> live log k \<noteq> None}"

lemma live_keys_bound: "card (live_keys log n) \<le> length log" and finite_live_keys [simp]: "finite (live_keys log n)"
proof -
  have sub: "live_keys log n \<subseteq> (\<lambda>e. the (point_key (mutation_of e))) ` set log"
  proof
    fix k
    assume "k \<in> live_keys log n"
    then obtain e where "live log k = Some e" by (auto simp: live_keys_def)
    then obtain v where "e \<in> set log" "mutation_of e = Set k v" using live_Some by blast
    then show "k \<in> (\<lambda>e. the (point_key (mutation_of e))) ` set log" by (intro image_eqI [of _ _ e]) auto
  qed
  then show "finite (live_keys log n)" by (rule finite_subset) simp
  have "card (live_keys log n) \<le> card ((\<lambda>e. the (point_key (mutation_of e))) ` set log)"
    using sub by (intro card_mono) auto
  also have "\<dots> \<le> length log"
    by (rule order_trans [OF card_image_le card_length]) simp
  finally show "card (live_keys log n) \<le> length log" .
qed

lemma live_keys_Nil [simp]: "live_keys [] n = {}"
  by (simp add: live_keys_def)

lemma live_keys_point:
  assumes "point_key (mutation_of e) = Some k"
  shows "live_keys (log @ [e]) n =
    (if covers_key n k then (if is_set (mutation_of e) then insert k (live_keys log n) else live_keys log n - {k})
     else live_keys log n)"
  using assms by (cases "mutation_of e") (auto simp: live_keys_def replay_def split: if_splits)

lemma live_keys_range:
  assumes "mutation_of e = DeleteRange r"
  shows "live_keys (log @ [e]) n = live_keys log n - {k. covers_key r k}"
  using assms by (auto simp: live_keys_def replay_def split: if_splits)

lemma covered_key_trans: "covers_range a b \<Longrightarrow> covers_key b k \<Longrightarrow> covers_key a k"
  using covers_range_trans [of a b "Prefix k"] by (simp add: covers_range_Prefix_key)

lemma live_keys_mono: "covers_range a b \<Longrightarrow> live_keys log b \<subseteq> live_keys log a"
  using covered_key_trans by (auto simp: live_keys_def)

lemma live_keys_range_below:
  assumes "mutation_of e = DeleteRange r"
  shows "covers_range r n \<Longrightarrow> live_keys (log @ [e]) n = {}"
    and "covers_range n r \<Longrightarrow> live_keys (log @ [e]) n = live_keys log n - live_keys log r"
    and "\<not> covers_range r n \<Longrightarrow> \<not> covers_range n r \<Longrightarrow> live_keys (log @ [e]) n = live_keys log n"
proof -
  show "covers_range r n \<Longrightarrow> live_keys (log @ [e]) n = {}"
    using covered_key_trans unfolding live_keys_range [OF assms] by (auto simp: live_keys_def)
  show "covers_range n r \<Longrightarrow> live_keys (log @ [e]) n = live_keys log n - live_keys log r"
    unfolding live_keys_range [OF assms] by (auto simp: live_keys_def)
  show "live_keys (log @ [e]) n = live_keys log n" if "\<not> covers_range r n" "\<not> covers_range n r"
    unfolding live_keys_range [OF assms] using covers_range_comparable [of r n] that covers_key_comparable
    by (auto simp: live_keys_def)
qed

end
