(* ===== verification/Aggregates.thy ===== *)
theory Aggregates
  imports Log
begin

text \<open>
  What the materialized records of the data plane must hold for a log, and how one admitted
  operation changes them.  The lemmas are about single records; the data plane applies them along
  the ancestors of the operation's target.
\<close>

subsection \<open>Summaries of event sets\<close>

fun target_range :: "'v Mutation \<Rightarrow> Range" where
  "target_range (Set k _) = Prefix k"
| "target_range (Delete k) = Prefix k"
| "target_range (DeleteRange r) = r"

definition event_below :: "Range \<Rightarrow> admitted \<Rightarrow> bool" where
  "event_below n e \<longleftrightarrow> covers_range n (target_range (mutation_of e))"

definition dev_max :: "admitted set \<Rightarrow> DeviceId \<Rightarrow> AdmissionSeq" where
  "dev_max E d = Max (insert 0 (seq_of ` {e \<in> E. device_of e = d}))"

definition ver_max :: "admitted set \<Rightarrow> Ver" where
  "ver_max E = Max (insert 0 (AdmittedEntry_ver ` E))"

lemma dev_max_empty [simp]: "dev_max {} = (\<lambda>_. 0)" and ver_max_empty [simp]: "ver_max {} = 0"
  by (auto simp: dev_max_def ver_max_def)

lemma Max_insert_zero: "finite S \<Longrightarrow> Max (insert 0 (insert x S)) = max (Max (insert 0 S)) (x :: u64)"
  by (cases "S = {}") (simp_all add: insert_commute [of 0] max.commute)

lemma dev_max_insert:
  "finite E \<Longrightarrow> dev_max (insert e E) = (dev_max E)(device_of e := max (dev_max E (device_of e)) (seq_of e))"
proof (rule ext)
  fix d
  assume fin: "finite E"
  show "dev_max (insert e E) d = ((dev_max E)(device_of e := max (dev_max E (device_of e)) (seq_of e))) d"
  proof (cases "d = device_of e")
    case True
    then have "{x \<in> insert e E. device_of x = d} = insert e {x \<in> E. device_of x = d}" by auto
    then have "dev_max (insert e E) d = Max (insert 0 (insert (seq_of e) (seq_of ` {x \<in> E. device_of x = d})))"
      by (simp only: dev_max_def image_insert)
    also have "\<dots> = max (dev_max E d) (seq_of e)"
      unfolding dev_max_def using fin by (intro Max_insert_zero) simp
    finally show ?thesis using True by simp
  next
    case False
    then have "{x \<in> insert e E. device_of x = d} = {x \<in> E. device_of x = d}" by auto
    then show ?thesis using False by (simp add: dev_max_def)
  qed
qed

lemma ver_max_insert: "finite E \<Longrightarrow> ver_max (insert e E) = max (ver_max E) (AdmittedEntry_ver e)"
  unfolding ver_max_def image_insert by (intro Max_insert_zero) simp

lemma dev_max_Un: "finite B \<Longrightarrow> finite A \<Longrightarrow> dev_max (A \<union> B) = (\<lambda>d. max (dev_max A d) (dev_max B d))"
proof (induction B rule: finite_induct)
  case empty
  then show ?case by (simp add: fun_eq_iff)
next
  case (insert x B)
  then show ?case by (auto simp: dev_max_insert max.assoc fun_eq_iff)
qed

lemma ver_max_Un: "finite B \<Longrightarrow> finite A \<Longrightarrow> ver_max (A \<union> B) = max (ver_max A) (ver_max B)"
proof (induction B rule: finite_induct)
  case (insert x B)
  then show ?case by (simp add: ver_max_insert max.assoc)
qed simp

lemma dev_max_ge: "finite E \<Longrightarrow> e \<in> E \<Longrightarrow> seq_of e \<le> dev_max E (device_of e)"
  unfolding dev_max_def by (rule Max_ge) auto

lemma ver_max_ge: "finite E \<Longrightarrow> e \<in> E \<Longrightarrow> AdmittedEntry_ver e \<le> ver_max E"
  unfolding ver_max_def by (rule Max_ge) auto

lemma dev_max_attained: "finite E \<Longrightarrow> dev_max E d \<noteq> 0 \<Longrightarrow> \<exists>e \<in> E. device_of e = d \<and> seq_of e = dev_max E d"
  using Max_in [of "insert 0 (seq_of ` {e \<in> E. device_of e = d})"] unfolding dev_max_def by auto

lemma ver_max_attained: "finite E \<Longrightarrow> ver_max E \<noteq> 0 \<Longrightarrow> \<exists>e \<in> E. AdmittedEntry_ver e = ver_max E"
  using Max_in [of "insert 0 (AdmittedEntry_ver ` E)"] unfolding ver_max_def by auto

lemma events_snoc:
  "{x \<in> set (log @ [e]). P x} = (if P e then insert e {x \<in> set log. P x} else {x \<in> set log. P x})"
  by auto

subsection \<open>Versions\<close>

fun conflicts :: "'v Mutation \<Rightarrow> 'v Mutation \<Rightarrow> bool" where
  "conflicts (DeleteRange r) (DeleteRange r') = overlaps r r'"
| "conflicts (DeleteRange r) m = covers_range r (target_range m)"
| "conflicts m (DeleteRange r) = covers_range r (target_range m)"
| "conflicts m m' = (target_range m = target_range m')"

definition vers_ascend :: "admitted list \<Rightarrow> bool" where
  "vers_ascend log \<longleftrightarrow>
     sorted_wrt (\<lambda>a b. conflicts (mutation_of b) (mutation_of a) \<longrightarrow> AdmittedEntry_ver a < AdmittedEntry_ver b) log"

lemma vers_ascend_snoc:
  "vers_ascend (log @ [e]) \<longleftrightarrow> vers_ascend log \<and>
     (\<forall>x \<in> set log. conflicts (mutation_of e) (mutation_of x) \<longrightarrow> AdmittedEntry_ver x < AdmittedEntry_ver e)"
  by (auto simp: vers_ascend_def sorted_wrt_append)

subsection \<open>Well-formed logs\<close>

definition log_ok :: "admitted list \<Rightarrow> bool" where
  "log_ok log \<longleftrightarrow> ascending log \<and> vers_ascend log \<and>
     (\<forall>e \<in> set log. valid_stored e \<and> wf_mutation (mutation_of e)) \<and>
     (\<forall>a \<in> set log. \<forall>b \<in> set log. seq_of a = seq_of b \<longrightarrow> device_of a = device_of b)"

lemma log_ok_Nil [simp]: "log_ok []"
  by (simp add: log_ok_def vers_ascend_def)

lemma log_ok_snocD: "log_ok (log @ [e]) \<Longrightarrow> log_ok log"
  unfolding log_ok_def ascending_snoc vers_ascend_snoc set_append by blast

lemma order_less_seq: "order_of a < order_of b \<Longrightarrow> seq_of a \<le> seq_of b"
  by (auto simp: order_def)

subsection \<open>Tombstones\<close>

definition tomb_ok :: "admitted list \<Rightarrow> Range \<Rightarrow> RangeDeleteRecord \<Rightarrow> bool" where
  "tomb_ok log r rec \<longleftrightarrow> (let E = {e \<in> set log. mutation_of e = DeleteRange r} in
     last_range log r = Some (rd_entry rec) \<and> heads_repr (rd_history rec) (dev_max E) \<and>
     valid_heads (rd_history rec) \<and> rd_max_ver rec = ver_max E)"

lemma last_range_order:
  "ascending log \<Longrightarrow> last_range log r = Some x \<Longrightarrow> e \<in> set log \<Longrightarrow> mutation_of e = DeleteRange r \<Longrightarrow>
   order_of e \<le> order_of x"
proof (induction log rule: rev_induct)
  case (snoc y log)
  then show ?case
    by (cases "mutation_of y = DeleteRange r") (auto simp: ascending_snoc less_imp_le)
qed simp

lemma tomb_ok_valid:
  assumes log: "log_ok log" and t: "tomb_ok log r rec"
  shows "valid_tombstone r rec"
proof -
  let ?E = "{e \<in> set log. mutation_of e = DeleteRange r}"
  from t have last: "last_range log r = Some (rd_entry rec)" and h: "heads_repr (rd_history rec) (dev_max ?E)"
    and v: "rd_max_ver rec = ver_max ?E" "valid_heads (rd_history rec)"
    by (simp_all add: tomb_ok_def Let_def)
  let ?x = "rd_entry rec" and ?f = "first (rd_history rec)"
  from last_range_Some [OF last] have x: "?x \<in> ?E" by simp
  have asc: "ascending log" and dev: "\<And>a b. a \<in> set log \<Longrightarrow> b \<in> set log \<Longrightarrow> seq_of a = seq_of b \<Longrightarrow> device_of a = device_of b"
    using log unfolding log_ok_def by blast+
  have nz: "seq_of ?x \<noteq> 0" using x asc by (simp add: ascending_def)
  have "seq_of ?x \<le> dev_max ?E (device_of ?x)" using x by (intro dev_max_ge) auto
  also have "\<dots> \<le> da_admission_seq ?f" by (rule heads_repr_le [OF h])
  finally have le: "seq_of ?x \<le> da_admission_seq ?f" .
  moreover have m: "dev_max ?E (da_device ?f) = da_admission_seq ?f" using h by (simp add: heads_repr_def)
  ultimately have "dev_max ?E (da_device ?f) \<noteq> 0" using nz by (auto simp: word_le_0_iff)
  then obtain e where e: "e \<in> ?E" "device_of e = da_device ?f" "seq_of e = da_admission_seq ?f"
    using dev_max_attained [of ?E "da_device ?f"] m by auto
  then have "seq_of e \<le> seq_of ?x"
    using last_range_order [OF asc last, of e] order_less_seq [of e ?x] by (auto simp: le_less order_def)
  with e le have s: "da_admission_seq ?f = seq_of ?x" by simp
  with e x dev have "da_device ?f = device_of ?x" by (metis (mono_tags, lifting) mem_Collect_eq)
  moreover have "AdmittedEntry_ver ?x \<le> rd_max_ver rec"
    unfolding v using x by (intro ver_max_ge) auto
  ultimately show ?thesis
    using s v x log by (simp add: valid_tombstone_def log_ok_def)
qed

lemma tomb_ok_other: "mutation_of e \<noteq> DeleteRange r \<Longrightarrow> tomb_ok (log @ [e]) r rec \<longleftrightarrow> tomb_ok log r rec"
  unfolding tomb_ok_def by (simp only: events_snoc last_range_simps if_False Let_def)

lemma tomb_ok_new:
  assumes "mutation_of e = DeleteRange r" "last_range log r = None" "seq_of e \<noteq> 0" "wf_id (device_of e)"
  obtains rec where "RangeDeleteRecord_new e = Inr rec" "tomb_ok (log @ [e]) r rec" "rd_entry rec = e"
proof
  have "{x \<in> set (log @ [e]). mutation_of x = DeleteRange r} = {e}"
    using assms by (auto simp: last_range_None)
  moreover have "heads_repr (HistoricalHeads_observe (device_of e) (seq_of e) HistoricalHeads_empty) (dev_max {e})"
    using heads_repr_observe [OF heads_repr_empty assms(3)] dev_max_insert [of "{}" e] by simp
  ultimately show "tomb_ok (log @ [e]) r
      \<lparr>rd_entry = e, rd_history = HistoricalHeads_observe (device_of e) (seq_of e) HistoricalHeads_empty,
       rd_max_ver = AdmittedEntry_ver e\<rparr>"
    using assms ver_max_insert [of "{}" e]
    by (simp add: tomb_ok_def Let_def valid_heads_observe valid_heads_empty)
qed (simp_all add: RangeDeleteRecord_new_def assms)

lemma tomb_ok_observe:
  assumes "mutation_of e = DeleteRange r" "tomb_ok log r rec" "ascending (log @ [e])" "wf_id (device_of e)"
  obtains rec' where "RangeDeleteRecord_observe e rec = Inr rec'" "tomb_ok (log @ [e]) r rec'"
proof
  let ?E = "{x \<in> set log. mutation_of x = DeleteRange r}"
  let ?rec = "rec\<lparr>rd_history := HistoricalHeads_observe (device_of e) (seq_of e) (rd_history rec),
    rd_max_ver := max (rd_max_ver rec) (AdmittedEntry_ver e), rd_entry := e\<rparr>"
  have t: "last_range log r = Some (rd_entry rec)" "heads_repr (rd_history rec) (dev_max ?E)"
    "valid_heads (rd_history rec)" "rd_max_ver rec = ver_max ?E"
    using assms(2) by (simp_all add: tomb_ok_def Let_def)
  have mem: "rd_entry rec \<in> set log" "mutation_of (rd_entry rec) = DeleteRange r"
    using last_range_Some [OF t(1)] by auto
  then have "order_of (rd_entry rec) < order_of e" using assms(3) by (simp add: ascending_snoc)
  then show "RangeDeleteRecord_observe e rec = Inr ?rec"
    using mem assms(1) by (simp add: RangeDeleteRecord_observe_def)
  have nz: "seq_of e \<noteq> 0" using assms(3) by (simp add: ascending_snoc)
  have "{x \<in> set (log @ [e]). mutation_of x = DeleteRange r} = insert e ?E" using assms(1) by auto
  moreover have "heads_repr (HistoricalHeads_observe (device_of e) (seq_of e) (rd_history rec)) (dev_max (insert e ?E))"
    using heads_repr_observe [OF t(2) nz] by (simp add: dev_max_insert)
  ultimately show "tomb_ok (log @ [e]) r ?rec"
    using assms(1,4) t nz ver_max_insert [of ?E e] by (simp add: tomb_ok_def Let_def valid_heads_observe)
qed

subsection \<open>Prefix aggregates\<close>

definition checked_add_signed :: "u64 \<Rightarrow> int \<Rightarrow> u64 option" where
  "checked_add_signed x d = (let n = int (unat x) + d in if 0 \<le> n \<and> n < 2 ^ 64 then Some (of_int n) else None)"

definition checked_sub64 :: "u64 \<Rightarrow> u64 \<Rightarrow> u64 option" where
  "checked_sub64 a b = (if b \<le> a then Some (a - b) else None)"

definition stale :: "AdmissionOrder option \<Rightarrow> PrefixMetaRecord \<Rightarrow> bool" where
  "stale reset rec \<longleftrightarrow> (case reset of None \<Rightarrow> False | Some ro \<Rightarrow> pm_count_epoch rec < ro)"

definition materialized :: "AdmissionOrder option \<Rightarrow> PrefixMetaRecord \<Rightarrow> PrefixMetaRecord" where
  "materialized reset rec =
     (if stale reset rec then rec\<lparr>pm_live_count := 0, pm_count_epoch := the reset\<rparr> else rec)"

definition agg_ok :: "admitted list \<Rightarrow> Range \<Rightarrow> PrefixMetaRecord \<Rightarrow> bool" where
  "agg_ok log n rec \<longleftrightarrow> (let E = {e \<in> set log. event_below n e} in
     heads_repr (pm_history rec) (dev_max E) \<and> valid_heads (pm_history rec) \<and> pm_max_ver rec = ver_max E \<and>
     (pm_count_epoch rec = AdmissionOrder 0 0 \<or> pm_count_epoch rec \<in> order_of ` set log) \<and>
     unat (if stale (newest_reset log n) rec then 0 else pm_live_count rec) = card (live_keys log n))"

lemma zero_order_less: "seq_of e \<noteq> 0 \<Longrightarrow> AdmissionOrder 0 0 < order_of e"
  by (simp add: order_def word_gt_0)

lemma agg_ok_empty: "agg_ok [] n PrefixMetaRecord_empty"
  by (simp add: agg_ok_def PrefixMetaRecord_empty_def heads_repr_empty valid_heads_empty stale_def)

lemma epoch_less:
  "agg_ok log n rec \<Longrightarrow> ascending (log @ [e]) \<Longrightarrow> pm_count_epoch rec < order_of e"
  unfolding agg_ok_def Let_def ascending_snoc using zero_order_less [of e] by auto

lemma agg_ok_materialized:
  assumes "agg_ok log n rec"
  shows "agg_ok log n (materialized (newest_reset log n) rec)"
    and "unat (pm_live_count (materialized (newest_reset log n) rec)) = card (live_keys log n)"
    and "\<not> stale (newest_reset log n) (materialized (newest_reset log n) rec)"
proof -
  have ns: "\<not> stale (newest_reset log n) (materialized (newest_reset log n) rec)"
    by (auto simp: stale_def materialized_def split: option.splits)
  have "\<exists>e \<in> set log. order_of e = ro" if "newest_reset log n = Some ro" for ro
    using newest_reset_SomeD [OF that] by blast
  with assms ns show "agg_ok log n (materialized (newest_reset log n) rec)"
    unfolding agg_ok_def Let_def
    by (cases "newest_reset log n") (auto simp: materialized_def stale_def split: if_splits)
  with ns show "unat (pm_live_count (materialized (newest_reset log n) rec)) = card (live_keys log n)"
    by (simp add: agg_ok_def Let_def)
  show "\<not> stale (newest_reset log n) (materialized (newest_reset log n) rec)" by (rule ns)
qed

lemma agg_ok_untouched:
  assumes ok: "agg_ok log n rec" and asc: "ascending (log @ [e])" and out: "\<not> event_below n e"
  shows "agg_ok (log @ [e]) n rec"
proof -
  have E: "{x \<in> set (log @ [e]). event_below n x} = {x \<in> set log. event_below n x}" using out by auto
  have "unat (if stale (newest_reset (log @ [e]) n) rec then 0 else pm_live_count rec) = card (live_keys (log @ [e]) n)"
  proof (cases "resets n e")
    case True
    then obtain r where r: "mutation_of e = DeleteRange r" "covers_range r n" by (auto simp: resets_def)
    then show ?thesis
      using True newer_last [OF asc] epoch_less [OF ok asc] live_keys_range_below(1) [OF r]
      by (simp add: stale_def)
  next
    case False
    moreover have "live_keys (log @ [e]) n = live_keys log n"
    proof (cases "mutation_of e")
      case (DeleteRange r)
      then show ?thesis
        using live_keys_range_below(3) [OF DeleteRange] False out by (auto simp: resets_def event_below_def)
    qed (use out in \<open>auto simp: event_below_def covers_range_Prefix_key live_keys_point\<close>)
    ultimately show ?thesis using ok by (simp add: agg_ok_def Let_def)
  qed
  then show ?thesis
    using ok unfolding agg_ok_def Let_def E by auto
qed

lemma agg_ok_history:
  assumes ok: "agg_ok log n rec" and asc: "ascending (log @ [e])" and below: "event_below n e"
    and dev: "wf_id (device_of e)"
    and count: "unat c = card (live_keys (log @ [e]) n)"
  shows "agg_ok (log @ [e]) n
    ((observe_history (device_of e) (seq_of e) (AdmittedEntry_ver e) rec)
       \<lparr>pm_live_count := c, pm_count_epoch := order_of e\<rparr>)"
proof -
  let ?E = "{x \<in> set log. event_below n x}"
  have E: "{x \<in> set (log @ [e]). event_below n x} = insert e ?E" using below by auto
  have nz: "seq_of e \<noteq> 0" using asc by (simp add: ascending_snoc)
  have "\<not> order_of e < ro" if "newest_reset (log @ [e]) n = Some ro" for ro
  proof -
    from newest_reset_SomeD [OF that] obtain x where "x \<in> set (log @ [e])" "order_of x = ro" by blast
    with asc show ?thesis by (auto simp: ascending_snoc dest: order.strict_trans)
  qed
  then have ns: "\<not> stale (newest_reset (log @ [e]) n) rec'" if "pm_count_epoch rec' = order_of e" for rec'
    using that by (auto simp: stale_def split: option.splits)
  have "heads_repr (HistoricalHeads_observe (device_of e) (seq_of e) (pm_history rec)) (dev_max (insert e ?E))"
    using ok heads_repr_observe [OF _ nz] by (simp add: agg_ok_def Let_def dev_max_insert)
  then show ?thesis
    using ok dev nz count ver_max_insert [of ?E e]
    unfolding agg_ok_def Let_def E by (simp add: observe_history_def valid_heads_observe ns del: newest_reset_simps)
qed

lemma agg_ok_point:
  assumes ok: "agg_ok log n rec" and asc: "ascending (log @ [e])" and k: "point_key (mutation_of e) = Some k"
    and cov: "covers_key n k" and dev: "wf_id (device_of e)" and small: "length log + 1 < 2 ^ 64"
    and delta: "delta = of_bool (is_set (mutation_of e)) - of_bool (live log k \<noteq> None)"
    and rec1: "rec1 = observe_history (device_of e) (seq_of e) (AdmittedEntry_ver e)
      (materialized (newest_reset log n) rec)"
  obtains c where "checked_add_signed (pm_live_count rec1) delta = Some c"
    and "agg_ok (log @ [e]) n (materialize_count_at (order_of e) (rec1\<lparr>pm_live_count := c\<rparr>))"
proof
  note mat = agg_ok_materialized [OF ok]
  let ?c = "of_nat (card (live_keys (log @ [e]) n)) :: u64"
  have lc: "unat (pm_live_count rec1) = card (live_keys log n)"
    using mat(2) rec1 by (simp add: observe_history_def)
  have mem: "k \<in> live_keys log n \<longleftrightarrow> live log k \<noteq> None" using cov by (simp add: live_keys_def)
  have pos: "0 < card (live_keys log n)" if "k \<in> live_keys log n"
    using that by (auto simp: card_gt_0_iff)
  have new: "int (card (live_keys (log @ [e]) n)) = int (card (live_keys log n)) + delta"
    using mem pos unfolding delta live_keys_point [OF k] by (auto simp: cov card_Diff_singleton_if insert_absorb)
  have bound: "card (live_keys (log @ [e]) n) < 2 ^ 64"
    using live_keys_bound [of "log @ [e]" n] small by simp
  show "checked_add_signed (pm_live_count rec1) delta = Some ?c"
    using new bound by (simp add: checked_add_signed_def lc Let_def flip: new)
  have "unat ?c = card (live_keys (log @ [e]) n)" using bound by (simp add: unat_of_nat)
  moreover have "event_below n e"
    using k cov by (cases "mutation_of e") (auto simp: event_below_def covers_range_Prefix_key)
  ultimately have "agg_ok (log @ [e]) n (rec1\<lparr>pm_live_count := ?c, pm_count_epoch := order_of e\<rparr>)"
    using agg_ok_history [OF mat(1) asc _ dev] rec1 by simp
  moreover have "pm_count_epoch rec1 < order_of e"
    using epoch_less [OF mat(1) asc] rec1 by (simp add: observe_history_def)
  ultimately show "agg_ok (log @ [e]) n (materialize_count_at (order_of e) (rec1\<lparr>pm_live_count := ?c\<rparr>))"
    by (simp add: materialize_count_at_def max_absorb2 less_imp_le)
qed

lemma agg_ok_range_target:
  assumes ok: "agg_ok log r rec" and asc: "ascending (log @ [e])" and m: "mutation_of e = DeleteRange r"
    and dev: "wf_id (device_of e)"
  shows "agg_ok (log @ [e]) r
    ((observe_history (device_of e) (seq_of e) (AdmittedEntry_ver e) (materialized (newest_reset log r) rec))
       \<lparr>pm_live_count := 0, pm_count_epoch := order_of e\<rparr>)"
  by (rule agg_ok_history [OF agg_ok_materialized(1) [OF ok] asc _ dev])
    (simp_all add: event_below_def m live_keys_range_below(1) [OF m])

lemma agg_ok_range_ancestor:
  assumes ok: "agg_ok log n rec" and asc: "ascending (log @ [e])" and m: "mutation_of e = DeleteRange r"
    and cov: "covers_range n r" and dev: "wf_id (device_of e)"
    and removed: "unat removed = card (live_keys log r)"
    and rec1: "rec1 = observe_history (device_of e) (seq_of e) (AdmittedEntry_ver e)
      (materialized (newest_reset log n) rec)"
  obtains c where "checked_sub64 (pm_live_count rec1) removed = Some c"
    and "agg_ok (log @ [e]) n (materialize_count_at (order_of e) (rec1\<lparr>pm_live_count := c\<rparr>))"
proof
  note mat = agg_ok_materialized [OF ok]
  let ?c = "pm_live_count rec1 - removed"
  have lc: "unat (pm_live_count rec1) = card (live_keys log n)"
    using mat(2) rec1 by (simp add: observe_history_def)
  have sub: "live_keys log r \<subseteq> live_keys log n" by (rule live_keys_mono [OF cov])
  then have le: "removed \<le> pm_live_count rec1"
    using lc removed card_mono [OF _ sub] by (simp add: word_le_nat_alt)
  then show "checked_sub64 (pm_live_count rec1) removed = Some ?c" by (simp add: checked_sub64_def)
  have "unat ?c = card (live_keys (log @ [e]) n)"
    unfolding live_keys_range_below(2) [OF m cov] using le lc removed card_Diff_subset [OF _ sub]
    by (simp add: unat_sub)
  then have "agg_ok (log @ [e]) n (rec1\<lparr>pm_live_count := ?c, pm_count_epoch := order_of e\<rparr>)"
    using agg_ok_history [OF mat(1) asc _ dev] rec1 cov m by (simp add: event_below_def)
  moreover have "pm_count_epoch rec1 < order_of e"
    using epoch_less [OF mat(1) asc] rec1 by (simp add: observe_history_def)
  ultimately show "agg_ok (log @ [e]) n (materialize_count_at (order_of e) (rec1\<lparr>pm_live_count := ?c\<rparr>))"
    by (simp add: materialize_count_at_def max_absorb2 less_imp_le)
qed

end
