(* ===== verification/LeaseTable.thy ===== *)
theory LeaseTable
  imports Leases
begin

text \<open>
  The lease table behind the two index records: a map \<open>T\<close> from lease identifiers to records
  (\<open>lease_repr\<close>).  Every index scan of the manager is exact with respect to \<open>T\<close>, every verb changes
  \<open>T\<close> as its documentation says, and the table never holds two live incompatible overlapping leases.
\<close>

subsection \<open>Representation\<close>

definition lease_repr :: "SpaceId \<Rightarrow> MemoryStore \<Rightarrow> (LeaseId \<rightharpoonup> LeaseRecord) \<Rightarrow> bool" where
  "lease_repr space st T \<longleftrightarrow>
     (\<forall>lid. sget space st (KLeaseById lid) = map_option LeaseRecord_encode (T lid)) \<and>
     (\<forall>p lid. wf_key p \<longrightarrow> sget space st (KLeaseByPrefix p lid) =
        (case T lid of None \<Rightarrow> None | Some rec \<Rightarrow> if lr_prefix rec = p then Some (LeaseRecord_encode rec) else None)) \<and>
     (\<forall>lid rec. T lid = Some rec \<longrightarrow> lr_id rec = lid \<and> valid_lease rec)"

lemma lease_reprD:
  assumes "lease_repr space st T"
  shows "sget space st (KLeaseById lid) = map_option LeaseRecord_encode (T lid)"
    and "wf_key p \<Longrightarrow> sget space st (KLeaseByPrefix p lid) = Some v \<longleftrightarrow>
      (\<exists>rec. T lid = Some rec \<and> lr_prefix rec = p \<and> v = LeaseRecord_encode rec)"
    and "T lid = Some rec \<Longrightarrow> lr_id rec = lid" and "T lid = Some rec \<Longrightarrow> valid_lease rec"
  using assms unfolding lease_repr_def by (auto split: option.splits if_splits)

lemma decode_leases_map:
  assumes "\<And>kv. kv \<in> set kvs \<Longrightarrow> \<exists>rec. valid_lease rec \<and> snd kv = LeaseRecord_encode rec"
  shows "decode_leases kvs = Inr (map (\<lambda>kv. the (LeaseRecord_decode (snd kv))) kvs)"
  using assms
proof (induction kvs)
  case (Cons kv kvs)
  obtain rec where "valid_lease rec" "snd kv = LeaseRecord_encode rec" using Cons.prems [of kv] by auto
  then have "LeaseRecord_decode (snd kv) = Some rec" by (simp add: lease.decode_encode)
  with Cons show ?case by (simp add: decode_leases_def)
qed (simp add: decode_leases_def)

definition depth_leases :: "(LeaseId \<rightharpoonup> LeaseRecord) \<Rightarrow> nat \<Rightarrow> key_component list \<Rightarrow> LeaseRecord set" where
  "depth_leases T depth head = {rec \<in> ran T. length (lr_prefix rec) = depth \<and> prefix head (lr_prefix rec)}"

lemma prefix_scan_leases:
  assumes "bt_wf st" "keys_ok space st" "lease_repr space st T" "length head \<le> depth" "depth \<le> MAX_COMPONENTS"
  obtains recs where "rbind (scan_prefix st (lease_by_prefix_scan space depth head)) decode_leases = Inr recs"
    and "set recs = depth_leases T depth head"
proof -
  let ?p = "lease_by_prefix_scan space depth head"
  obtain kvs where kvs: "scan_prefix st ?p = Inr kvs" by (simp add: scan_prefix_eq)
  have "prefix (encode_components [space]) ?p"
    unfolding scan_prefix_eqs(5) encode_components_prefix_iff by simp
  note mem = scan_prefix_member [OF assms(1,2) this kvs]
  have char: "(k, v) \<in> set kvs \<longleftrightarrow> (\<exists>rec lid. T lid = Some rec \<and> length (lr_prefix rec) = depth \<and>
      prefix head (lr_prefix rec) \<and> k = skey_bytes space (KLeaseByPrefix (lr_prefix rec) lid) \<and>
      v = LeaseRecord_encode rec)" for k v
  proof
    assume "(k, v) \<in> set kvs"
    then obtain s where s: "wf_skey s" "k = skey_bytes space s" "prefix ?p k" "sget space st s = Some v"
      unfolding mem by blast
    from s(3) obtain pre lid where "s = KLeaseByPrefix pre lid" "length pre = depth" "prefix head pre"
      unfolding s(2) lease_by_prefix_scan_prefix [OF s(1) assms(4,5)] by blast
    with s lease_reprD(2) [OF assms(3), of pre lid v]
    show "\<exists>rec lid. T lid = Some rec \<and> length (lr_prefix rec) = depth \<and> prefix head (lr_prefix rec) \<and>
      k = skey_bytes space (KLeaseByPrefix (lr_prefix rec) lid) \<and> v = LeaseRecord_encode rec" by auto
  next
    assume "\<exists>rec lid. T lid = Some rec \<and> length (lr_prefix rec) = depth \<and> prefix head (lr_prefix rec) \<and>
      k = skey_bytes space (KLeaseByPrefix (lr_prefix rec) lid) \<and> v = LeaseRecord_encode rec"
    then obtain rec lid where r: "T lid = Some rec" "length (lr_prefix rec) = depth" "prefix head (lr_prefix rec)"
      "k = skey_bytes space (KLeaseByPrefix (lr_prefix rec) lid)" "v = LeaseRecord_encode rec" by blast
    have w: "wf_key (lr_prefix rec)" using lease_reprD(4) [OF assms(3) r(1)] by (simp add: valid_lease_def)
    then have "prefix ?p k"
      unfolding r(4) using r(2,3) lease_by_prefix_scan_prefix [of "KLeaseByPrefix (lr_prefix rec) lid", OF _ assms(4,5)] by simp
    with r w lease_reprD(2) [OF assms(3) w, of lid v] show "(k, v) \<in> set kvs"
      unfolding mem by (intro exI [of _ "KLeaseByPrefix (lr_prefix rec) lid"]) auto
  qed
  let ?recs = "map (\<lambda>kv. the (LeaseRecord_decode (snd kv))) kvs"
  have "decode_leases kvs = Inr ?recs"
    using char lease_reprD(4) [OF assms(3)] by (intro decode_leases_map) force
  moreover have "set ?recs = depth_leases T depth head"
  proof safe
    fix rec
    assume "rec \<in> set ?recs"
    then obtain k v where kv: "(k, v) \<in> set kvs" "rec = the (LeaseRecord_decode v)" by auto
    then obtain r lid where "T lid = Some r" "length (lr_prefix r) = depth" "prefix head (lr_prefix r)"
      "v = LeaseRecord_encode r" unfolding char by blast
    with kv(2) lease_reprD(4) [OF assms(3)] show "rec \<in> depth_leases T depth head"
      by (auto simp: depth_leases_def lease.decode_encode ranI)
  next
    fix rec
    assume "rec \<in> depth_leases T depth head"
    then obtain lid where r: "T lid = Some rec" "length (lr_prefix rec) = depth" "prefix head (lr_prefix rec)"
      by (auto simp: depth_leases_def ran_def)
    then have "(skey_bytes space (KLeaseByPrefix (lr_prefix rec) lid), LeaseRecord_encode rec) \<in> set kvs"
      unfolding char by blast
    moreover have "the (LeaseRecord_decode (LeaseRecord_encode rec)) = rec"
      using lease_reprD(4) [OF assms(3) r(1)] by (simp add: lease.decode_encode)
    ultimately show "rec \<in> set ?recs" by force
  qed
  ultimately show ?thesis using that kvs by simp
qed

lemma id_scan_leases:
  assumes "bt_wf st" "keys_ok space st" "lease_repr space st T"
  shows "rbind (scan_prefix st (lease_by_id_scan space)) decode_leases = Inr (map (the \<circ> T) (sorted_list_of_set (dom T)))"
proof -
  let ?p = "lease_by_id_scan space" and ?ids = "sorted_list_of_set (dom T)"
  let ?f = "\<lambda>lid. skey_bytes space (KLeaseById lid)" and ?g = "\<lambda>lid. LeaseRecord_encode (the (T lid))"
  have fin: "finite (dom T)" by (rule finite)
  have pre: "prefix (encode_components [space]) ?p"
    unfolding scan_prefix_eqs(4) encode_components_prefix_iff by simp
  have "scan_prefix st ?p = Inr (map (\<lambda>lid. (?f lid, ?g lid)) ?ids)"
    unfolding scan_prefix_def
  proof (rule mem.prefix_scan_enumerates [OF assms(1)])
    show "sorted_wrt (\<lambda>a b. ?f a < ?f b) ?ids"
      by (simp add: skey_bytes_less)
    show "MemoryStore_get st k = Some v \<and> prefix ?p k \<longleftrightarrow> (\<exists>lid \<in> set ?ids. k = ?f lid \<and> v = ?g lid)" for k v
    proof
      assume l: "MemoryStore_get st k = Some v \<and> prefix ?p k"
      then obtain s where s: "wf_skey s" "k = skey_bytes space s"
        using assms(2) prefix_order.trans [OF pre] unfolding keys_ok_def by blast
      with l obtain lid where "s = KLeaseById lid" by (auto simp: scan_prefixes)
      with l s lease_reprD(1) [OF assms(3), of lid]
      show "\<exists>lid \<in> set ?ids. k = ?f lid \<and> v = ?g lid"
        using fin by (intro bexI [of _ lid]; cases "T lid") (auto simp: sget_def)
    next
      assume "\<exists>lid \<in> set ?ids. k = ?f lid \<and> v = ?g lid"
      then obtain lid rec where "T lid = Some rec" "k = ?f lid" "v = LeaseRecord_encode rec" using fin by auto
      with lease_reprD(1) [OF assms(3), of lid] show "MemoryStore_get st k = Some v \<and> prefix ?p k"
        by (simp add: sget_def scan_prefixes)
    qed
  qed
  moreover have "decode_leases (map (\<lambda>lid. (?f lid, ?g lid)) ?ids) = Inr (map (the \<circ> T) ?ids)"
  proof -
    have v: "valid_lease (the (T lid))" if "lid \<in> set ?ids" for lid
      using that fin lease_reprD(4) [OF assms(3)] by auto
    then have "decode_leases (map (\<lambda>lid. (?f lid, ?g lid)) ?ids) =
        Inr (map (\<lambda>kv. the (LeaseRecord_decode (snd kv))) (map (\<lambda>lid. (?f lid, ?g lid)) ?ids))"
      by (intro decode_leases_map) (metis (no_types, lifting) imageE image_set snd_conv)
    also have "map (\<lambda>kv. the (LeaseRecord_decode (snd kv))) (map (\<lambda>lid. (?f lid, ?g lid)) ?ids) = map (the \<circ> T) ?ids"
      unfolding map_map by (rule map_cong [OF refl]) (simp add: lease.decode_encode v)
    finally show ?thesis .
  qed
  ultimately show ?thesis by simp
qed

lemma rfold_collect:
  assumes "\<And>acc x. x \<in> set xs \<Longrightarrow> f acc x = Inr (acc @ g x)"
  shows "rfold f acc xs = Inr (acc @ concat (map g xs))"
  using assms by (induction xs arbitrary: acc) auto

lemma rfold_collect2:
  assumes "\<And>a b x. x \<in> set xs \<Longrightarrow> f (a, b) x = Inr (a @ g x, b @ h x)"
  shows "rfold f (a, b) xs = Inr (a @ concat (map g xs), b @ concat (map h xs))"
  using assms by (induction xs arbitrary: a b) auto

lemma wf_lease_depth:
  "lease_repr space st T \<Longrightarrow> rec \<in> ran T \<Longrightarrow> wf_key (lr_prefix rec) \<and> length (lr_prefix rec) \<in> {1..<MAX_COMPONENTS + 1}"
proof -
  assume "lease_repr space st T" "rec \<in> ran T"
  then have "wf_key (lr_prefix rec)"
    using lease_reprD(4) by (fastforce simp: ran_def valid_lease_def)
  moreover from this have "lr_prefix rec \<noteq> []" "length (lr_prefix rec) \<le> MAX_COMPONENTS"
    by (auto simp: wf_key_def)
  ultimately show ?thesis by (auto simp: Suc_le_eq)
qed

lemma prefix_same_length: "prefix a b \<Longrightarrow> length a = length b \<Longrightarrow> a = b"
  by (auto simp: prefix_def)

lemma set_concat_filter: "set (concat (map (\<lambda>d. filter P (recs d)) ds)) = {rec. P rec \<and> (\<exists>d \<in> set ds. rec \<in> set (recs d))}"
  by auto

lemma depth_leases_cover:
  assumes "lease_repr space st T"
  shows "(\<exists>d \<in> set [1..<length key + 1]. rec \<in> depth_leases T d (take d key)) \<longleftrightarrow> rec \<in> ran T \<and> prefix (lr_prefix rec) key"
  unfolding set_upt
proof
  assume "\<exists>d \<in> {1..<length key + 1}. rec \<in> depth_leases T d (take d key)"
  then obtain d where "d \<le> length key" "rec \<in> ran T" "length (lr_prefix rec) = d" "prefix (take d key) (lr_prefix rec)"
    by (auto simp: depth_leases_def)
  then have "lr_prefix rec = take d key" by (intro prefix_same_length [symmetric]) auto
  then show "rec \<in> ran T \<and> prefix (lr_prefix rec) key" using \<open>rec \<in> ran T\<close> by (simp add: take_is_prefix)
next
  assume a: "rec \<in> ran T \<and> prefix (lr_prefix rec) key"
  then have "take (length (lr_prefix rec)) key = lr_prefix rec" by (auto simp: prefix_def)
  with a wf_lease_depth [OF assms, of rec] prefix_length_le [of "lr_prefix rec" key]
  show "\<exists>d \<in> {1..<length key + 1}. rec \<in> depth_leases T d (take d key)"
    by (intro bexI [of _ "length (lr_prefix rec)"]) (auto simp: depth_leases_def)
qed

lemma covering_exact:
  assumes "bt_wf st" "keys_ok (lm_space mgr) st" "lease_repr (lm_space mgr) st T" "wf_key key"
  obtains live where "covering mgr st now key = Inr live"
    and "set live = {rec \<in> ran T. is_live rec now \<and> prefix (lr_prefix rec) key}"
proof -
  let ?ds = "[1..<length key + 1]"
  let ?scan = "\<lambda>d. scan_prefix st (lease_by_prefix_scan (lm_space mgr) d (take d key))"
  have "\<forall>d \<in> set ?ds. \<exists>recs. rbind (?scan d) decode_leases = Inr recs \<and> set recs = depth_leases T d (take d key)"
  proof
    fix d
    assume "d \<in> set ?ds"
    then have "length (take d key) \<le> d" "d \<le> MAX_COMPONENTS" using assms(4) by (auto simp: wf_key_def simp del: upt_Suc)
    then obtain rs where "rbind (?scan d) decode_leases = Inr rs" "set rs = depth_leases T d (take d key)"
      by (rule prefix_scan_leases [OF assms(1-3)])
    then show "\<exists>recs. rbind (?scan d) decode_leases = Inr recs \<and> set recs = depth_leases T d (take d key)" by blast
  qed
  from bchoice [OF this] obtain recs
    where recs: "\<forall>d \<in> set ?ds. rbind (?scan d) decode_leases = Inr (recs d) \<and> set (recs d) = depth_leases T d (take d key)"
    by blast
  let ?live = "concat (map (\<lambda>d. filter (\<lambda>rec. is_live rec now) (recs d)) ?ds)"
  have "covering mgr st now key = Inr ([] @ ?live)"
    unfolding covering_def
  proof (rule rfold_collect)
    fix acc d
    assume "d \<in> set ?ds"
    then have "rbind (?scan d) decode_leases = Inr (recs d)" using recs by blast
    then show "rbind (?scan d) (\<lambda>kvs. rbind (decode_leases kvs) (\<lambda>recs. Inr (acc @ filter (\<lambda>rec. is_live rec now) recs))) =
        Inr (acc @ filter (\<lambda>rec. is_live rec now) (recs d))"
      by (simp add: rbind_assoc [symmetric])
  qed
  moreover have "set ?live = {rec \<in> ran T. is_live rec now \<and> prefix (lr_prefix rec) key}"
  proof -
    have "set ?live = {rec. is_live rec now \<and> (\<exists>d \<in> set ?ds. rec \<in> depth_leases T d (take d key))}"
      unfolding set_concat_filter using recs by blast
    then show ?thesis unfolding depth_leases_cover [OF assms(3)] by blast
  qed
  ultimately show ?thesis using that [of ?live] by (simp only: append_Nil)
qed

lemma depth_leases_overlap:
  assumes "lease_repr space st T" "pre \<noteq> []"
  shows "(\<exists>d \<in> {1..<MAX_COMPONENTS + 1}. rec \<in> depth_leases T d (take (min d (length pre)) pre)) \<longleftrightarrow>
    rec \<in> ran T \<and> (prefix (lr_prefix rec) pre \<or> prefix pre (lr_prefix rec))"
proof
  assume "\<exists>d \<in> {1..<MAX_COMPONENTS + 1}. rec \<in> depth_leases T d (take (min d (length pre)) pre)"
  then obtain d where d: "rec \<in> ran T" "length (lr_prefix rec) = d" "prefix (take (min d (length pre)) pre) (lr_prefix rec)"
    by (auto simp: depth_leases_def)
  show "rec \<in> ran T \<and> (prefix (lr_prefix rec) pre \<or> prefix pre (lr_prefix rec))"
  proof (cases "d \<le> length pre")
    case True
    then have "lr_prefix rec = take d pre" using d by (intro prefix_same_length [symmetric]) (auto simp: min_absorb1)
    then show ?thesis using d(1) by (simp add: take_is_prefix)
  qed (use d in \<open>simp add: min_absorb2\<close>)
next
  assume a: "rec \<in> ran T \<and> (prefix (lr_prefix rec) pre \<or> prefix pre (lr_prefix rec))"
  let ?d = "length (lr_prefix rec)"
  have "prefix (take (min ?d (length pre)) pre) (lr_prefix rec)"
  proof (cases "?d \<le> length pre")
    case True
    then have "prefix (lr_prefix rec) pre" using a prefix_length_le prefix_same_length by (metis le_antisym prefix_order.refl)
    then have "take ?d pre = lr_prefix rec" by (auto simp: prefix_def)
    with True show ?thesis by (simp add: min_absorb1)
  next
    case False
    then have "prefix pre (lr_prefix rec)" using a prefix_length_le by fastforce
    with False show ?thesis by (simp add: min_absorb2)
  qed
  with a wf_lease_depth [OF assms(1), of rec]
  show "\<exists>d \<in> {1..<MAX_COMPONENTS + 1}. rec \<in> depth_leases T d (take (min d (length pre)) pre)"
    by (intro bexI [of _ ?d]) (auto simp: depth_leases_def)
qed

lemma overlapping_exact:
  assumes "bt_wf st" "keys_ok (lm_space mgr) st" "lease_repr (lm_space mgr) st T" "wf_key pre"
  obtains live dead where "overlapping mgr st now pre = Inr (live, dead)"
    and "set live = {rec \<in> ran T. is_live rec now \<and> (prefix (lr_prefix rec) pre \<or> prefix pre (lr_prefix rec))}"
    and "set dead = {rec \<in> ran T. \<not> is_live rec now \<and> (prefix (lr_prefix rec) pre \<or> prefix pre (lr_prefix rec))}"
proof -
  let ?ds = "[1..<MAX_COMPONENTS + 1]"
  let ?head = "\<lambda>d. take (min d (length pre)) pre"
  let ?scan = "\<lambda>d. scan_prefix st (lease_by_prefix_scan (lm_space mgr) d (?head d))"
  have "\<forall>d \<in> set ?ds. \<exists>recs. rbind (?scan d) decode_leases = Inr recs \<and> set recs = depth_leases T d (?head d)"
  proof
    fix d
    assume "d \<in> set ?ds"
    then have "length (?head d) \<le> d" "d \<le> MAX_COMPONENTS" by (auto simp del: upt_Suc)
    then obtain rs where "rbind (?scan d) decode_leases = Inr rs" "set rs = depth_leases T d (?head d)"
      by (rule prefix_scan_leases [OF assms(1-3)])
    then show "\<exists>recs. rbind (?scan d) decode_leases = Inr recs \<and> set recs = depth_leases T d (?head d)" by blast
  qed
  from bchoice [OF this] obtain recs
    where recs: "\<forall>d \<in> set ?ds. rbind (?scan d) decode_leases = Inr (recs d) \<and> set (recs d) = depth_leases T d (?head d)"
    by blast
  let ?sel = "\<lambda>P. concat (map (\<lambda>d. filter P (recs d)) ?ds)"
  have "overlapping mgr st now pre = Inr ([] @ ?sel (\<lambda>rec. is_live rec now), [] @ ?sel (\<lambda>rec. \<not> is_live rec now))"
    unfolding overlapping_def
  proof (rule rfold_collect2 [where g = "\<lambda>d. filter (\<lambda>rec. is_live rec now) (recs d)"
        and h = "\<lambda>d. filter (\<lambda>rec. \<not> is_live rec now) (recs d)"])
    fix a b d
    assume "d \<in> set ?ds"
    then have "rbind (?scan d) decode_leases = Inr (recs d)" using recs by blast
    then show "(\<lambda>(live, dead) d. rbind (?scan d) (\<lambda>kvs. rbind (decode_leases kvs) (\<lambda>recs.
        Inr (live @ filter (\<lambda>rec. is_live rec now) recs, dead @ filter (\<lambda>rec. \<not> is_live rec now) recs)))) (a, b) d =
        Inr (a @ filter (\<lambda>rec. is_live rec now) (recs d), b @ filter (\<lambda>rec. \<not> is_live rec now) (recs d))"
      by (simp add: rbind_assoc [symmetric])
  qed
  moreover have "set (?sel P) = {rec \<in> ran T. P rec \<and> (prefix (lr_prefix rec) pre \<or> prefix pre (lr_prefix rec))}" for P
  proof -
    have "set (?sel P) = {rec. P rec \<and> (\<exists>d \<in> set ?ds. rec \<in> depth_leases T d (?head d))}"
      unfolding set_concat_filter using recs by blast
    also have "\<dots> = {rec. P rec \<and> rec \<in> ran T \<and> (prefix (lr_prefix rec) pre \<or> prefix pre (lr_prefix rec))}"
      unfolding set_upt depth_leases_overlap [OF assms(3) Key_new_limits(2) [OF assms(4)]] by (rule refl)
    finally show ?thesis by blast
  qed
  ultimately show ?thesis
    using that [of "?sel (\<lambda>rec. is_live rec now)" "?sel (\<lambda>rec. \<not> is_live rec now)"] by (simp only: append_Nil)
qed

lemma all_live_exact:
  assumes "bt_wf st" "keys_ok (lm_space mgr) st" "lease_repr (lm_space mgr) st T"
  obtains live where "all_live mgr st now = Inr live" and "set live = {rec \<in> ran T. is_live rec now}"
proof -
  have "all_live mgr st now = Inr (filter (\<lambda>rec. is_live rec now) (map (the \<circ> T) (sorted_list_of_set (dom T))))"
    using id_scan_leases [OF assms] by (simp add: all_live_def rbind_assoc [symmetric])
  moreover have "set (map (the \<circ> T) (sorted_list_of_set (dom T))) = ran T"
    by (auto simp: ran_def dom_def image_iff) force
  ultimately show ?thesis using that by auto
qed

subsection \<open>Effect of a batch on the table\<close>

definition norm_lease :: "LeaseRecord \<Rightarrow> LeaseRecord" where
  "norm_lease rec = rec\<lparr>lr_ttl := from_millis (millis_u64 (lr_ttl rec))\<rparr>"

definition wf_lease :: "LeaseRecord \<Rightarrow> bool" where
  "wf_lease rec \<longleftrightarrow> wf_key (lr_prefix rec) \<and> wf_id (lr_device rec) \<and> wf_stamp (lr_requested_at rec)"

lemma encode_norm_lease: "LeaseRecord_encode (norm_lease rec) = LeaseRecord_encode rec"
  by (simp add: LeaseRecord_encode_def norm_lease_def millis_u64_from_millis)

lemma valid_norm_lease: "wf_lease rec \<Longrightarrow> valid_lease (norm_lease rec)"
  by (simp add: valid_lease_def wf_lease_def norm_lease_def millis_u64_from_millis)

lemma norm_valid_lease: "valid_lease rec \<Longrightarrow> norm_lease rec = rec \<and> wf_lease rec"
  by (simp add: valid_lease_def wf_lease_def norm_lease_def)

lemma norm_lease_simps [simp]:
  "lr_id (norm_lease rec) = lr_id rec" "lr_prefix (norm_lease rec) = lr_prefix rec"
  "lr_mode (norm_lease rec) = lr_mode rec" "lr_device (norm_lease rec) = lr_device rec"
  "lr_deadline (norm_lease rec) = lr_deadline rec" "is_live (norm_lease rec) now = is_live rec now"
  by (simp_all add: norm_lease_def is_live_def)

text \<open>A lease batch is a sequence of grants (\<open>Inr\<close>) and purges (\<open>Inl\<close>).\<close>

definition lease_op :: "SpaceId \<Rightarrow> LeaseRecord + LeaseRecord \<Rightarrow> WriteBatch" where
  "lease_op space t = (case t of
     Inr rec \<Rightarrow> [Put (skey_bytes space (KLeaseById (lr_id rec))) (LeaseRecord_encode rec),
       Put (skey_bytes space (KLeaseByPrefix (lr_prefix rec) (lr_id rec))) (LeaseRecord_encode rec)]
   | Inl rec \<Rightarrow> [Del (skey_bytes space (KLeaseById (lr_id rec))),
       Del (skey_bytes space (KLeaseByPrefix (lr_prefix rec) (lr_id rec)))])"

definition lease_ops :: "SpaceId \<Rightarrow> (LeaseRecord + LeaseRecord) list \<Rightarrow> WriteBatch" where
  "lease_ops space ts = concat (map (lease_op space) ts)"

fun op_lease :: "LeaseRecord + LeaseRecord \<Rightarrow> LeaseRecord" where
  "op_lease (Inr rec) = rec"
| "op_lease (Inl rec) = rec"

fun table_op :: "LeaseRecord + LeaseRecord \<Rightarrow> (LeaseId \<rightharpoonup> LeaseRecord) \<Rightarrow> (LeaseId \<rightharpoonup> LeaseRecord)" where
  "table_op (Inr rec) T = T(lr_id rec \<mapsto> norm_lease rec)"
| "table_op (Inl rec) T = T(lr_id rec := None)"

definition table_ops :: "(LeaseRecord + LeaseRecord) list \<Rightarrow> (LeaseId \<rightharpoonup> LeaseRecord) \<Rightarrow> (LeaseId \<rightharpoonup> LeaseRecord)" where
  "table_ops ts T = fold table_op ts T"

lemma lease_ops_append [simp]: "lease_ops space (ts @ us) = lease_ops space ts @ lease_ops space us"
  and lease_ops_Nil [simp]: "lease_ops space [] = []"
  by (simp_all add: lease_ops_def)

lemma table_ops_simps [simp]:
  "table_ops [] T = T" "table_ops (t # ts) T = table_ops ts (table_op t T)"
  "table_ops (ts @ us) T = table_ops us (table_ops ts T)"
  by (simp_all add: table_ops_def)

lemma put_records_eq: "put_records mgr (lease_ops (lm_space mgr) ts) rec = lease_ops (lm_space mgr) (ts @ [Inr rec])"
  by (simp add: put_records_def lease_ops_def lease_op_def WriteBatch_put_def skey_bytes_eqs Let_def)

lemma purge_records_eq:
  "purge_records mgr (lease_ops (lm_space mgr) ts) recs = lease_ops (lm_space mgr) (ts @ map Inl recs)"
proof -
  have "purge_records mgr batch recs = batch @ concat (map (\<lambda>rec. lease_op (lm_space mgr) (Inl rec)) recs)" for batch
    unfolding purge_records_def
    by (induction recs arbitrary: batch) (simp_all add: WriteBatch_delete_def lease_op_def skey_bytes_eqs)
  then show ?thesis by (simp add: lease_ops_def comp_def)
qed

definition lease_keys :: "skey set" where
  "lease_keys = {s. (\<exists>lid. s = KLeaseById lid) \<or> (\<exists>p lid. s = KLeaseByPrefix p lid)}"

lemma lease_keys_simps [simp]: "KLeaseById lid \<in> lease_keys" "KLeaseByPrefix p lid \<in> lease_keys" "KCounters \<notin> lease_keys"
  by (auto simp: lease_keys_def)

lemma lease_ops_within:
  "\<forall>t \<in> set ts. wf_key (lr_prefix (op_lease t)) \<Longrightarrow> batch_within space lease_keys (lease_ops space ts)"
proof (induction ts)
  case (Cons t ts)
  moreover have "batch_within space lease_keys (lease_op space t)" if "wf_key (lr_prefix (op_lease t))"
    using that by (cases t) (simp_all add: lease_op_def within_key)
  ultimately show ?case by (simp add: lease_ops_def)
qed simp

lemma lease_repr_op:
  assumes "bt_wf st" "lease_repr space st T" "wf_lease (op_lease t)"
    and "\<And>r. T (lr_id (op_lease t)) = Some r \<Longrightarrow> lr_prefix r = lr_prefix (op_lease t)"
  shows "lease_repr space (MemoryStore_apply (lease_op space t) st) (table_op t T)"
proof -
  have byid: "sget space (MemoryStore_apply (lease_op space t) st) (KLeaseById lid) =
      map_option LeaseRecord_encode (table_op t T lid)" for lid
    using lease_reprD(1) [OF assms(2), of lid]
    by (cases t) (auto simp: sget_apply assms(1) lease_op_def skey_bytes_inject encode_norm_lease
        skey_bytes_def skey_suffix_inject simp del: encode_components_Cons)
  have wf: "wf_key (lr_prefix (op_lease t))" using assms(3) by (simp add: wf_lease_def)
  have bypre: "sget space (MemoryStore_apply (lease_op space t) st) (KLeaseByPrefix p lid) =
      (case table_op t T lid of None \<Rightarrow> None | Some rec \<Rightarrow> if lr_prefix rec = p then Some (LeaseRecord_encode rec) else None)"
    if "wf_key p" for p lid
  proof -
    have "sget space st (KLeaseByPrefix p lid) =
        (case T lid of None \<Rightarrow> None | Some rec \<Rightarrow> if lr_prefix rec = p then Some (LeaseRecord_encode rec) else None)"
      using assms(2) that by (simp add: lease_repr_def)
    moreover have "skey_bytes space (KLeaseByPrefix p lid) \<noteq> skey_bytes space (KLeaseById j)" for j
      using that by (simp add: skey_bytes_inject)
    moreover have "skey_bytes space (KLeaseByPrefix p lid) = skey_bytes space (KLeaseByPrefix (lr_prefix (op_lease t)) (lr_id (op_lease t)))
        \<longleftrightarrow> p = lr_prefix (op_lease t) \<and> lid = lr_id (op_lease t)"
      using that wf by (simp add: skey_bytes_inject)
    ultimately show ?thesis
      using assms(4) by (cases t) (auto simp: sget_apply assms(1) lease_op_def encode_norm_lease split: option.splits)
  qed
  have "lr_id rec = lid \<and> valid_lease rec" if "table_op t T lid = Some rec" for lid rec
    using that lease_reprD(3,4) [OF assms(2)] assms(3) by (cases t) (auto simp: valid_norm_lease split: if_splits)
  with byid bypre show ?thesis unfolding lease_repr_def by blast
qed

lemma lease_repr_ops:
  assumes "bt_wf st" "lease_repr space st T" "\<forall>t \<in> set ts. wf_lease (op_lease t) \<and> lr_prefix (op_lease t) = pf (lr_id (op_lease t))"
    and "\<forall>r \<in> ran T. lr_prefix r = pf (lr_id r)"
  shows "lease_repr space (MemoryStore_apply (lease_ops space ts) st) (table_ops ts T)"
  using assms
proof (induction ts arbitrary: st T)
  case (Cons t ts)
  have pf: "lr_prefix r = pf lid" if "T lid = Some r" for lid r
    using Cons.prems(4) lease_reprD(3) [OF Cons.prems(2) that] that by (auto simp: ran_def)
  have step: "lease_repr space (MemoryStore_apply (lease_op space t) st) (table_op t T)"
    using Cons.prems(1-3) pf by (intro lease_repr_op) auto
  have "lr_prefix r = pf (lr_id r)" if r: "r \<in> ran (table_op t T)" for r
  proof (cases t)
    case (Inl rec)
    with r Cons.prems(4) show ?thesis by (auto simp: ran_def split: if_splits)
  next
    case (Inr rec)
    with r Cons.prems(3,4) show ?thesis by (auto simp: ran_def split: if_splits)
  qed
  then have "lease_repr space (MemoryStore_apply (lease_ops space ts) (MemoryStore_apply (lease_op space t) st)) (table_ops ts (table_op t T))"
    using Cons.prems(1,3) step by (intro Cons.IH) auto
  then show ?case by (simp add: lease_ops_def MemoryStore_apply_append)
qed (simp add: MemoryStore_apply_def)

subsection \<open>Acquire\<close>

definition lease_ctx :: "LeaseManager \<Rightarrow> MemoryStore \<Rightarrow> (LeaseId \<rightharpoonup> LeaseRecord) \<Rightarrow> bool" where
  "lease_ctx mgr st T \<longleftrightarrow> bt_wf st \<and> keys_ok (lm_space mgr) st \<and> lease_repr (lm_space mgr) st T"

definition key_overlap :: "key \<Rightarrow> key \<Rightarrow> bool" where
  "key_overlap a b \<longleftrightarrow> prefix a b \<or> prefix b a"

definition dead_leases :: "Timestamp \<Rightarrow> (LeaseId \<rightharpoonup> LeaseRecord) \<Rightarrow> LeaseRecord set" where
  "dead_leases now T = {rec \<in> ran T. \<not> is_live rec now}"

definition blocking :: "Timestamp \<Rightarrow> (LeaseId \<rightharpoonup> LeaseRecord) \<Rightarrow> LeaseSpec \<Rightarrow> LeaseRecord set" where
  "blocking now T spec = {rec \<in> ran T. is_live rec now \<and> key_overlap (lr_prefix rec) (ls_prefix spec) \<and>
     \<not> compatible_with (ls_mode spec) (lr_mode rec)}"

definition purged :: "Timestamp \<Rightarrow> (LeaseId \<rightharpoonup> LeaseRecord) \<Rightarrow> (LeaseId \<rightharpoonup> LeaseRecord) \<Rightarrow> bool" where
  "purged now T T' \<longleftrightarrow> (\<forall>lid. T' lid = T lid \<or> T' lid = None \<and> (\<exists>rec. T lid = Some rec \<and> \<not> is_live rec now))"

definition exclusive :: "Timestamp \<Rightarrow> (LeaseId \<rightharpoonup> LeaseRecord) \<Rightarrow> bool" where
  "exclusive now T \<longleftrightarrow> (\<forall>i j a b. T i = Some a \<and> T j = Some b \<and> i \<noteq> j \<and> is_live a now \<and> is_live b now \<and>
     key_overlap (lr_prefix a) (lr_prefix b) \<longrightarrow> compatible_with (lr_mode a) (lr_mode b))"

definition fresh_ids :: "u64 \<Rightarrow> (LeaseId \<rightharpoonup> LeaseRecord) \<Rightarrow> bool" where
  "fresh_ids next T \<longleftrightarrow> (\<forall>lid \<in> dom T. lid < next)"

lemma key_overlap_sym: "key_overlap a b \<longleftrightarrow> key_overlap b a"
  by (auto simp: key_overlap_def)

lemma purgedD: "purged now T T' \<Longrightarrow> T' lid = Some rec \<Longrightarrow> T lid = Some rec"
  unfolding purged_def by (metis option.distinct(1))

lemma purged_kept: "purged now T T' \<Longrightarrow> T lid = Some rec \<Longrightarrow> is_live rec now \<Longrightarrow> T' lid = Some rec"
  unfolding purged_def by (metis option.inject)

lemma purged_refl [simp]: "purged now T T"
  by (simp add: purged_def)

lemma purged_exclusive: "purged now T T' \<Longrightarrow> exclusive now T \<Longrightarrow> exclusive now T'"
  unfolding exclusive_def by (blast dest: purgedD)

lemma purged_fresh: "purged now T T' \<Longrightarrow> fresh_ids n T \<Longrightarrow> fresh_ids n T'"
  unfolding fresh_ids_def by (blast dest: purgedD)

lemma fresh_idsD: "fresh_ids n T \<Longrightarrow> n \<le> lid \<Longrightarrow> T lid = None"
  unfolding fresh_ids_def by (meson domIff leD)

lemma exclusive_later: "exclusive now T \<Longrightarrow> now \<le> later \<Longrightarrow> exclusive later T"
  unfolding exclusive_def is_live_def by (blast dest: le_less_trans)

lemma table_ops_Inl: "table_ops (map Inl recs) T lid = (if lid \<in> lr_id ` set recs then None else T lid)"
  by (induction recs arbitrary: T) auto

lemma lease_table_inj: "lease_repr space st T \<Longrightarrow> rec \<in> ran T \<Longrightarrow> T (lr_id rec) = Some rec"
  using lease_reprD(3) by (fastforce simp: ran_def)

lemma purged_dead:
  "lease_repr space st T \<Longrightarrow> set recs \<subseteq> dead_leases now T \<Longrightarrow> purged now T (table_ops (map Inl recs) T)"
  unfolding purged_def
proof
  fix lid
  assume repr: "lease_repr space st T" and dead: "set recs \<subseteq> dead_leases now T"
  show "table_ops (map Inl recs) T lid = T lid \<or>
      table_ops (map Inl recs) T lid = None \<and> (\<exists>rec. T lid = Some rec \<and> \<not> is_live rec now)"
  proof (cases "lid \<in> lr_id ` set recs")
    case True
    then obtain rec where "rec \<in> set recs" "lid = lr_id rec" by blast
    with dead lease_table_inj [OF repr, of rec] show ?thesis by (auto simp: dead_leases_def table_ops_Inl)
  qed (simp add: table_ops_Inl)
qed

lemma lease_ctx_purge:
  assumes ctx: "lease_ctx mgr st T" and dead: "set recs \<subseteq> dead_leases now T"
  shows "lease_ctx mgr (MemoryStore_apply (lease_ops (lm_space mgr) (map Inl recs)) st) (table_ops (map Inl recs) T)"
proof -
  have repr: "lease_repr (lm_space mgr) st T" and wf: "bt_wf st" "keys_ok (lm_space mgr) st"
    using ctx by (simp_all add: lease_ctx_def)
  have mem: "rec \<in> ran T \<Longrightarrow> wf_lease rec \<and> lr_prefix rec = (\<lambda>lid. lr_prefix (the (T lid))) (lr_id rec)" for rec
    using lease_table_inj [OF repr] lease_reprD(4) [OF repr] norm_valid_lease by fastforce
  have "lease_repr (lm_space mgr) (MemoryStore_apply (lease_ops (lm_space mgr) (map Inl recs)) st) (table_ops (map Inl recs) T)"
    using dead mem by (intro lease_repr_ops [OF wf(1) repr]) (auto simp: dead_leases_def)
  moreover have "batch_within (lm_space mgr) lease_keys (lease_ops (lm_space mgr) (map Inl recs))"
    using dead mem by (intro lease_ops_within) (auto simp: dead_leases_def wf_lease_def)
  ultimately show ?thesis
    using wf keys_ok_apply by (auto simp: lease_ctx_def)
qed

lemma acquire_conflicts_Inr:
  assumes ctx: "lease_ctx mgr st T" and specs: "\<forall>spec \<in> set specs. wf_key (ls_prefix spec)"
    and dead: "set recs \<subseteq> dead_leases now T"
    and res: "acquire_conflicts mgr st now specs (lease_ops (lm_space mgr) (map Inl recs)) = Inr purge"
  shows "\<exists>recs'. purge = lease_ops (lm_space mgr) (map Inl recs') \<and> set recs' \<subseteq> dead_leases now T \<and>
    (\<forall>spec \<in> set specs. blocking now T spec = {})"
  using specs dead res
proof (induction specs arbitrary: recs)
  case (Cons spec specs)
  have c: "bt_wf st" "keys_ok (lm_space mgr) st" "lease_repr (lm_space mgr) st T"
    using ctx by (simp_all add: lease_ctx_def)
  obtain live dead where ov: "overlapping mgr st now (ls_prefix spec) = Inr (live, dead)"
    and live: "set live = {rec \<in> ran T. is_live rec now \<and> (prefix (lr_prefix rec) (ls_prefix spec) \<or> prefix (ls_prefix spec) (lr_prefix rec))}"
    and dd: "set dead = {rec \<in> ran T. \<not> is_live rec now \<and> (prefix (lr_prefix rec) (ls_prefix spec) \<or> prefix (ls_prefix spec) (lr_prefix rec))}"
    using overlapping_exact [OF c, of "ls_prefix spec" now] Cons.prems(1) by auto
  let ?bl = "filter (\<lambda>rec. \<not> compatible_with (ls_mode spec) (lr_mode rec)) live"
  have none: "?bl = []" and rest: "acquire_conflicts mgr st now specs (lease_ops (lm_space mgr) (map Inl (recs @ dead))) = Inr purge"
    using Cons.prems(3) ov by (auto simp: Let_def purge_records_eq split: if_splits)
  have "set ?bl = blocking now T spec" using live by (auto simp: blocking_def key_overlap_def)
  with none have "blocking now T spec = {}" by simp
  moreover have "set (recs @ dead) \<subseteq> dead_leases now T" using Cons.prems(2) dd by (auto simp: dead_leases_def)
  ultimately show ?case using Cons.IH [OF _ _ rest] Cons.prems(1) by auto
qed auto

lemma acquire_conflicts_Inl:
  assumes ctx: "lease_ctx mgr st T" and specs: "\<forall>spec \<in> set specs. wf_key (ls_prefix spec)"
    and dead: "set recs \<subseteq> dead_leases now T"
    and res: "acquire_conflicts mgr st now specs (lease_ops (lm_space mgr) (map Inl recs)) = Inl (err, mgr', st')"
  shows "\<exists>recs' spec bl. st' = MemoryStore_apply (lease_ops (lm_space mgr) (map Inl recs')) st \<and>
    set recs' \<subseteq> dead_leases now T \<and> spec \<in> set specs \<and> find (\<lambda>spec. blocking now T spec \<noteq> {}) specs = Some spec \<and>
    bl \<noteq> [] \<and> set bl = blocking now T spec \<and>
    err = Kernel (Contended (ls_prefix spec) (Some (from_millis (sat_sub64 (foldr max (map lr_deadline bl) 0) now)))) \<and>
    mgr' = mgr\<lparr>lm_demand := lm_demand mgr \<union> lr_id ` set bl\<rparr>"
  using specs dead res
proof (induction specs arbitrary: recs)
  case (Cons spec specs)
  have c: "bt_wf st" "keys_ok (lm_space mgr) st" "lease_repr (lm_space mgr) st T"
    using ctx by (simp_all add: lease_ctx_def)
  obtain live dead where ov: "overlapping mgr st now (ls_prefix spec) = Inr (live, dead)"
    and live: "set live = {rec \<in> ran T. is_live rec now \<and> (prefix (lr_prefix rec) (ls_prefix spec) \<or> prefix (ls_prefix spec) (lr_prefix rec))}"
    and dd: "set dead = {rec \<in> ran T. \<not> is_live rec now \<and> (prefix (lr_prefix rec) (ls_prefix spec) \<or> prefix (ls_prefix spec) (lr_prefix rec))}"
    using overlapping_exact [OF c, of "ls_prefix spec" now] Cons.prems(1) by auto
  let ?bl = "filter (\<lambda>rec. \<not> compatible_with (ls_mode spec) (lr_mode rec)) live"
  have sd: "set (recs @ dead) \<subseteq> dead_leases now T" using Cons.prems(2) dd by (auto simp: dead_leases_def)
  have bl: "set ?bl = blocking now T spec" using live by (auto simp: blocking_def key_overlap_def)
  show ?case
  proof (cases "?bl = []")
    case True
    then have rest: "acquire_conflicts mgr st now specs (lease_ops (lm_space mgr) (map Inl (recs @ dead))) = Inl (err, mgr', st')"
      using Cons.prems(3) ov by (simp add: purge_records_eq)
    have "\<forall>spec \<in> set specs. wf_key (ls_prefix spec)" using Cons.prems(1) by simp
    moreover have "find (\<lambda>spec. blocking now T spec \<noteq> {}) (spec # specs) = find (\<lambda>spec. blocking now T spec \<noteq> {}) specs"
      using True bl by simp
    ultimately show ?thesis using Cons.IH [OF _ sd rest] by (metis list.set_intros(2))
  next
    case False
    then have "err = Kernel (Contended (ls_prefix spec) (Some (from_millis (sat_sub64 (foldr max (map lr_deadline ?bl) 0) now)))) \<and>
        mgr' = mgr\<lparr>lm_demand := lm_demand mgr \<union> lr_id ` set ?bl\<rparr> \<and>
        st' = MemoryStore_apply (lease_ops (lm_space mgr) (map Inl (recs @ dead))) st"
      using Cons.prems(3) ov by (auto simp: purge_records_eq Let_def)
    moreover have "find (\<lambda>spec. blocking now T spec \<noteq> {}) (spec # specs) = Some spec" using False bl by auto
    ultimately show ?thesis using False sd bl
      by (intro exI [of _ "recs @ dead"] exI [of _ spec] exI [of _ ?bl]) auto
  qed
qed simp

fun granted_records :: "Timestamp \<Rightarrow> AcquireRequest \<Rightarrow> CountersRecord \<Rightarrow> LeaseSpec list \<Rightarrow> LeaseRecord list" where
  "granted_records now req c [] = []"
| "granted_records now req c (spec # specs) =
     granted_record now req c spec # granted_records now req (c\<lparr>next_lease_id := next_lease_id c + 1\<rparr>) specs"

lemma acquire_grant_eq:
  "acquire_grant mgr now req specs (c, lease_ops (lm_space mgr) ts, leases) =
     (c\<lparr>next_lease_id := next_lease_id c + of_nat (length specs)\<rparr>,
      lease_ops (lm_space mgr) (ts @ map Inr (granted_records now req c specs)),
      leases @ map public_lease (granted_records now req c specs))"
proof (induction specs arbitrary: c ts leases)
  case (Cons spec specs)
  show ?case
    using Cons.IH [of "c\<lparr>next_lease_id := next_lease_id c + 1\<rparr>" "ts @ [Inr (granted_record now req c spec)]"]
    by (simp add: put_records_eq Let_def add.assoc)
qed simp

lemma length_granted_records [simp]: "length (granted_records now req c specs) = length specs"
  by (induction specs arbitrary: c) auto

lemma granted_records_nth:
  "i < length specs \<Longrightarrow>
   granted_records now req c specs ! i = granted_record now req (c\<lparr>next_lease_id := next_lease_id c + of_nat i\<rparr>) (specs ! i)"
proof (induction specs arbitrary: c i)
  case (Cons spec specs)
  then show ?case by (cases i) (auto simp: add.assoc)
qed simp

lemma granted_record_simps [simp]:
  "lr_id (granted_record now req c spec) = next_lease_id c" "lr_prefix (granted_record now req c spec) = ls_prefix spec"
  "lr_mode (granted_record now req c spec) = ls_mode spec" "lr_device (granted_record now req c spec) = aq_device req"
  "lr_requested_at (granted_record now req c spec) = aq_requested_at req"
  by (simp_all add: granted_record_def)

lemma granted_ids:
  assumes "unat (next_lease_id c) + length specs < 2 ^ 64" "i < length specs"
  shows "unat (lr_id (granted_records now req c specs ! i)) = unat (next_lease_id c) + i"
  using assms of_nat_add_u64 [of "next_lease_id c" i] by (simp add: granted_records_nth)

lemma table_ops_Inr:
  assumes "distinct (map lr_id recs)"
  shows "table_ops (map Inr recs) T = T ++ map_of (map (\<lambda>rec. (lr_id rec, norm_lease rec)) recs)"
  using assms
proof (induction recs arbitrary: T)
  case (Cons rec recs)
  have "lr_id rec \<notin> dom (map_of (map (\<lambda>rec. (lr_id rec, norm_lease rec)) recs))"
    using Cons.prems by (auto simp: dom_map_of_conv_image_fst image_image)
  then show ?case using Cons by (auto simp: map_add_def fun_eq_iff domIff split: option.splits)
qed simp

lemma distinct_granted:
  assumes "unat (next_lease_id c) + length specs < 2 ^ 64"
  shows "distinct (map lr_id (granted_records now req c specs))"
proof -
  have "lr_id (granted_records now req c specs ! i) \<noteq> lr_id (granted_records now req c specs ! j)"
    if "i < length specs" "j < length specs" "i \<noteq> j" for i j
    using that granted_ids [OF assms, of i now req] granted_ids [OF assms, of j now req] by auto
  then show ?thesis by (simp add: distinct_conv_nth)
qed

lemma self_overlap_None:
  "acquire_self_overlap specs = None \<longleftrightarrow>
     (\<forall>i j. i < j \<and> j < length specs \<and> key_overlap (ls_prefix (specs ! i)) (ls_prefix (specs ! j)) \<longrightarrow>
        compatible_with (ls_mode (specs ! i)) (ls_mode (specs ! j)))"
proof (induction specs)
  case (Cons a specs)
  have "acquire_self_overlap (a # specs) = None \<longleftrightarrow>
      (\<forall>b \<in> set specs. key_overlap (ls_prefix a) (ls_prefix b) \<longrightarrow> compatible_with (ls_mode a) (ls_mode b)) \<and>
      acquire_self_overlap specs = None"
    by (auto simp: find_None_iff key_overlap_def Key_starts_with_def split: option.splits) (auto simp: find_Some_iff)
  also have "\<dots> \<longleftrightarrow> (\<forall>i j. i < j \<and> j < length (a # specs) \<and>
      key_overlap (ls_prefix ((a # specs) ! i)) (ls_prefix ((a # specs) ! j)) \<longrightarrow>
      compatible_with (ls_mode ((a # specs) ! i)) (ls_mode ((a # specs) ! j)))"
    (is "?l \<longleftrightarrow> ?r")
  proof
    assume ?l
    show ?r
    proof (intro allI impI, elim conjE)
      fix i j
      assume ij: "i < j" "j < length (a # specs)"
        and ov: "key_overlap (ls_prefix ((a # specs) ! i)) (ls_prefix ((a # specs) ! j))"
      obtain j' where j: "j = Suc j'" "j' < length specs" using ij by (cases j) auto
      show "compatible_with (ls_mode ((a # specs) ! i)) (ls_mode ((a # specs) ! j))"
        using \<open>?l\<close> ij ov j Cons.IH by (cases i) auto
    qed
  next
    assume r: ?r
    have "compatible_with (ls_mode a) (ls_mode b)" if "b \<in> set specs" "key_overlap (ls_prefix a) (ls_prefix b)" for b
    proof -
      from that obtain j where "j < length specs" "b = specs ! j" by (auto simp: in_set_conv_nth)
      with r [rule_format, of 0 "Suc j"] that show ?thesis by simp
    qed
    moreover have "acquire_self_overlap specs = None"
      unfolding Cons.IH
    proof (intro allI impI)
      fix i j
      assume "i < j \<and> j < length specs \<and> key_overlap (ls_prefix (specs ! i)) (ls_prefix (specs ! j))"
      with r [rule_format, of "Suc i" "Suc j"] show "compatible_with (ls_mode (specs ! i)) (ls_mode (specs ! j))" by simp
    qed
    ultimately show ?l by blast
  qed
  finally show ?case .
qed simp

definition granted_table :: "LeaseRecord list \<Rightarrow> (LeaseId \<rightharpoonup> LeaseRecord) \<Rightarrow> (LeaseId \<rightharpoonup> LeaseRecord)" where
  "granted_table recs T = T ++ map_of (map (\<lambda>rec. (lr_id rec, norm_lease rec)) recs)"

lemma granted_table_Some:
  "granted_table recs T lid = Some rec \<Longrightarrow>
   (\<exists>i < length recs. lid = lr_id (recs ! i) \<and> rec = norm_lease (recs ! i)) \<or> T lid = Some rec"
proof -
  assume "granted_table recs T lid = Some rec"
  then have "(lid, rec) \<in> set (map (\<lambda>rec. (lr_id rec, norm_lease rec)) recs) \<or> T lid = Some rec"
    by (auto simp: granted_table_def map_add_Some_iff dest!: map_of_SomeD)
  then show ?thesis by (auto simp: set_conv_nth)
qed

lemma exclusive_granted:
  assumes ex: "exclusive now T" and nb: "\<forall>spec \<in> set specs. blocking now T spec = {}"
    and self: "acquire_self_overlap specs = None"
  shows "exclusive now (granted_table (granted_records now req c specs) T)"
  unfolding exclusive_def
proof (intro allI impI, elim conjE)
  let ?recs = "granted_records now req c specs"
  fix i j a b
  assume a: "granted_table ?recs T i = Some a" and b: "granted_table ?recs T j = Some b" and ij: "i \<noteq> j"
    and live: "is_live a now" "is_live b now" and ov: "key_overlap (lr_prefix a) (lr_prefix b)"
  have new_new: "compatible_with (ls_mode (specs ! m)) (ls_mode (specs ! n))"
    if "m < length specs" "n < length specs" "m \<noteq> n" "key_overlap (ls_prefix (specs ! m)) (ls_prefix (specs ! n))" for m n
  proof (cases "m < n")
    case True
    then show ?thesis using self that unfolding self_overlap_None by blast
  next
    case False
    then have "n < m" using that(3) by simp
    then show ?thesis
      using self that unfolding self_overlap_None by (metis compatible_with_sym key_overlap_sym)
  qed
  have new_old: "compatible_with (ls_mode (specs ! m)) (lr_mode r)"
    if "m < length specs" "T l = Some r" "is_live r now" "key_overlap (lr_prefix r) (ls_prefix (specs ! m))" for m l r
  proof (rule ccontr)
    assume "\<not> ?thesis"
    with that have "r \<in> blocking now T (specs ! m)" by (auto simp: blocking_def ran_def)
    with nb that(1) show False by auto
  qed
  from granted_table_Some [OF a] granted_table_Some [OF b]
  show "compatible_with (lr_mode a) (lr_mode b)"
  proof (elim disjE exE conjE)
    fix m n
    assume mn: "m < length ?recs" "n < length ?recs" "i = lr_id (?recs ! m)" "j = lr_id (?recs ! n)"
      "a = norm_lease (?recs ! m)" "b = norm_lease (?recs ! n)"
    then have "m \<noteq> n" using ij by auto
    with mn ov show ?thesis using new_new [of m n] by (simp add: granted_records_nth)
  next
    fix m
    assume mn: "m < length ?recs" "a = norm_lease (?recs ! m)" "T j = Some b"
    with ov live show ?thesis using new_old [of m j b] by (simp add: granted_records_nth key_overlap_sym)
  next
    fix n
    assume mn: "n < length ?recs" "b = norm_lease (?recs ! n)" "T i = Some a"
    with ov live show ?thesis using new_old [of n i a] by (simp add: granted_records_nth compatible_with_sym)
  next
    assume "T i = Some a" "T j = Some b"
    with ex ij live ov show ?thesis unfolding exclusive_def by blast
  qed
qed

lemma blocking_purged: "purged now T T1 \<Longrightarrow> blocking now T spec = {} \<Longrightarrow> blocking now T1 spec = {}"
  unfolding blocking_def ran_def by (blast dest: purgedD)

definition wf_acquire :: "AcquireRequest \<Rightarrow> bool" where
  "wf_acquire req \<longleftrightarrow> wf_id (aq_device req) \<and> wf_stamp (aq_requested_at req) \<and> (\<forall>spec \<in> set (aq_specs req). wf_key (ls_prefix spec))"

lemma granted_wf:
  assumes "wf_acquire req" "rec \<in> set (granted_records now req c specs)" "set specs \<subseteq> set (aq_specs req)"
  shows "wf_lease rec"
proof -
  from assms(2) obtain i where "i < length specs" "rec = granted_records now req c specs ! i"
    by (auto simp: in_set_conv_nth)
  moreover from this have "specs ! i \<in> set (aq_specs req)" using assms(3) nth_mem by blast
  ultimately show ?thesis using assms(1) by (simp add: granted_records_nth wf_lease_def wf_acquire_def)
qed

lemma lease_ctx_grant:
  assumes ctx: "lease_ctx mgr st T" and fresh: "fresh_ids (next_lease_id c) T"
    and small: "unat (next_lease_id c) + length specs < 2 ^ 64"
    and req: "wf_acquire req" "set specs \<subseteq> set (aq_specs req)"
  shows "lease_ctx mgr (MemoryStore_apply (lease_ops (lm_space mgr) (map Inr (granted_records now req c specs))) st)
    (granted_table (granted_records now req c specs) T)"
proof -
  let ?recs = "granted_records now req c specs"
  have repr: "lease_repr (lm_space mgr) st T" and wf: "bt_wf st" "keys_ok (lm_space mgr) st"
    using ctx by (simp_all add: lease_ctx_def)
  define pf where "pf lid = (case T lid of Some r \<Rightarrow> lr_prefix r | None \<Rightarrow> lr_prefix (the (map_of (map (\<lambda>r. (lr_id r, r)) ?recs) lid)))" for lid
  have "lr_prefix r = pf (lr_id r)" if r: "r \<in> set ?recs" for r
  proof -
    from r obtain i where i: "i < length specs" "r = ?recs ! i" by (auto simp: in_set_conv_nth)
    then have "next_lease_id c \<le> lr_id r"
      using granted_ids [OF small i(1), of now req] by (simp add: word_le_nat_alt)
    with fresh have "T (lr_id r) = None" by (rule fresh_idsD)
    moreover have "map_of (map (\<lambda>r. (lr_id r, r)) ?recs) (lr_id r) = Some r"
      using distinct_granted [OF small, of now req] r by (intro map_of_is_SomeI) (auto simp: comp_def)
    ultimately show ?thesis by (simp add: pf_def)
  qed
  moreover have "lr_prefix r = pf (lr_id r)" if "r \<in> ran T" for r
    using lease_table_inj [OF repr that] by (simp add: pf_def)
  ultimately have "lease_repr (lm_space mgr) (MemoryStore_apply (lease_ops (lm_space mgr) (map Inr ?recs)) st) (table_ops (map Inr ?recs) T)"
    using granted_wf [OF req(1) _ req(2)] by (intro lease_repr_ops [OF wf(1) repr, where pf = pf]) auto
  moreover have "batch_within (lm_space mgr) lease_keys (lease_ops (lm_space mgr) (map Inr ?recs))"
    using granted_wf [OF req(1) _ req(2)] by (intro lease_ops_within) (auto simp: wf_lease_def)
  ultimately show ?thesis
    using wf keys_ok_apply by (auto simp: lease_ctx_def granted_table_def table_ops_Inr [OF distinct_granted [OF small]])
qed

lemma foldr_max_ge: "x \<in> set xs \<Longrightarrow> x \<le> foldr max xs (0 :: u64)"
  by (induction xs) (auto simp: le_max_iff_disj)

lemma worst_deadline_expires:
  assumes "rec \<in> set bl" "is_live rec now"
  shows "\<not> is_live rec (now + sat_sub64 (foldr max (map lr_deadline bl) 0) now)"
proof -
  let ?w = "foldr max (map lr_deadline bl) 0"
  have "lr_deadline rec \<le> ?w" using assms(1) by (intro foldr_max_ge) auto
  moreover have "now < ?w" using calculation assms(2) by (simp add: is_live_def)
  ultimately show ?thesis by (simp add: is_live_def sat_sub64_def not_less less_imp_le)
qed

subsection \<open>Verbs leave the counters and every other record alone\<close>

lemma counters_frame:
  "bt_wf st \<Longrightarrow> batch_within space lease_keys ops \<Longrightarrow> counters space (MemoryStore_apply ops st) = counters space st"
  using sget_frame [of st space lease_keys ops KCounters space]
  by (simp add: counters_def skey_bytes_eqs sget_def)

lemma counters_put:
  "bt_wf st \<Longrightarrow> counters space (MemoryStore_apply (WriteBatch_put (counters_key space) (CountersRecord_encode c) ops) st) = Inr c"
  by (simp add: counters_def MemoryStore_get_apply WriteBatch_put_def read_with_def counters.decode_encode)

lemma lease_ctx_counters:
  assumes "lease_ctx mgr st T"
  shows "lease_ctx mgr (MemoryStore_apply [Put (counters_key (lm_space mgr)) v] st) T"
proof -
  have c: "bt_wf st" "keys_ok (lm_space mgr) st" "lease_repr (lm_space mgr) st T"
    using assms by (simp_all add: lease_ctx_def)
  have within: "batch_within (lm_space mgr) {KCounters} [Put (counters_key (lm_space mgr)) v]"
    by (simp add: skey_bytes_eqs)
  have same: "sget (lm_space mgr) (MemoryStore_apply [Put (counters_key (lm_space mgr)) v] st) s = sget (lm_space mgr) st s"
    if "wf_skey s" "s \<noteq> KCounters" for s
    using sget_frame [OF c(1) within that(1)] that(2) by simp
  have "lease_repr (lm_space mgr) (MemoryStore_apply [Put (counters_key (lm_space mgr)) v] st) T"
    using c(3) unfolding lease_repr_def by (simp add: same)
  then show ?thesis using c keys_ok_apply [OF c(1,2) within] by (simp add: lease_ctx_def)
qed

lemma acquire_outcome:
  assumes ctx: "lease_ctx mgr st T" and req: "wf_acquire req" and c: "counters (lm_space mgr) st = Inr c"
    and fresh: "fresh_ids (next_lease_id c) T" and ex: "exclusive now T"
    and small: "unat (next_lease_id c) + length (aq_specs req) < 2 ^ 64"
    and run: "LeaseManager_acquire mgr st now req = (res, mgr', st')"
  obtains T1 where "purged now T T1"
    and "(\<forall>spec \<in> set (aq_specs req). blocking now T spec = {}) \<and> acquire_self_overlap (aq_specs req) = None \<and>
        mgr' = mgr \<and> res = Inr (map public_lease (granted_records now req c (aq_specs req))) \<and>
        lease_ctx mgr st' (granted_table (granted_records now req c (aq_specs req)) T1) \<and>
        exclusive now (granted_table (granted_records now req c (aq_specs req)) T1) \<and>
        counters (lm_space mgr) st' = Inr (c\<lparr>next_lease_id := next_lease_id c + of_nat (length (aq_specs req))\<rparr>) \<or>
      lm_space mgr' = lm_space mgr \<and> lease_ctx mgr st' T1 \<and> counters (lm_space mgr) st' = Inr c \<and>
        ((\<exists>spec \<in> set (aq_specs req). \<exists>w. blocking now T spec \<noteq> {} \<and>
            res = Inl (Kernel (Contended (ls_prefix spec) (Some (from_millis w)))) \<and>
            (\<forall>rec \<in> blocking now T spec. \<not> is_live rec (now + w) \<and> lr_id rec \<in> lm_demand mgr')) \<or>
         (\<exists>p. (\<forall>spec \<in> set (aq_specs req). blocking now T spec = {}) \<and> mgr' = mgr \<and>
            acquire_self_overlap (aq_specs req) = Some p \<and> res = Inl (Kernel (Contended p None))))"
    and "\<exists>ops. st' = MemoryStore_apply ops st \<and> batch_within (lm_space mgr) (lease_keys \<union> {KCounters}) ops"
proof -
  let ?space = "lm_space mgr"
  have wf: "bt_wf st" "lease_repr ?space st T" using ctx by (simp_all add: lease_ctx_def)
  have specs: "\<forall>spec \<in> set (aq_specs req). wf_key (ls_prefix spec)" using req by (simp add: wf_acquire_def)
  have deadwf: "wf_key (lr_prefix rec)" if "rec \<in> dead_leases now T" for rec
    using that lease_table_inj [OF wf(2)] lease_reprD(4) [OF wf(2)] by (fastforce simp: dead_leases_def valid_lease_def)
  have within: "batch_within ?space lease_keys (lease_ops ?space (map Inl recs))" if "set recs \<subseteq> dead_leases now T" for recs
    using that deadwf by (intro lease_ops_within) auto
  note within' = batch_within_mono [OF within, of _ "lease_keys \<union> {KCounters}"]
  show ?thesis
  proof (cases "acquire_conflicts mgr st now (aq_specs req) (lease_ops ?space (map Inl []))")
    case (Inl p)
    obtain e m s where p: "p = (e, m, s)" by (cases p)
    from acquire_conflicts_Inl [OF ctx specs, of "[]" now e m s] Inl p
    obtain recs spec bl where st': "s = MemoryStore_apply (lease_ops ?space (map Inl recs)) st"
      and dead: "set recs \<subseteq> dead_leases now T" and spec: "spec \<in> set (aq_specs req)" "bl \<noteq> []" "set bl = blocking now T spec"
      and e: "e = Kernel (Contended (ls_prefix spec) (Some (from_millis (sat_sub64 (foldr max (map lr_deadline bl) 0) now))))"
      and m: "m = mgr\<lparr>lm_demand := lm_demand mgr \<union> lr_id ` set bl\<rparr>"
      by auto
    have r: "res = Inl e" "mgr' = m" "st' = s" using run Inl p by (simp_all add: LeaseManager_acquire_def)
    have "\<forall>rec \<in> blocking now T spec. \<not> is_live rec (now + sat_sub64 (foldr max (map lr_deadline bl) 0) now) \<and> lr_id rec \<in> lm_demand mgr'"
      using spec(3) worst_deadline_expires [of _ bl now] m r by (auto simp: blocking_def)
    moreover have "blocking now T spec \<noteq> {}" using spec(2,3) by auto
    ultimately show ?thesis
      using that [OF purged_dead [OF wf(2) dead]] lease_ctx_purge [OF ctx dead] counters_frame [OF wf(1) within [OF dead]]
        within' [OF dead] c r st' e m spec(1) by auto
  next
    case (Inr purge)
    from acquire_conflicts_Inr [OF ctx specs _ Inr]
    obtain recs where purge: "purge = lease_ops ?space (map Inl recs)" and dead: "set recs \<subseteq> dead_leases now T"
      and nb: "\<forall>spec \<in> set (aq_specs req). blocking now T spec = {}" by auto
    let ?T1 = "table_ops (map Inl recs) T" and ?st1 = "MemoryStore_apply (lease_ops ?space (map Inl recs)) st"
    have p: "purged now T ?T1" by (rule purged_dead [OF wf(2) dead])
    have ctx1: "lease_ctx mgr ?st1 ?T1" by (rule lease_ctx_purge [OF ctx dead])
    show ?thesis
    proof (cases "acquire_self_overlap (aq_specs req)")
      case (Some q)
      then have "res = Inl (Kernel (Contended q None))" "mgr' = mgr" "st' = ?st1"
        using run Inr purge by (auto simp: LeaseManager_acquire_def)
      with Some show ?thesis
        using that [OF p] ctx1 counters_frame [OF wf(1) within [OF dead]] within' [OF dead] c nb by auto
    next
      case None
      let ?recs = "granted_records now req c (aq_specs req)"
      let ?c = "c\<lparr>next_lease_id := next_lease_id c + of_nat (length (aq_specs req))\<rparr>"
      let ?ops = "lease_ops ?space (map Inl recs @ map Inr ?recs)"
      have r: "res = Inr (map public_lease ?recs)" "mgr' = mgr"
        "st' = MemoryStore_apply (WriteBatch_put (counters_key ?space) (CountersRecord_encode ?c) ?ops) st"
        using run Inr None c purge acquire_grant_eq [of mgr now req "aq_specs req" c "map Inl recs" "[]"]
        by (auto simp: LeaseManager_acquire_def)
      have "lease_ctx mgr (MemoryStore_apply (lease_ops ?space (map Inr ?recs)) ?st1) (granted_table ?recs ?T1)"
        using small by (intro lease_ctx_grant [OF ctx1 purged_fresh [OF p fresh] _ req]) auto
      then have "lease_ctx mgr st' (granted_table ?recs ?T1)"
        using lease_ctx_counters r(3) by (simp add: WriteBatch_put_def MemoryStore_apply_append)
      moreover have "exclusive now (granted_table ?recs ?T1)"
        using nb blocking_purged [OF p] None by (intro exclusive_granted purged_exclusive [OF p ex]) auto
      moreover have "batch_within ?space (lease_keys \<union> {KCounters})
          (WriteBatch_put (counters_key ?space) (CountersRecord_encode ?c) ?ops)"
        using within' [OF dead] granted_wf [OF req, of _ now c "aq_specs req"]
          batch_within_mono [OF lease_ops_within, of "map Inr ?recs" "lease_keys \<union> {KCounters}" ?space]
        by (auto simp: WriteBatch_put_def skey_bytes_eqs wf_lease_def)
      ultimately show ?thesis
        using that [OF p] nb None r counters_put [OF wf(1)] by blast
    qed
  qed
qed

subsection \<open>Renew, release, list\<close>

lemma lease_by_id_table: "lease_ctx mgr st T \<Longrightarrow> lease_by_id mgr st lid = Inr (T lid)"
proof -
  assume "lease_ctx mgr st T"
  then have r: "lease_repr (lm_space mgr) st T" by (simp add: lease_ctx_def)
  have "MemoryStore_get st (lease_by_id_key (lm_space mgr) lid) = map_option LeaseRecord_encode (T lid)"
    using lease_reprD(1) [OF r] by (simp add: sget_def skey_bytes_eqs)
  moreover have "pred_option valid_lease (T lid)"
    using lease_reprD(4) [OF r] by (cases "T lid") auto
  ultimately show ?thesis by (simp add: lease_by_id_def lease.read_back)
qed

text \<open>The batch of a verb that handles identifiers one by one: at most one table operation each.\<close>

lemma table_ops_per_id:
  assumes "\<And>lid t. op_at lid = Some t \<Longrightarrow> lr_id (op_lease t) = lid"
  shows "table_ops (concat (map (\<lambda>lid. case op_at lid of None \<Rightarrow> [] | Some t \<Rightarrow> [t]) lids)) T lid =
    (if lid \<in> set lids then (case op_at lid of None \<Rightarrow> T lid | Some (Inr rec) \<Rightarrow> Some (norm_lease rec) | Some (Inl _) \<Rightarrow> None)
     else T lid)"
proof (induction lids arbitrary: T)
  case (Cons l lids)
  show ?case
  proof (cases "op_at l")
    case None
    with Cons.IH [of T] show ?thesis by auto
  next
    case (Some t)
    then have v: "table_op t T lid = (if lid = l then (case t of Inr rec \<Rightarrow> Some (norm_lease rec) | Inl _ \<Rightarrow> None) else T lid)"
      using assms [of l t] by (cases t) auto
    show ?thesis
      unfolding list.map concat.simps Some option.case append_Cons append_Nil table_ops_simps Cons.IH v
      using Some by (auto split: option.splits sum.splits)
  qed
qed simp

lemma lease_ctx_per_id:
  assumes ctx: "lease_ctx mgr st T"
    and op: "\<And>lid t. op_at lid = Some t \<Longrightarrow> wf_lease (op_lease t) \<and> lr_id (op_lease t) = lid \<and>
      (\<exists>r. T lid = Some r \<and> lr_prefix r = lr_prefix (op_lease t))"
    and ops: "ops = lease_ops (lm_space mgr) (concat (map (\<lambda>lid. case op_at lid of None \<Rightarrow> [] | Some t \<Rightarrow> [t]) lids))"
  shows "lease_ctx mgr (MemoryStore_apply ops st)
      (\<lambda>lid. if lid \<in> set lids then (case op_at lid of None \<Rightarrow> T lid | Some (Inr rec) \<Rightarrow> Some (norm_lease rec) | Some (Inl _) \<Rightarrow> None)
         else T lid)"
    and "batch_within (lm_space mgr) lease_keys ops"
proof -
  let ?ts = "concat (map (\<lambda>lid. case op_at lid of None \<Rightarrow> [] | Some t \<Rightarrow> [t]) lids)"
  have wf: "bt_wf st" "keys_ok (lm_space mgr) st" "lease_repr (lm_space mgr) st T"
    using ctx by (simp_all add: lease_ctx_def)
  have mem: "\<exists>lid. op_at lid = Some t" if "t \<in> set ?ts" for t using that by (auto split: option.splits)
  have pf: "wf_lease (op_lease t) \<and> lr_prefix (op_lease t) = (\<lambda>lid. lr_prefix (the (T lid))) (lr_id (op_lease t))"
    if "t \<in> set ?ts" for t
    using mem [OF that] op by fastforce
  have "\<forall>r \<in> ran T. lr_prefix r = (\<lambda>lid. lr_prefix (the (T lid))) (lr_id r)"
    using lease_table_inj [OF wf(3)] by simp
  with pf have "lease_repr (lm_space mgr) (MemoryStore_apply ops st) (table_ops ?ts T)"
    unfolding ops by (intro lease_repr_ops [OF wf(1,3), where pf = "\<lambda>lid. lr_prefix (the (T lid))"]) auto
  moreover have "table_ops ?ts T = (\<lambda>lid. if lid \<in> set lids then (case op_at lid of None \<Rightarrow> T lid
      | Some (Inr rec) \<Rightarrow> Some (norm_lease rec) | Some (Inl _) \<Rightarrow> None) else T lid)"
    using op by (intro ext table_ops_per_id) blast
  moreover show within: "batch_within (lm_space mgr) lease_keys ops"
    unfolding ops
  proof (intro lease_ops_within ballI)
    show "wf_key (lr_prefix (op_lease t))" if "t \<in> set ?ts" for t
      using conjunct1 [OF pf [OF that]] by (simp add: wf_lease_def)
  qed
  ultimately show "lease_ctx mgr (MemoryStore_apply ops st)
      (\<lambda>lid. if lid \<in> set lids then (case op_at lid of None \<Rightarrow> T lid | Some (Inr rec) \<Rightarrow> Some (norm_lease rec) | Some (Inl _) \<Rightarrow> None)
         else T lid)"
    using wf keys_ok_apply [OF wf(1,2) within] by (simp add: lease_ctx_def)
qed

definition renewed_record :: "Timestamp \<Rightarrow> RenewRequest \<Rightarrow> LeaseRecord \<Rightarrow> LeaseRecord" where
  "renewed_record now req rec = rec\<lparr>lr_deadline := Timestamp_saturating_add now (lr_ttl rec), lr_granted_at := now,
     lr_requested_at := rn_requested_at req\<rparr>"

definition renewable :: "Timestamp \<Rightarrow> DeviceId \<Rightarrow> (LeaseId \<rightharpoonup> LeaseRecord) \<Rightarrow> LeaseId \<Rightarrow> bool" where
  "renewable now device T lid \<longleftrightarrow> (\<exists>rec. T lid = Some rec \<and> is_live rec now \<and> lr_device rec = device)"

definition renewed_table :: "Timestamp \<Rightarrow> RenewRequest \<Rightarrow> (LeaseId \<rightharpoonup> LeaseRecord) \<Rightarrow> (LeaseId \<rightharpoonup> LeaseRecord)" where
  "renewed_table now req T lid =
     (if lid \<in> set (rn_leases req) then
        (case T lid of None \<Rightarrow> None
         | Some rec \<Rightarrow> if \<not> is_live rec now then None
                       else if lr_device rec = rn_device req then Some (renewed_record now req rec) else Some rec)
      else T lid)"

lemma renew_outcome:
  assumes ctx: "lease_ctx mgr st T" and stamp: "wf_stamp (rn_requested_at req)"
  obtains ops where "LeaseManager_renew mgr st now req =
      (Inr \<lparr>rr_granted = map (\<lambda>lid. \<lparr>rg_id = lid, rg_granted_at = now, rg_ttl = lr_ttl (the (T lid)),
              rg_contended = (lid \<in> lm_demand mgr)\<rparr>) (filter (renewable now (rn_device req) T) (rn_leases req)),
            rr_invalid = filter (\<lambda>lid. \<not> renewable now (rn_device req) T lid) (rn_leases req)\<rparr>,
       mgr, MemoryStore_apply ops st)"
    and "lease_ctx mgr (MemoryStore_apply ops st) (renewed_table now req T)"
    and "batch_within (lm_space mgr) lease_keys ops"
proof -
  define op_at where "op_at lid = (case T lid of None \<Rightarrow> None | Some rec \<Rightarrow>
      if is_live rec now \<and> lr_device rec = rn_device req then Some (Inr (renewed_record now req rec))
      else if \<not> is_live rec now then Some (Inl rec) else None)" for lid
  let ?ts = "\<lambda>lids. concat (map (\<lambda>lid. case op_at lid of None \<Rightarrow> [] | Some t \<Rightarrow> [t]) lids)"
  let ?grant = "\<lambda>lid. \<lparr>rg_id = lid, rg_granted_at = now, rg_ttl = lr_ttl (the (T lid)), rg_contended = (lid \<in> lm_demand mgr)\<rparr>"
  let ?ok = "renewable now (rn_device req) T"
  have repr: "lease_repr (lm_space mgr) st T" using ctx by (simp add: lease_ctx_def)
  have one: "renew_one mgr st now req (lease_ops (lm_space mgr) ts, g, inv) lid =
      Inr (lease_ops (lm_space mgr) (ts @ (case op_at lid of None \<Rightarrow> [] | Some t \<Rightarrow> [t])),
        g @ (if ?ok lid then [?grant lid] else []), inv @ (if ?ok lid then [] else [lid]))" for ts g inv lid
    by (cases "T lid") (auto simp: renew_one_def lease_by_id_table [OF ctx] op_at_def renewable_def
        put_records_eq purge_records_eq renewed_record_def Let_def)
  have fold: "rfold (renew_one mgr st now req) (lease_ops (lm_space mgr) ts, g, inv) lids =
      Inr (lease_ops (lm_space mgr) (ts @ ?ts lids), g @ map ?grant (filter ?ok lids), inv @ filter (\<lambda>lid. \<not> ?ok lid) lids)" for ts g inv lids
    by (induction lids arbitrary: ts g inv) (simp_all add: one del: lease_ops_append)
  have op: "wf_lease (op_lease t) \<and> lr_id (op_lease t) = lid \<and> (\<exists>r. T lid = Some r \<and> lr_prefix r = lr_prefix (op_lease t))"
    if "op_at lid = Some t" for lid t
  proof -
    from that obtain rec where r: "T lid = Some rec" "t = Inr (renewed_record now req rec) \<or> t = Inl rec"
      by (auto simp: op_at_def split: option.splits if_splits)
    moreover have "wf_lease rec" "lr_id rec = lid"
      using lease_reprD(3,4) [OF repr r(1)] norm_valid_lease by auto
    ultimately show ?thesis using stamp by (auto simp: renewed_record_def wf_lease_def)
  qed
  let ?ops = "lease_ops (lm_space mgr) (?ts (rn_leases req))"
  have norm: "norm_lease (renewed_record now req rec) = renewed_record now req rec" if "T lid = Some rec" for lid rec
    using lease_reprD(4) [OF repr that] by (cases rec) (simp add: valid_lease_def norm_lease_def renewed_record_def)
  have "(\<lambda>lid. if lid \<in> set (rn_leases req) then (case op_at lid of None \<Rightarrow> T lid | Some (Inr rec) \<Rightarrow> Some (norm_lease rec)
      | Some (Inl _) \<Rightarrow> None) else T lid) = renewed_table now req T"
    by (auto simp: fun_eq_iff renewed_table_def op_at_def norm split: option.splits)
  then show ?thesis
    using that [of ?ops] lease_ctx_per_id [where op_at = op_at and lids = "rn_leases req", OF ctx op refl] fold [of "[]" "[]" "[]" "rn_leases req"]
    by (simp add: LeaseManager_renew_def)
qed

lemma renewed_exclusive: "exclusive now T \<Longrightarrow> exclusive now (renewed_table now req T)"
proof -
  assume ex: "exclusive now T"
  have old: "\<exists>r. T lid = Some r \<and> is_live r now \<and> lr_prefix r = lr_prefix rec \<and> lr_mode r = lr_mode rec"
    if "renewed_table now req T lid = Some rec" "is_live rec now" for lid rec
    using that by (auto simp: renewed_table_def renewed_record_def split: if_splits option.splits)
  show ?thesis
    unfolding exclusive_def
  proof (intro allI impI, elim conjE)
    fix i j a b
    assume "renewed_table now req T i = Some a" "renewed_table now req T j = Some b" "i \<noteq> j"
      and "is_live a now" "is_live b now" "key_overlap (lr_prefix a) (lr_prefix b)"
    with old [of i a] old [of j b] ex show "compatible_with (lr_mode a) (lr_mode b)"
      unfolding exclusive_def by metis
  qed
qed

lemma renewed_fresh: "fresh_ids n T \<Longrightarrow> fresh_ids n (renewed_table now req T)"
  by (auto simp: fresh_ids_def renewed_table_def domIff split: if_splits option.splits)

definition released_table :: "Timestamp \<Rightarrow> ReleaseRequest \<Rightarrow> (LeaseId \<rightharpoonup> LeaseRecord) \<Rightarrow> (LeaseId \<rightharpoonup> LeaseRecord)" where
  "released_table now req T lid =
     (case T lid of None \<Rightarrow> None
      | Some rec \<Rightarrow> if lid \<in> set (rl_leases req) \<and> (\<not> is_live rec now \<or> lr_device rec = rl_device req)
                    then None else Some rec)"

lemma release_outcome:
  assumes ctx: "lease_ctx mgr st T"
  obtains ops demand where "LeaseManager_release mgr st now req = (Inr (), mgr\<lparr>lm_demand := demand\<rparr>, MemoryStore_apply ops st)"
    and "demand = lm_demand mgr - {lid \<in> set (rl_leases req). T lid \<noteq> None \<and> released_table now req T lid = None}"
    and "lease_ctx mgr (MemoryStore_apply ops st) (released_table now req T)"
    and "batch_within (lm_space mgr) lease_keys ops"
proof -
  define gone where "gone lid \<longleftrightarrow> (\<exists>rec. T lid = Some rec \<and> (\<not> is_live rec now \<or> lr_device rec = rl_device req))" for lid
  define op_at where "op_at lid = (if gone lid then Some (Inl (the (T lid)) :: LeaseRecord + LeaseRecord) else None)" for lid
  let ?ts = "\<lambda>lids. concat (map (\<lambda>lid. case op_at lid of None \<Rightarrow> [] | Some t \<Rightarrow> [t]) lids)"
  have repr: "lease_repr (lm_space mgr) st T" using ctx by (simp add: lease_ctx_def)
  have one: "release_one mgr st now req (lease_ops (lm_space mgr) ts, d) lid =
      Inr (lease_ops (lm_space mgr) (ts @ (case op_at lid of None \<Rightarrow> [] | Some t \<Rightarrow> [t])), d - {l. l = lid \<and> gone l})" for ts d lid
    by (cases "T lid") (auto simp: release_one_def lease_by_id_table [OF ctx] op_at_def gone_def purge_records_eq)
  have fold: "rfold (release_one mgr st now req) (lease_ops (lm_space mgr) ts, d) lids =
      Inr (lease_ops (lm_space mgr) (ts @ ?ts lids), d - {l \<in> set lids. gone l})" for ts d lids
  proof (induction lids arbitrary: ts d)
    case (Cons l lids)
    have "d - {x. x = l \<and> gone x} - {x \<in> set lids. gone x} = d - {x \<in> set (l # lids). gone x}" by auto
    then show ?case by (simp add: one Cons.IH del: lease_ops_append)
  qed simp
  have op: "wf_lease (op_lease t) \<and> lr_id (op_lease t) = lid \<and> (\<exists>r. T lid = Some r \<and> lr_prefix r = lr_prefix (op_lease t))"
    if "op_at lid = Some t" for lid t
    using that lease_reprD(3,4) [OF repr] norm_valid_lease by (auto simp: op_at_def gone_def split: if_splits)
  have "(\<lambda>lid. if lid \<in> set (rl_leases req) then (case op_at lid of None \<Rightarrow> T lid | Some (Inr rec) \<Rightarrow> Some (norm_lease rec)
      | Some (Inl _) \<Rightarrow> None) else T lid) = released_table now req T"
    by (auto simp: fun_eq_iff released_table_def op_at_def gone_def split: option.splits)
  moreover have "{l \<in> set (rl_leases req). gone l} = {lid \<in> set (rl_leases req). T lid \<noteq> None \<and> released_table now req T lid = None}"
    by (auto simp: gone_def released_table_def split: if_splits)
  ultimately show ?thesis
    using that [of "lm_demand mgr - {l \<in> set (rl_leases req). gone l}" "lease_ops (lm_space mgr) (?ts (rl_leases req))"]
      lease_ctx_per_id [where op_at = op_at and lids = "rl_leases req", OF ctx op refl] fold [of "[]" "lm_demand mgr" "rl_leases req"]
    by (simp add: LeaseManager_release_def)
qed

lemma restricted_exclusive:
  "exclusive now T \<Longrightarrow> (\<And>lid rec. T' lid = Some rec \<Longrightarrow> T lid = Some rec) \<Longrightarrow> exclusive now T'"
  unfolding exclusive_def by blast

lemma released_Some: "released_table now req T lid = Some rec \<Longrightarrow> T lid = Some rec"
  by (auto simp: released_table_def split: option.splits if_splits)

definition live_table :: "Timestamp \<Rightarrow> (LeaseId \<rightharpoonup> LeaseRecord) \<Rightarrow> (LeaseId \<rightharpoonup> LeaseRecord)" where
  "live_table now T lid = (case T lid of None \<Rightarrow> None | Some rec \<Rightarrow> if is_live rec now then Some rec else None)"

lemma list_leases_outcome:
  assumes ctx: "lease_ctx mgr st T"
  obtains ops where "LeaseManager_list_leases mgr st now device =
      (Inr (map public_lease (filter (\<lambda>rec. is_live rec now \<and> lr_device rec = device)
         (map (the \<circ> T) (sorted_list_of_set (dom T))))), mgr, MemoryStore_apply ops st)"
    and "lease_ctx mgr (MemoryStore_apply ops st) (live_table now T)"
    and "batch_within (lm_space mgr) lease_keys ops"
proof -
  have wf: "bt_wf st" "keys_ok (lm_space mgr) st" "lease_repr (lm_space mgr) st T"
    using ctx by (simp_all add: lease_ctx_def)
  let ?recs = "map (the \<circ> T) (sorted_list_of_set (dom T))"
  let ?dead = "filter (\<lambda>rec. \<not> is_live rec now) ?recs"
  have fin: "finite (dom T)" by (rule finite)
  have dead: "set ?dead = dead_leases now T"
    using fin by (force simp: dead_leases_def ran_def)
  have "lr_id ` dead_leases now T = {lid. \<exists>rec. T lid = Some rec \<and> \<not> is_live rec now}"
    using lease_table_inj [OF wf(3)] lease_reprD(3) [OF wf(3)] by (fastforce simp: dead_leases_def ran_def)
  then have T': "table_ops (map Inl ?dead) T = live_table now T"
    by (auto simp: fun_eq_iff table_ops_Inl dead live_table_def simp del: set_filter split: option.splits)
  have "LeaseManager_list_leases mgr st now device =
      (Inr (map public_lease (filter (\<lambda>rec. is_live rec now \<and> lr_device rec = device) ?recs)), mgr,
       MemoryStore_apply (lease_ops (lm_space mgr) (map Inl ?dead)) st)"
    using id_scan_leases [OF wf] purge_records_eq [of mgr "[]" ?dead] by (simp add: LeaseManager_list_leases_def)
  moreover have "lease_ctx mgr (MemoryStore_apply (lease_ops (lm_space mgr) (map Inl ?dead)) st) (live_table now T)"
    using lease_ctx_purge [OF ctx, of ?dead now] dead T' by simp
  moreover have "batch_within (lm_space mgr) lease_keys (lease_ops (lm_space mgr) (map Inl ?dead))"
  proof (intro lease_ops_within ballI)
    fix t :: "LeaseRecord + LeaseRecord"
    assume "t \<in> set (map Inl ?dead)"
    then obtain rec where t: "t = Inl rec" "rec \<in> set ?dead" by auto
    then have "T (lr_id rec) = Some rec" using lease_table_inj [OF wf(3)] unfolding dead by (simp add: dead_leases_def)
    then show "wf_key (lr_prefix (op_lease t))" using t lease_reprD(4) [OF wf(3)] by (auto simp: valid_lease_def)
  qed
  ultimately show ?thesis using that by blast
qed

lemma live_table_Some: "live_table now T lid = Some rec \<Longrightarrow> T lid = Some rec"
  by (auto simp: live_table_def split: option.splits if_splits)

subsection \<open>The reservation check\<close>

definition foreign_live :: "Timestamp \<Rightarrow> DeviceId \<Rightarrow> (LeaseId \<rightharpoonup> LeaseRecord) \<Rightarrow> LeaseRecord set" where
  "foreign_live now device T = {rec \<in> ran T. is_live rec now \<and> lr_device rec \<noteq> device}"

lemma rfold_unit: "rfold (\<lambda>_. f) () xs = (case find (\<lambda>x. f x \<noteq> Inr ()) xs of None \<Rightarrow> Inr () | Some x \<Rightarrow> f x)"
proof (induction xs)
  case (Cons x xs)
  then show ?case by (cases "f x") auto
qed simp

lemma check_key_eq:
  assumes ctx: "lease_ctx mgr st T" and "wf_key key"
  shows "check_key mgr st now device key =
    (if \<exists>rec \<in> foreign_live now device T. covers_range (Prefix (lr_prefix rec)) (Prefix key)
     then Inl (Kernel (Contended key None)) else Inr ())"
proof -
  have c: "bt_wf st" "keys_ok (lm_space mgr) st" "lease_repr (lm_space mgr) st T"
    using ctx by (simp_all add: lease_ctx_def)
  obtain live where "covering mgr st now key = Inr live"
    and "set live = {rec \<in> ran T. is_live rec now \<and> prefix (lr_prefix rec) key}"
    by (rule covering_exact [OF c assms(2)])
  then show ?thesis by (auto simp: check_key_def foreign_live_def list_ex_iff Key_starts_with_def)
qed

lemma check_range_eq:
  assumes ctx: "lease_ctx mgr st T" and "wf_range rng"
  shows "check_range mgr st now device rng =
    (if \<exists>rec \<in> foreign_live now device T. overlaps (Prefix (lr_prefix rec)) rng
     then Inl (Kernel (RangeContended rng None)) else Inr ())"
proof -
  have c: "bt_wf st" "keys_ok (lm_space mgr) st" "lease_repr (lm_space mgr) st T"
    using ctx by (simp_all add: lease_ctx_def)
  show ?thesis
  proof (cases rng)
    case Full
    obtain live where "all_live mgr st now = Inr live" "set live = {rec \<in> ran T. is_live rec now}"
      by (rule all_live_exact [OF c])
    with Full show ?thesis by (auto simp: check_range_def foreign_live_def list_ex_iff overlaps_def)
  next
    case (Prefix pre)
    have "wf_key pre" using assms(2) Prefix by simp
    then obtain live dead where "overlapping mgr st now pre = Inr (live, dead)"
      and "set live = {rec \<in> ran T. is_live rec now \<and> (prefix (lr_prefix rec) pre \<or> prefix pre (lr_prefix rec))}"
      by (rule overlapping_exact [OF c])
    with Prefix show ?thesis
      by (auto simp: check_range_def foreign_live_def list_ex_iff overlaps_def Key_starts_with_def)
  qed
qed

lemma find_SomeD: "find P xs = Some x \<Longrightarrow> P x \<and> x \<in> set xs"
  by (auto simp: find_Some_iff)

lemma validate_writes_eq:
  assumes ctx: "lease_ctx mgr st T" and "\<forall>k \<in> set keys. wf_key k" "\<forall>r \<in> set ranges. wf_range r"
  shows "validate_writes mgr st now device evidence keys ranges =
    (case find (\<lambda>k. \<exists>rec \<in> foreign_live now device T. covers_range (Prefix (lr_prefix rec)) (Prefix k)) keys of
       Some k \<Rightarrow> Inl (Kernel (Contended k None))
     | None \<Rightarrow> (case find (\<lambda>r. \<exists>rec \<in> foreign_live now device T. overlaps (Prefix (lr_prefix rec)) r) ranges of
         Some r \<Rightarrow> Inl (Kernel (RangeContended r None)) | None \<Rightarrow> Inr ()))"
proof -
  have k: "find (\<lambda>k. check_key mgr st now device k \<noteq> Inr ()) keys =
      find (\<lambda>k. \<exists>rec \<in> foreign_live now device T. covers_range (Prefix (lr_prefix rec)) (Prefix k)) keys"
    using assms(2) by (intro find_cong) (auto simp: check_key_eq [OF ctx])
  have r: "find (\<lambda>r. check_range mgr st now device r \<noteq> Inr ()) ranges =
      find (\<lambda>r. \<exists>rec \<in> foreign_live now device T. overlaps (Prefix (lr_prefix rec)) r) ranges"
    using assms(3) by (intro find_cong) (auto simp: check_range_eq [OF ctx])
  have "check_key mgr st now device k = Inl (Kernel (Contended k None))"
    if "find (\<lambda>k. \<exists>rec \<in> foreign_live now device T. covers_range (Prefix (lr_prefix rec)) (Prefix k)) keys = Some k" for k
    using find_SomeD [OF that] assms(2) check_key_eq [OF ctx, of k] by auto
  moreover have "check_range mgr st now device r = Inl (Kernel (RangeContended r None))"
    if "find (\<lambda>r. \<exists>rec \<in> foreign_live now device T. overlaps (Prefix (lr_prefix rec)) r) ranges = Some r" for r
    using find_SomeD [OF that] assms(3) check_range_eq [OF ctx, of r] by auto
  ultimately show ?thesis
    unfolding validate_writes_def rfold_unit k r by (simp split: option.splits)
qed

lemma lease_ctx_cong: "lm_space mgr' = lm_space mgr \<Longrightarrow> lease_ctx mgr' st T = lease_ctx mgr st T"
  by (simp add: lease_ctx_def)

lemma lease_ctx_empty: "lease_ctx (LeaseManager_new space) [] Map.empty"
  by (simp add: lease_ctx_def keys_ok_def lease_repr_def sget_def MemoryStore_get_def)

lemma counters_empty: "counters space [] = Inr CountersRecord_default"
  by (simp add: counters_def MemoryStore_get_def read_with_def)

lemma granted_table_nth:
  assumes "unat (next_lease_id c) + length specs < 2 ^ 64" "i < length specs"
  shows "granted_table (granted_records now req c specs) T (next_lease_id c + of_nat i) =
    Some (norm_lease (granted_records now req c specs ! i))"
proof -
  let ?recs = "granted_records now req c specs"
  have "map_of (map (\<lambda>rec. (lr_id rec, norm_lease rec)) ?recs) (lr_id (?recs ! i)) = Some (norm_lease (?recs ! i))"
    using distinct_granted [OF assms(1), of now req] assms(2) by (intro map_of_is_SomeI) (auto simp: comp_def)
  then show ?thesis using assms(2) by (simp add: granted_table_def granted_records_nth map_add_Some_iff)
qed

lemma granted_table_old:
  assumes "unat (next_lease_id c) + length specs < 2 ^ 64" "lid < next_lease_id c"
  shows "granted_table (granted_records now req c specs) T lid = T lid"
proof -
  have "lid \<noteq> lr_id (granted_records now req c specs ! i)" if "i < length specs" for i
    using granted_ids [OF assms(1) that, of now req] assms(2) by (auto simp: word_less_nat_alt)
  then have "map_of (map (\<lambda>rec. (lr_id rec, norm_lease rec)) (granted_records now req c specs)) lid = None"
    unfolding map_of_eq_None_iff by (fastforce simp: in_set_conv_nth)
  then show ?thesis by (simp add: granted_table_def map_add_def)
qed

lemma released_exclusive: "exclusive now T \<Longrightarrow> exclusive now (released_table now' rl T)"
  by (erule restricted_exclusive) (rule released_Some)

lemma live_table_exclusive: "exclusive now T \<Longrightarrow> exclusive now (live_table now' T)"
  by (erule restricted_exclusive) (rule live_table_Some)

subsection \<open>Properties\<close>

lemma foldr_max_Max: "xs \<noteq> [] \<Longrightarrow> foldr max xs (0 :: u64) = Max (set xs)"
  by (induction xs rule: list_nonempty_induct) (auto simp: max_def)

lemma self_overlap_Some:
  "acquire_self_overlap specs = Some p \<Longrightarrow> \<exists>i j. i < j \<and> j < length specs \<and> key_overlap (ls_prefix (specs ! i)) (ls_prefix (specs ! j)) \<and>
     \<not> compatible_with (ls_mode (specs ! i)) (ls_mode (specs ! j)) \<and> p = ls_prefix (specs ! j)"
proof (induction specs)
  case (Cons a specs)
  let ?P = "\<lambda>b. (Key_starts_with (ls_prefix a) (ls_prefix b) \<or> Key_starts_with (ls_prefix b) (ls_prefix a)) \<and> \<not> compatible_with (ls_mode a) (ls_mode b)"
  show ?case
  proof (cases "find ?P specs")
    case None
    with Cons obtain i j where "i < j" "j < length specs" "key_overlap (ls_prefix (specs ! i)) (ls_prefix (specs ! j))"
      "\<not> compatible_with (ls_mode (specs ! i)) (ls_mode (specs ! j))" "p = ls_prefix (specs ! j)" by auto
    then show ?thesis by (intro exI [of _ "Suc i"] exI [of _ "Suc j"]) simp
  next
    case (Some b)
    then obtain j where "j < length specs" "?P b" "b = specs ! j" by (auto simp: find_Some_iff)
    with Some Cons.prems show ?thesis
      by (intro exI [of _ 0] exI [of _ "Suc j"]) (auto simp: key_overlap_def Key_starts_with_def)
  qed
qed simp

text \<open>The reply of acquire: the first blocked specification decides, then a conflict within the request.\<close>

definition acquire_reply :: "Timestamp \<Rightarrow> AcquireRequest \<Rightarrow> CountersRecord \<Rightarrow> (LeaseId \<rightharpoonup> LeaseRecord) \<Rightarrow> Error + Lease list" where
  "acquire_reply now req c T =
     (case find (\<lambda>spec. blocking now T spec \<noteq> {}) (aq_specs req) of
        Some spec \<Rightarrow> Inl (Kernel (Contended (ls_prefix spec) (Some (from_millis (Max (lr_deadline ` blocking now T spec) - now)))))
      | None \<Rightarrow>
          (case acquire_self_overlap (aq_specs req) of
             Some p \<Rightarrow> Inl (Kernel (Contended p None))
           | None \<Rightarrow> Inr (map public_lease (granted_records now req c (aq_specs req)))))"

lemma acquire_replies:
  assumes ctx: "lease_ctx mgr st T" and req: "wf_acquire req" and c: "counters (lm_space mgr) st = Inr c"
  shows "fst (LeaseManager_acquire mgr st now req) = acquire_reply now req c T"
proof -
  have specs: "\<forall>spec \<in> set (aq_specs req). wf_key (ls_prefix spec)" using req by (simp add: wf_acquire_def)
  show ?thesis
  proof (cases "acquire_conflicts mgr st now (aq_specs req) (lease_ops (lm_space mgr) (map Inl []))")
    case (Inl p)
    obtain e m s where p: "p = (e, m, s)" by (cases p)
    from acquire_conflicts_Inl [OF ctx specs, of "[]" now e m s] Inl p obtain spec bl
      where f: "find (\<lambda>spec. blocking now T spec \<noteq> {}) (aq_specs req) = Some spec" and bl: "bl \<noteq> []" "set bl = blocking now T spec"
        and e: "e = Kernel (Contended (ls_prefix spec) (Some (from_millis (sat_sub64 (foldr max (map lr_deadline bl) 0) now))))" by auto
    have worst: "foldr max (map lr_deadline bl) 0 = Max (lr_deadline ` blocking now T spec)"
      using bl by (simp add: foldr_max_Max)
    obtain rec where "rec \<in> set bl" "is_live rec now" using bl by (cases bl) (auto simp: blocking_def)
    then have "now < foldr max (map lr_deadline bl) 0" using foldr_max_ge [of "lr_deadline rec" "map lr_deadline bl"]
      by (auto simp: is_live_def)
    then have "sat_sub64 (foldr max (map lr_deadline bl) 0) now = Max (lr_deadline ` blocking now T spec) - now"
      by (simp add: sat_sub64_def worst order.strict_implies_order)
    then show ?thesis using Inl p e f by (simp add: LeaseManager_acquire_def acquire_reply_def)
  next
    case (Inr purge)
    from acquire_conflicts_Inr [OF ctx specs _ Inr] obtain recs where purge: "purge = lease_ops (lm_space mgr) (map Inl recs)"
      and nb: "\<forall>spec \<in> set (aq_specs req). blocking now T spec = {}" by auto
    have "find (\<lambda>spec. blocking now T spec \<noteq> {}) (aq_specs req) = None" using nb by (simp add: find_None_iff)
    then show ?thesis
      using Inr c purge acquire_grant_eq [of mgr now req "aq_specs req" c "map Inl recs" "[]"]
      by (auto simp: LeaseManager_acquire_def acquire_reply_def split: option.splits)
  qed
qed

text \<open>C25: acquire is all-or-nothing, safe, and its refusals are exact.  The first requested prefix that live
  leases block decides: the error names it and the time after which the last of them expires.
  When nothing is blocked but the request conflicts with itself, the error names the later prefix
  and no time.  Otherwise every requested lease is in the table under the next identifiers.  A live
  lease is never lost, a refusal grants nothing, and no two live leases with overlapping prefixes and
  incompatible modes exist afterwards.\<close>

theorem acquire_grants_exactly_when_unblocked:
  assumes "lease_ctx mgr st T" "wf_acquire req" "counters (lm_space mgr) st = Inr c"
    and "fresh_ids (next_lease_id c) T" "exclusive now T"
    and "unat (next_lease_id c) + length (aq_specs req) < 2 ^ 64"
    and "LeaseManager_acquire mgr st now req = (res, mgr', st')"
    and "clash = (\<lambda>i j. i < j \<and> j < length (aq_specs req) \<and> key_overlap (ls_prefix (aq_specs req ! i)) (ls_prefix (aq_specs req ! j)) \<and>
      \<not> compatible_with (ls_mode (aq_specs req ! i)) (ls_mode (aq_specs req ! j)))"
  shows "(case find (\<lambda>spec. blocking now T spec \<noteq> {}) (aq_specs req) of
        Some spec \<Rightarrow> res = Inl (Kernel (Contended (ls_prefix spec) (Some (from_millis (Max (lr_deadline ` blocking now T spec) - now)))))
      | None \<Rightarrow>
          if \<exists>i j. clash i j then \<exists>i j. clash i j \<and> res = Inl (Kernel (Contended (ls_prefix (aq_specs req ! j)) None))
          else res = Inr (map public_lease (granted_records now req c (aq_specs req)))) \<and>
    (\<exists>T'. lease_ctx mgr' st' T' \<and> exclusive now T' \<and>
       (\<forall>lid rec. T lid = Some rec \<and> is_live rec now \<longrightarrow> T' lid = Some rec) \<and>
       (case res of
          Inr leases \<Rightarrow> \<forall>i < length (aq_specs req). T' (next_lease_id c + of_nat i) =
               Some (norm_lease (granted_records now req c (aq_specs req) ! i))
        | Inl err \<Rightarrow> purged now T T'))"
proof (intro conjI)
  have none: "acquire_self_overlap (aq_specs req) = None \<longleftrightarrow> (\<nexists>i j. clash i j)"
    unfolding self_overlap_None assms(8) by blast
  have some: "\<exists>i j. clash i j \<and> p = ls_prefix (aq_specs req ! j)" if "acquire_self_overlap (aq_specs req) = Some p" for p
    using self_overlap_Some [OF that] unfolding assms(8) by blast
  have "res = acquire_reply now req c T" using acquire_replies [OF assms(1-3), of now] assms(7) by simp
  then show "case find (\<lambda>spec. blocking now T spec \<noteq> {}) (aq_specs req) of
        Some spec \<Rightarrow> res = Inl (Kernel (Contended (ls_prefix spec) (Some (from_millis (Max (lr_deadline ` blocking now T spec) - now)))))
      | None \<Rightarrow>
          if \<exists>i j. clash i j then \<exists>i j. clash i j \<and> res = Inl (Kernel (Contended (ls_prefix (aq_specs req ! j)) None))
          else res = Inr (map public_lease (granted_records now req c (aq_specs req)))"
    using none some by (cases "acquire_self_overlap (aq_specs req)") (auto simp: acquire_reply_def split: option.splits)
next
  let ?recs = "granted_records now req c (aq_specs req)"
  obtain T1 where p: "purged now T T1"
    and out: "res = Inr (map public_lease ?recs) \<and> lease_ctx mgr' st' (granted_table ?recs T1) \<and> exclusive now (granted_table ?recs T1) \<or>
      (\<exists>err. res = Inl err) \<and> lease_ctx mgr' st' T1"
    by (rule acquire_outcome [OF assms(1-7)]) (use lease_ctx_cong [of mgr' mgr] in blast)
  from out show "\<exists>T'. lease_ctx mgr' st' T' \<and> exclusive now T' \<and>
       (\<forall>lid rec. T lid = Some rec \<and> is_live rec now \<longrightarrow> T' lid = Some rec) \<and>
       (case res of
          Inr leases \<Rightarrow> \<forall>i < length (aq_specs req). T' (next_lease_id c + of_nat i) = Some (norm_lease (?recs ! i))
        | Inl err \<Rightarrow> purged now T T')"
  proof
    assume g: "res = Inr (map public_lease ?recs) \<and> lease_ctx mgr' st' (granted_table ?recs T1) \<and> exclusive now (granted_table ?recs T1)"
    have "granted_table ?recs T1 lid = Some rec" if "T lid = Some rec \<and> is_live rec now" for lid rec
    proof -
      have "lid < next_lease_id c" using that assms(4) by (auto simp: fresh_ids_def)
      with that purged_kept [OF p] show ?thesis by (simp add: granted_table_old [OF assms(6)])
    qed
    with g granted_table_nth [OF assms(6)] show ?thesis by (intro exI [of _ "granted_table ?recs T1"]) simp
  next
    assume "(\<exists>err. res = Inl err) \<and> lease_ctx mgr' st' T1"
    with p purged_kept [OF p] purged_exclusive [OF p assms(5)] show ?thesis by (intro exI [of _ T1]) auto
  qed
qed

text \<open>The witness: a first write lease on an empty store.\<close>

theorem acquire_grants_exactly_when_unblocked_witness:
  "\<exists>leases. fst (LeaseManager_acquire (LeaseManager_new (replicate 16 1)) [] 5
     \<lparr>aq_device = replicate 16 2, aq_requested_at = HybridTimestamp_ZERO,
      aq_specs = [\<lparr>ls_prefix = [[7]], ls_mode = Write, ls_ttl = 1000000000\<rparr>]\<rparr>) = Inr leases"
proof -
  let ?mgr = "LeaseManager_new (replicate 16 1)"
  let ?req = "\<lparr>aq_device = replicate 16 2, aq_requested_at = HybridTimestamp_ZERO,
      aq_specs = [\<lparr>ls_prefix = [[7]], ls_mode = Write, ls_ttl = 1000000000\<rparr>]\<rparr>"
  obtain res mgr' st' where run: "LeaseManager_acquire ?mgr [] 5 ?req = (res, mgr', st')"
    by (metis prod_cases3)
  have w: "wf_acquire ?req"
    by (simp add: wf_acquire_def wf_id_def wf_stamp_def HybridTimestamp_ZERO_def Lineage_NONE_def wf_key_def
        wf_component_def key_limits)
  have e: "exclusive 5 Map.empty" "fresh_ids (next_lease_id CountersRecord_default) Map.empty"
    "unat (next_lease_id CountersRecord_default) + length (aq_specs ?req) < 2 ^ 64"
    by (simp_all add: exclusive_def fresh_ids_def CountersRecord_default_def)
  from acquire_grants_exactly_when_unblocked [OF lease_ctx_empty w counters_empty e(2,1,3) run] run
  show ?thesis by (simp add: blocking_def)
qed

text \<open>C26: renewal, release and listing change the table exactly as documented.  Renewal extends the
  live leases of the requesting device, purges dead ones it meets, reports everything else as
  invalid and leaves other devices' live leases alone; release removes only leases that are dead or
  held by the requesting device; listing returns the device's live leases in identifier order and
  purges the dead ones.  All three keep live incompatible leases apart.\<close>

theorem lease_verbs_change_the_table_as_documented:
  assumes "lease_ctx mgr st T" "exclusive now T" "wf_stamp (rn_requested_at rq)"
  shows "(\<exists>st'. LeaseManager_renew mgr st now rq =
        (Inr \<lparr>rr_granted = map (\<lambda>lid. \<lparr>rg_id = lid, rg_granted_at = now, rg_ttl = lr_ttl (the (T lid)),
                rg_contended = (lid \<in> lm_demand mgr)\<rparr>) (filter (renewable now (rn_device rq) T) (rn_leases rq)),
              rr_invalid = filter (\<lambda>lid. \<not> renewable now (rn_device rq) T lid) (rn_leases rq)\<rparr>, mgr, st') \<and>
        lease_ctx mgr st' (renewed_table now rq T) \<and> exclusive now (renewed_table now rq T)) \<and>
    (\<exists>mgr' st'. LeaseManager_release mgr st now rl = (Inr (), mgr', st') \<and>
        lease_ctx mgr' st' (released_table now rl T) \<and> exclusive now (released_table now rl T)) \<and>
    (\<exists>st'. LeaseManager_list_leases mgr st now device =
        (Inr (map public_lease (filter (\<lambda>rec. is_live rec now \<and> lr_device rec = device)
           (map (the \<circ> T) (sorted_list_of_set (dom T))))), mgr, st') \<and>
        lease_ctx mgr st' (live_table now T) \<and> exclusive now (live_table now T))"
proof (intro conjI)
  show "\<exists>st'. LeaseManager_renew mgr st now rq =
        (Inr \<lparr>rr_granted = map (\<lambda>lid. \<lparr>rg_id = lid, rg_granted_at = now, rg_ttl = lr_ttl (the (T lid)),
                rg_contended = (lid \<in> lm_demand mgr)\<rparr>) (filter (renewable now (rn_device rq) T) (rn_leases rq)),
              rr_invalid = filter (\<lambda>lid. \<not> renewable now (rn_device rq) T lid) (rn_leases rq)\<rparr>, mgr, st') \<and>
        lease_ctx mgr st' (renewed_table now rq T) \<and> exclusive now (renewed_table now rq T)"
    by (rule renew_outcome [OF assms(1,3), of now]) (use renewed_exclusive [OF assms(2)] in blast)
  show "\<exists>mgr' st'. LeaseManager_release mgr st now rl = (Inr (), mgr', st') \<and>
        lease_ctx mgr' st' (released_table now rl T) \<and> exclusive now (released_table now rl T)"
  proof (rule release_outcome [OF assms(1), of now rl])
    fix ops demand
    assume "LeaseManager_release mgr st now rl = (Inr (), mgr\<lparr>lm_demand := demand\<rparr>, MemoryStore_apply ops st)"
      and "lease_ctx mgr (MemoryStore_apply ops st) (released_table now rl T)"
    then show ?thesis
      using released_exclusive [OF assms(2)] lease_ctx_cong [of "mgr\<lparr>lm_demand := demand\<rparr>" mgr] by auto
  qed
  show "\<exists>st'. LeaseManager_list_leases mgr st now device =
        (Inr (map public_lease (filter (\<lambda>rec. is_live rec now \<and> lr_device rec = device)
           (map (the \<circ> T) (sorted_list_of_set (dom T))))), mgr, st') \<and>
        lease_ctx mgr st' (live_table now T) \<and> exclusive now (live_table now T)"
    by (rule list_leases_outcome [OF assms(1), of now device])
      (use live_table_exclusive [OF assms(2)] in blast)
qed

text \<open>The witness: on an empty store every identifier is invalid and nothing is listed.\<close>

theorem lease_verbs_change_the_table_as_documented_witness:
  "(\<exists>st'. LeaseManager_renew (LeaseManager_new [1]) [] 5
      \<lparr>rn_device = [2], rn_requested_at = HybridTimestamp_ZERO, rn_leases = [3]\<rparr> =
      (Inr \<lparr>rr_granted = [], rr_invalid = [3]\<rparr>, LeaseManager_new [1], st')) \<and>
   (\<exists>st'. LeaseManager_list_leases (LeaseManager_new [1]) [] 5 [2] = (Inr [], LeaseManager_new [1], st'))"
proof -
  have "exclusive 5 Map.empty" "wf_stamp (rn_requested_at \<lparr>rn_device = [2], rn_requested_at = HybridTimestamp_ZERO, rn_leases = [3]\<rparr>)"
    by (simp_all add: exclusive_def wf_stamp_def HybridTimestamp_ZERO_def Lineage_NONE_def)
  from lease_verbs_change_the_table_as_documented [OF lease_ctx_empty this, of "[1]" undefined "[2]"]
  show ?thesis by (auto simp: renewable_def)
qed

text \<open>C27: the reservation check that admission runs is exact: it rejects the first key covered by, or
  the first range overlapping, a live lease of another device, and otherwise accepts; the evidence
  presented plays no part, and neither do dead leases nor the device's own.\<close>

theorem validate_writes_is_exact:
  assumes "lease_ctx mgr st T" "\<forall>k \<in> set keys. wf_key k" "\<forall>r \<in> set ranges. wf_range r"
  shows "validate_writes mgr st now device evidence keys ranges =
    (case find (\<lambda>k. \<exists>rec \<in> foreign_live now device T. covers_key (Prefix (lr_prefix rec)) k) keys of
       Some k \<Rightarrow> Inl (Kernel (Contended k None))
     | None \<Rightarrow> (case find (\<lambda>r. \<exists>rec \<in> foreign_live now device T. overlaps (Prefix (lr_prefix rec)) r) ranges of
         Some r \<Rightarrow> Inl (Kernel (RangeContended r None)) | None \<Rightarrow> Inr ()))"
  using validate_writes_eq [OF assms] by (simp only: covers_range_Prefix_key)

text \<open>The witness: with no lease a point write and a full-range deletion pass.\<close>

theorem validate_writes_is_exact_witness:
  "validate_writes (LeaseManager_new [1]) [] 5 [2] [9] [[[7]]] [Full] = Inr ()"
  using validate_writes_is_exact [OF lease_ctx_empty, of "[[[7]]]" "[Full]" "[1]" 5 "[2]" "[9]"]
  by (simp add: foreign_live_def wf_key_def wf_component_def key_limits)

end
