(* ===== verification/Data.thy ===== *)
theory Data
  imports Leases Aggregates
begin

text \<open>
  The data plane (\<open>server/src/space/data.rs\<close>): the write verb \<open>admit\<close> and the read verbs \<open>get\<close>,
  \<open>list\<close>, \<open>read_at\<close> and \<open>pull\<close>, as functions of the space and the store.  \<open>admit\<close> stages its changes
  in the record \<open>Admitting\<close> (the local variables of the source) and applies one batch at the end;
  the staging \<open>BTreeMap\<close>s are the ordered maps of \<open>Store\<close>.  Every \<open>expect\<close>, \<open>assert\<close> and early
  return of the source is a branch.  Unsigned additions wrap, as in a release build.
\<close>

subsection \<open>Rendering of the seal error\<close>

fun show_nat :: "nat \<Rightarrow> string" where
  "show_nat n = (if n < 10 then [char_of (n + 48)] else show_nat (n div 10) @ [char_of (n mod 10 + 48)])"

declare show_nat.simps [simp del]

fun SealPayloadError_to_string :: "SealPayloadError \<Rightarrow> string" where
  "SealPayloadError_to_string (UnexpectedPayload AeadV1 payload_len) =
     ''seal scheme AeadV1 does not allow payload of '' @ show_nat payload_len @ '' bytes''"

subsection \<open>Record accessors\<close>

definition data_record :: "SpaceId \<Rightarrow> MemoryStore \<Rightarrow> key \<Rightarrow> Error + DataRecord option" where
  "data_record space st key =
     read_with (DataRecord_decode key) ''corrupt data record'' (MemoryStore_get st (data_key space key))"

definition range_delete_record :: "SpaceId \<Rightarrow> MemoryStore \<Rightarrow> Range \<Rightarrow> Error + RangeDeleteRecord option" where
  "range_delete_record space st rng =
     read_with (RangeDeleteRecord_decode rng) ''corrupt range-delete record''
       (MemoryStore_get st (range_delete_key space rng))"

definition device_record :: "SpaceId \<Rightarrow> MemoryStore \<Rightarrow> DeviceId \<Rightarrow> Error + DeviceRecord option" where
  "device_record space st device =
     read_with DeviceRecord_decode ''corrupt device record'' (MemoryStore_get st (device_key space device))"

text \<open>The read of one covering tombstone, the body shared by the three loops over
  \<open>covering_range_delete_keys\<close>.\<close>

definition covering_tombstone :: "MemoryStore \<Rightarrow> bytes \<Rightarrow> Error + RangeDeleteRecord option" where
  "covering_tombstone st storage_key =
     (case MemoryStore_get st storage_key of
        None \<Rightarrow> Inr None
      | Some bs \<Rightarrow>
          rbind (ok_or (Panic ''corrupt range-delete key'') (range_delete_parts storage_key)) (\<lambda>(_, rng).
          rbind (ok_or (Panic ''corrupt range-delete record'') (RangeDeleteRecord_decode rng bs)) (\<lambda>rec.
            Inr (Some rec))))"

definition covering_range_delete :: "SpaceId \<Rightarrow> MemoryStore \<Rightarrow> Range \<Rightarrow> Error + RangeDeleteRecord option" where
  "covering_range_delete space st target =
     rfold (\<lambda>newest storage_key.
       rbind (covering_tombstone st storage_key) (\<lambda>found. Inr
         (case found of
            None \<Rightarrow> newest
          | Some rec \<Rightarrow>
              if (case newest of None \<Rightarrow> True | Some current \<Rightarrow> order_of (rd_entry rec) > order_of (rd_entry current))
              then Some rec else newest)))
       None (covering_range_delete_keys space target)"

fun max_ver :: "Ver option \<Rightarrow> Ver option \<Rightarrow> Ver option" where
  "max_ver (Some l) (Some r) = Some (max l r)"
| "max_ver (Some v) None = Some v"
| "max_ver None (Some v) = Some v"
| "max_ver None None = None"

definition covering_range_max_ver :: "SpaceId \<Rightarrow> MemoryStore \<Rightarrow> key \<Rightarrow> Error + Ver option" where
  "covering_range_max_ver space st key =
     rfold (\<lambda>mx storage_key.
       rbind (covering_tombstone st storage_key) (\<lambda>found. Inr
         (case found of None \<Rightarrow> mx | Some rec \<Rightarrow> max_ver mx (Some (rd_max_ver rec)))))
       None (covering_range_delete_keys space (Prefix key))"

definition entry_key :: "admitted \<Rightarrow> Error + key" where
  "entry_key e = ok_or (Panic ''range entry has no point key'') (AdmittedEntry_point_key e)"

definition point_record_visible :: "SpaceId \<Rightarrow> MemoryStore \<Rightarrow> DataRecord \<Rightarrow> Error + bool" where
  "point_record_visible space st rec =
     (if \<not> is_set (mutation_of rec) then Inr False
      else rbind (entry_key rec) (\<lambda>key.
        rbind (covering_range_delete space st (Prefix key)) (\<lambda>covering. Inr
          (case covering of None \<Rightarrow> True | Some del \<Rightarrow> order_of rec > order_of (rd_entry del)))))"

definition newest_covering_reset ::
  "SpaceId \<Rightarrow> MemoryStore \<Rightarrow> Range \<Rightarrow> admitted list \<Rightarrow> Error + AdmissionOrder option" where
  "newest_covering_reset space st target staged_events =
     rbind (covering_range_delete space st target) (\<lambda>covering. Inr
       (foldl (\<lambda>newest ord. Some (case newest of None \<Rightarrow> ord | Some current \<Rightarrow> max current ord))
          (map_option (\<lambda>rec. order_of (rd_entry rec)) covering)
          (map order_of
             (filter (\<lambda>e. case mutation_of e of DeleteRange rng \<Rightarrow> covers_range rng target | _ \<Rightarrow> False)
                staged_events))))"

definition point_record_visible_with_events ::
  "SpaceId \<Rightarrow> MemoryStore \<Rightarrow> DataRecord option \<Rightarrow> admitted list \<Rightarrow> Error + bool" where
  "point_record_visible_with_events space st record staged_events =
     (case record of
        None \<Rightarrow> Inr False
      | Some rec \<Rightarrow>
          if \<not> is_set (mutation_of rec) then Inr False
          else rbind (entry_key rec) (\<lambda>key.
            rbind (newest_covering_reset space st (Prefix key) staged_events) (\<lambda>reset. Inr
              (case reset of None \<Rightarrow> True | Some ord \<Rightarrow> order_of rec > ord))))"

record EffectiveHistory =
  eh_history :: HistoricalHeads
  eh_max_ver :: Ver

definition EffectiveHistory_max_excluding :: "EffectiveHistory \<Rightarrow> DeviceId \<Rightarrow> AdmissionSeq" where
  "EffectiveHistory_max_excluding h device = HistoricalHeads_max_excluding (eh_history h) device"

definition aggregate_at :: "SpaceId \<Rightarrow> MemoryStore \<Rightarrow> Range \<Rightarrow> Error + PrefixMetaRecord" where
  "aggregate_at space st target =
     rbind (read_with PrefixMetaRecord_decode ''corrupt aggregate record''
         (MemoryStore_get st
            (case target of Full \<Rightarrow> root_meta_key space | Prefix pre \<Rightarrow> prefix_meta_key space pre)))
       (\<lambda>found. Inr (case found of None \<Rightarrow> PrefixMetaRecord_empty | Some rec \<Rightarrow> rec))"

definition effective_history :: "SpaceId \<Rightarrow> MemoryStore \<Rightarrow> Range \<Rightarrow> Error + EffectiveHistory" where
  "effective_history space st target =
     rbind (aggregate_at space st target) (\<lambda>aggregate.
       rfold (\<lambda>effective storage_key.
         rbind (covering_tombstone st storage_key) (\<lambda>found. Inr
           (case found of
              None \<Rightarrow> effective
            | Some rec \<Rightarrow> \<lparr>eh_history = HistoricalHeads_merge (rd_history rec) (eh_history effective),
                eh_max_ver = max (eh_max_ver effective) (rd_max_ver rec)\<rparr>)))
         \<lparr>eh_history = pm_history aggregate, eh_max_ver = pm_max_ver aggregate\<rparr>
         (covering_range_delete_keys space target))"

definition effective_live_count :: "SpaceId \<Rightarrow> MemoryStore \<Rightarrow> Range \<Rightarrow> Error + u64" where
  "effective_live_count space st target =
     rbind (aggregate_at space st target) (\<lambda>aggregate.
     rbind (covering_range_delete space st target) (\<lambda>covering. Inr
       (case map_option (\<lambda>rec. order_of (rd_entry rec)) covering of
          Some reset \<Rightarrow> if pm_count_epoch aggregate < reset then 0 else pm_live_count aggregate
        | None \<Rightarrow> pm_live_count aggregate)))"

fun mutation_relevant :: "Range \<Rightarrow> 'v Mutation \<Rightarrow> bool" where
  "mutation_relevant query (Set key _) = covers_key query key"
| "mutation_relevant query (Delete key) = covers_key query key"
| "mutation_relevant query (DeleteRange rng) = overlaps query rng"

subsection \<open>Aggregates along the path of an operation\<close>

type_synonym aggregates = "(bytes, PrefixMetaRecord) btree"

definition aggregate_path :: "SpaceId \<Rightarrow> Range \<Rightarrow> Error + (Range \<times> bytes) list" where
  "aggregate_path space rng =
     (case rng of
        Full \<Rightarrow> Inr [(Full, root_meta_key space)]
      | Prefix components \<Rightarrow>
          rbind (rmap (\<lambda>depth.
              rbind (map_err (\<lambda>_. Panic ''a prefix of a valid key is valid'') (Key_from_bytes (take depth components)))
                (\<lambda>node. Inr (Prefix node, prefix_meta_key space (take depth components))))
              [1..<length components + 1])
            (\<lambda>rest. Inr ((Full, root_meta_key space) # rest)))"

definition load_aggregate :: "MemoryStore \<Rightarrow> aggregates \<Rightarrow> bytes \<Rightarrow> Error + aggregates" where
  "load_aggregate st staged key =
     (case bt_get staged key of
        Some _ \<Rightarrow> Inr staged
      | None \<Rightarrow>
          rbind (read_with PrefixMetaRecord_decode ''corrupt prefix meta record'' (MemoryStore_get st key)) (\<lambda>found.
            Inr (bt_insert key (case found of None \<Rightarrow> PrefixMetaRecord_empty | Some rec \<Rightarrow> rec) staged)))"

definition staged_aggregate :: "aggregates \<Rightarrow> bytes \<Rightarrow> Error + PrefixMetaRecord" where
  "staged_aggregate staged key = ok_or (Panic ''aggregate was loaded'') (bt_get staged key)"

definition materialize_aggregate ::
  "SpaceId \<Rightarrow> MemoryStore \<Rightarrow> admitted list \<Rightarrow> aggregates \<Rightarrow> Range \<times> bytes \<Rightarrow> Error + aggregates" where
  "materialize_aggregate space st staged_events staged node =
     (case node of (target, key) \<Rightarrow>
      rbind (load_aggregate st staged key) (\<lambda>staged.
      rbind (newest_covering_reset space st target staged_events) (\<lambda>reset.
        case reset of
          None \<Rightarrow> Inr staged
        | Some reset \<Rightarrow>
            rbind (staged_aggregate staged key) (\<lambda>rec. Inr
              (if pm_count_epoch rec < reset
               then bt_insert key (rec\<lparr>pm_live_count := 0, pm_count_epoch := reset\<rparr>) staged
               else staged)))))"

definition apply_point_count ::
  "SpaceId \<Rightarrow> MemoryStore \<Rightarrow> aggregates \<Rightarrow> admitted list \<Rightarrow> DeviceId \<Rightarrow> key \<Rightarrow> AdmissionSeq \<Rightarrow> Ver \<Rightarrow>
   AdmissionOrder \<Rightarrow> int \<Rightarrow> Error + aggregates" where
  "apply_point_count space st staged staged_events device key seq ver ord delta =
     rbind (aggregate_path space (Prefix key)) (\<lambda>path.
       rfold (\<lambda>staged node.
         rbind (materialize_aggregate space st staged_events staged node) (\<lambda>staged.
         rbind (staged_aggregate staged (snd node)) (\<lambda>rec.
           let rec = observe_history device seq ver rec in
           rbind (ok_or (Panic ''live count underflow: aggregates diverged from visible point state'')
               (checked_add_signed (pm_live_count rec) delta)) (\<lambda>count. Inr
             (bt_insert (snd node) (materialize_count_at ord (rec\<lparr>pm_live_count := count\<rparr>)) staged)))))
         staged path)"

definition apply_range_count ::
  "SpaceId \<Rightarrow> MemoryStore \<Rightarrow> aggregates \<Rightarrow> admitted list \<Rightarrow> DeviceId \<Rightarrow> Range \<Rightarrow> AdmissionSeq \<Rightarrow> Ver \<Rightarrow>
   AdmissionOrder \<Rightarrow> Error + aggregates" where
  "apply_range_count space st staged staged_events device rng seq ver ord =
     rbind (aggregate_path space rng) (\<lambda>path.
     rbind (rfold (materialize_aggregate space st staged_events) staged path) (\<lambda>staged.
     rbind (if path = [] then Inl (Panic ''aggregate path has Full root'') else Inr (snd (last path))) (\<lambda>target_key.
     rbind (ok_or (Panic ''target aggregate was loaded'') (bt_get staged target_key)) (\<lambda>target.
       let removed = pm_live_count target in
       rfold (\<lambda>staged (index, node).
         rbind (staged_aggregate staged (snd node)) (\<lambda>rec.
           let rec = observe_history device seq ver rec in
           if index + 1 = length path
           then Inr (bt_insert (snd node) (rec\<lparr>pm_live_count := 0, pm_count_epoch := ord\<rparr>) staged)
           else rbind (ok_or (Panic ''live count underflow: range count exceeds ancestor count'')
                   (checked_sub64 (pm_live_count rec) removed)) (\<lambda>count. Inr
                 (bt_insert (snd node) (materialize_count_at ord (rec\<lparr>pm_live_count := count\<rparr>)) staged))))
         staged (enumerate 0 path)))))"

subsection \<open>Admission\<close>

record Admitting =
  am_checksum :: DeviceChecksum
  am_next_seq :: AdmissionSeq
  am_results :: "AdmissionResult list"
  am_batch :: WriteBatch
  am_staged :: "(key, DataRecord) btree"
  am_ranges :: "(Range, RangeDeleteRecord) btree"
  am_events :: "admitted list"
  am_aggregates :: aggregates

definition iter_max :: "'a :: linorder list \<Rightarrow> 'a option" where
  "iter_max xs = (case xs of [] \<Rightarrow> None | x # xs \<Rightarrow> Some (fold max xs x))"

fun check_device_seqs :: "DeviceSeq \<Rightarrow> bool \<Rightarrow> AdmissionBatch list \<Rightarrow> Error + DeviceSeq" where
  "check_device_seqs last_seq first_batch [] = Inr last_seq"
| "check_device_seqs last_seq first_batch (b # bs) =
     (if ab_device_seq b \<le> last_seq then Inl (Kernel (DeviceSeqRegression last_seq (ab_device_seq b)))
      else if \<not> first_batch \<and> ab_device_seq b \<noteq> last_seq + 1
      then Inl (Kernel (DeviceSeqRegression last_seq (ab_device_seq b)))
      else check_device_seqs (ab_device_seq b) False bs)"

definition range_assert_failures ::
  "SpaceId \<Rightarrow> MemoryStore \<Rightarrow> DeviceId \<Rightarrow> AdmissionBatch \<Rightarrow> Error + RangeAssertFailure list" where
  "range_assert_failures space st device b =
     rfold (\<lambda>failures asrt.
       rbind (effective_history space st (Prefix (ra_prefix asrt))) (\<lambda>effective.
         let actual = EffectiveHistory_max_excluding effective device in
         Inr (if actual > ra_upto asrt
              then failures @ [\<lparr>rf_prefix = ra_prefix asrt, rf_upto = ra_upto asrt, rf_actual = actual\<rparr>]
              else failures)))
       [] (ab_range_asserts b)"

definition failed_response :: "nat \<Rightarrow> KernelError \<Rightarrow> DeviceChecksum \<Rightarrow> AdmissionResponse" where
  "failed_response count err checksum = \<lparr>resp_checksum = checksum, resp_results = map (\<lambda>_. Failed err) [0..<count]\<rparr>"

definition admit_point ::
  "SpaceId \<Rightarrow> MemoryStore \<Rightarrow> DeviceId \<Rightarrow> admitted \<Rightarrow> key \<Rightarrow> Admitting \<Rightarrow> Error + Admitting" where
  "admit_point space st device e key am =
     rbind (case bt_get (am_staged am) key of Some _ \<Rightarrow> Inr None | None \<Rightarrow> data_record space st key) (\<lambda>stored.
     let record = (case bt_get (am_staged am) key of Some rec \<Rightarrow> Some rec | None \<Rightarrow> stored) in
     rbind (point_record_visible_with_events space st record (am_events am)) (\<lambda>prior_live.
     rbind (covering_range_max_ver space st key) (\<lambda>covering.
     let current_ver = max_ver (max_ver (map_option AdmittedEntry_ver record) covering)
           (iter_max (map AdmittedEntry_ver
             (filter (\<lambda>event. case mutation_of event of DeleteRange rng \<Rightarrow> covers_key rng key | _ \<Rightarrow> False)
               (am_events am))));
         ver = AdmittedEntry_ver e
     in if (case current_ver of Some current \<Rightarrow> ver \<le> current | None \<Rightarrow> False)
        then Inl (Kernel (VerRegression key (the current_ver) ver))
        else rbind (apply_point_count space st (am_aggregates am) (am_events am) device key (seq_of e) ver (order_of e)
                 (of_bool (is_set (mutation_of e)) - of_bool prior_live)) (\<lambda>aggregates.
             rbind (DataRecord_encode e) (\<lambda>bs. Inr
               (am\<lparr>am_aggregates := aggregates,
                   am_staged := bt_insert key e (am_staged am),
                   am_batch := WriteBatch_put (admission_op_key space (seq_of e) (at_op_index (ae_admission e)) key) bs
                     (am_batch am)\<rparr>))))))"

definition admit_range ::
  "SpaceId \<Rightarrow> MemoryStore \<Rightarrow> DeviceId \<Rightarrow> admitted \<Rightarrow> Range \<Rightarrow> Admitting \<Rightarrow> Error + Admitting" where
  "admit_range space st device e rng am =
     rbind (effective_history space st rng) (\<lambda>effective.
     let current_ver = max_ver
           (if HistoricalHeads_max_admission_seq (eh_history effective) \<noteq> 0 then Some (eh_max_ver effective) else None)
           (iter_max (map AdmittedEntry_ver
             (filter (\<lambda>event. mutation_relevant rng (mutation_of event)) (am_events am))));
         ver = AdmittedEntry_ver e
     in if (case current_ver of Some current \<Rightarrow> ver \<le> current | None \<Rightarrow> False)
        then Inl (Kernel (RangeVerRegression rng (the current_ver) ver))
        else rbind (apply_range_count space st (am_aggregates am) (am_events am) device rng (seq_of e) ver (order_of e)) (\<lambda>aggregates.
             rbind (case bt_get (am_ranges am) rng of
                      Some rec \<Rightarrow> RangeDeleteRecord_observe e rec
                    | None \<Rightarrow>
                        rbind (range_delete_record space st rng) (\<lambda>stored.
                        rbind (case stored of Some rec \<Rightarrow> Inr rec | None \<Rightarrow> RangeDeleteRecord_new e) (\<lambda>rec.
                          if order_of (rd_entry rec) \<noteq> order_of e then RangeDeleteRecord_observe e rec else Inr rec))) (\<lambda>rec.
             rbind (rbind (RangeDeleteRecord_new e) RangeDeleteRecord_encode) (\<lambda>bs. Inr
               (am\<lparr>am_aggregates := aggregates,
                   am_ranges := bt_insert rng rec (am_ranges am),
                   am_batch := WriteBatch_put (admission_range_op_key space (seq_of e) (at_op_index (ae_admission e)) rng) bs
                     (am_batch am)\<rparr>)))))"

definition admit_entry ::
  "SpaceId \<Rightarrow> MemoryStore \<Rightarrow> DeviceId \<Rightarrow> DeviceSeq \<Rightarrow> AdmissionSeq \<Rightarrow> Admitting \<Rightarrow> nat \<times> entry \<Rightarrow> Error + Admitting" where
  "admit_entry space st device device_seq seq am indexed =
     (case indexed of (i, entry) \<Rightarrow>
      if i \<ge> 2 ^ 32 then Inl (Kernel (InvalidSeal ''admission batch has too many entries''))
      else if dt_device (de_tag entry) \<noteq> device \<or> dt_device_seq (de_tag entry) \<noteq> device_seq
      then Inl (Kernel (InvalidSeal ''device entry tag does not match its admission batch''))
      else rbind (map_err (\<lambda>err. Kernel (InvalidSeal (SealPayloadError_to_string err))) (validate_payload (de_seal entry))) (\<lambda>_.
        let e = \<lparr>ae_device_entry = entry, ae_admission = \<lparr>at_admission_seq = seq, at_op_index = of_nat i\<rparr>\<rparr> in
        rbind (case de_mutation entry of
                 Set key _ \<Rightarrow> admit_point space st device e key am
               | Delete key \<Rightarrow> admit_point space st device e key am
               | DeleteRange rng \<Rightarrow> admit_range space st device e rng am) (\<lambda>am.
          Inr (am\<lparr>am_events := am_events am @ [e]\<rparr>))))"

text \<open>One client batch: \<open>Inl\<close> is a return from \<open>admit\<close>, which for a failed range assert is a
  successful response.\<close>

definition admit_batch ::
  "(bytes \<Rightarrow> bytes) \<Rightarrow> SpaceId \<Rightarrow> MemoryStore \<Rightarrow> AdmissionRequest \<Rightarrow> DeviceChecksum \<Rightarrow> Admitting \<Rightarrow> AdmissionBatch \<Rightarrow>
   (Error + AdmissionResponse) + Admitting" where
  "admit_batch sha256 space st req current am b =
     rbind (map_err Inl (range_assert_failures space st (ar_device req) b)) (\<lambda>failures.
     if failures \<noteq> []
     then Inl (Inr (failed_response (length (ar_batches req)) (RangeAssertFailed failures) current))
     else let checksum = AdmissionBatch_checksum sha256 (am_checksum am) space (ar_device req) b in
       if length (ab_entries b) \<ge> 2 ^ 32
       then Inl (Inl (Kernel (InvalidSeal ''admission batch has too many entries'')))
       else let seq = am_next_seq am in
         rbind (map_err Inl (rfold (admit_entry space st (ar_device req) (ab_device_seq b) seq)
             (am\<lparr>am_checksum := checksum, am_results := am_results am @ [Applied seq], am_next_seq := seq + 1\<rparr>)
             (enumerate 0 (ab_entries b)))) (\<lambda>am. Inr
           (am\<lparr>am_batch := WriteBatch_put (admission_header_key space seq)
              (AdmissionHeaderRecord_encode
                 \<lparr>ah_device = ar_device req, ah_device_seq = ab_device_seq b, ah_checksum = checksum,
                  ah_operation_count = of_nat (length (ab_entries b))\<rparr>) (am_batch am)\<rparr>)))"

text \<open>The final batch: point data, tombstones, aggregates, the device and the counters.\<close>

definition admit_commit ::
  "SpaceId \<Rightarrow> DeviceId \<Rightarrow> DeviceSeq \<Rightarrow> CountersRecord \<Rightarrow> Admitting \<Rightarrow> Error + WriteBatch" where
  "admit_commit space device last_seq c am =
     rbind (rfold (\<lambda>batch (key, rec). rbind (DataRecord_encode rec) (\<lambda>bs. Inr (WriteBatch_put (data_key space key) bs batch)))
         (am_batch am) (am_staged am)) (\<lambda>batch.
     rbind (rfold (\<lambda>batch (rng, rec). rbind (RangeDeleteRecord_encode rec) (\<lambda>bs. Inr (WriteBatch_put (range_delete_key space rng) bs batch)))
         batch (am_ranges am)) (\<lambda>batch. Inr
       (let batch = foldl (\<lambda>batch (meta_key, rec). WriteBatch_put meta_key (PrefixMetaRecord_encode rec) batch) batch (am_aggregates am);
            batch = WriteBatch_put (device_key space device)
              (DeviceRecord_encode \<lparr>dr_last_seq = last_seq, dr_checksum = am_checksum am\<rparr>) batch
        in WriteBatch_put (counters_key space)
             (CountersRecord_encode (c\<lparr>admission_high_water := am_next_seq am - 1\<rparr>)) batch)))"

definition request_entries :: "AdmissionRequest \<Rightarrow> entry list" where
  "request_entries req = concat (map ab_entries (ar_batches req))"

definition admit ::
  "(bytes \<Rightarrow> bytes) \<Rightarrow> SpaceId \<Rightarrow> LeaseManager \<Rightarrow> MemoryStore \<Rightarrow> Timestamp \<Rightarrow> AdmissionRequest \<Rightarrow>
   (Error + AdmissionResponse) \<times> MemoryStore" where
  "admit sha256 space leases st now req =
     (case
        rbind (map_err Inl (device_record space st (ar_device req))) (\<lambda>record.
        let last_seq = (case record of None \<Rightarrow> 0 | Some rec \<Rightarrow> dr_last_seq rec);
            current = (case record of None \<Rightarrow> DeviceChecksum_EMPTY | Some rec \<Rightarrow> dr_checksum rec)
        in if ar_expected_checksum req \<noteq> current then Inl (Inl (Kernel (DeviceChecksumMismatch last_seq current)))
        else rbind (map_err Inl (check_device_seqs last_seq True (ar_batches req))) (\<lambda>last_seq.
        rbind (map_err Inl (validate_writes leases st now (ar_device req) (ar_evidence req)
            (List.map_filter (\<lambda>entry. point_key (de_mutation entry)) (request_entries req))
            (List.map_filter (\<lambda>entry. mutation_range (de_mutation entry)) (request_entries req)))) (\<lambda>_.
        rbind (map_err Inl (counters space st)) (\<lambda>c.
        rbind (rfold (admit_batch sha256 space st req current)
            \<lparr>am_checksum = current, am_next_seq = admission_high_water c + 1, am_results = [], am_batch = [],
             am_staged = [], am_ranges = [], am_events = [], am_aggregates = []\<rparr> (ar_batches req)) (\<lambda>am.
        rbind (map_err Inl (admit_commit space (ar_device req) last_seq c am)) (\<lambda>batch. Inr
          (\<lparr>resp_checksum = am_checksum am, resp_results = am_results am\<rparr>, batch)))))))
      of
        Inl early \<Rightarrow> (early, st)
      | Inr (resp, batch) \<Rightarrow> (Inr resp, MemoryStore_apply batch st))"

subsection \<open>Reads\<close>

definition get :: "SpaceId \<Rightarrow> MemoryStore \<Rightarrow> key list \<Rightarrow> Error + admitted option list" where
  "get space st keys =
     rmap (\<lambda>key.
       rbind (data_record space st key) (\<lambda>record.
         case record of
           None \<Rightarrow> Inr None
         | Some rec \<Rightarrow> rbind (point_record_visible space st rec) (\<lambda>visible. Inr (if visible then Some rec else None)))) keys"

fun list_loop ::
  "SpaceId \<Rightarrow> MemoryStore \<Rightarrow> nat option \<Rightarrow> (bytes \<times> bytes) list \<Rightarrow> admitted list \<Rightarrow> Error + ListResponse" where
  "list_loop space st limit [] entries = Inr \<lparr>lr_entries = entries, lr_truncated = False\<rparr>"
| "list_loop space st limit ((storage_key, bs) # kvs) entries =
     rbind (ok_or (Panic ''corrupt data key'') (user_key_from_data storage_key)) (\<lambda>key.
     rbind (ok_or (Panic ''corrupt data record'') (DataRecord_decode key bs)) (\<lambda>rec.
     rbind (point_record_visible space st rec) (\<lambda>visible.
       if \<not> visible then list_loop space st limit kvs entries
       else if (case limit of None \<Rightarrow> False | Some n \<Rightarrow> length entries \<ge> n)
       then Inr \<lparr>lr_entries = entries, lr_truncated = True\<rparr>
       else list_loop space st limit kvs (entries @ [rec]))))"

definition list_start :: "SpaceId \<Rightarrow> ListRequest \<Rightarrow> bytes" where
  "list_start space req =
     (case lq_start_after req of
        Some key \<Rightarrow> max (data_key space key @ [0x00]) (data_key space (lq_prefix req))
      | None \<Rightarrow> data_key space (lq_prefix req))"

definition list_entries :: "SpaceId \<Rightarrow> MemoryStore \<Rightarrow> ListRequest \<Rightarrow> Error + ListResponse" where
  "list_entries space st req =
     rbind (MemoryStore_scan st (list_start space req) (prefix_successor (data_key space (lq_prefix req)))) (\<lambda>kvs.
       list_loop space st (lq_limit req) kvs [])"

text \<open>One operation of the admission log, checked against the header of its batch.\<close>

definition read_operation ::
  "AdmissionSeq \<Rightarrow> AdmissionHeaderRecord \<Rightarrow> admitted list \<Rightarrow> bytes \<times> bytes \<Rightarrow> Error + admitted list" where
  "read_operation seq header entries kv =
     rbind (ok_or (Panic ''corrupt admission operation key'') (admission_op_parts (fst kv))) (\<lambda>(stored_seq, op_index, target).
     if stored_seq \<noteq> seq then Inl (Panic ''admission operation in wrong batch'')
     else if unat op_index \<noteq> length entries then Inl (Panic ''admission operation gap'')
     else rbind (case target of
                   TPoint key \<Rightarrow> ok_or (Panic ''corrupt point admission operation'') (DataRecord_decode key (snd kv))
                 | TRange rng \<Rightarrow> rbind (ok_or (Panic ''corrupt range admission operation'') (RangeDeleteRecord_decode rng (snd kv)))
                     (\<lambda>rec. Inr (rd_entry rec))) (\<lambda>entry.
       if device_of entry \<noteq> ah_device header
       then Inl (Panic ''admission operation device disagrees with its header'')
       else if dt_device_seq (de_tag (ae_device_entry entry)) \<noteq> ah_device_seq header
       then Inl (Panic ''admission operation device seq disagrees with its header'')
       else if order_of entry \<noteq> AdmissionOrder seq op_index
       then Inl (Panic ''admission operation tag disagrees with its storage key'')
       else Inr (entries @ [entry])))"

definition read_batch :: "SpaceId \<Rightarrow> MemoryStore \<Rightarrow> AdmissionSeq \<Rightarrow> Error + AdmittedBatch" where
  "read_batch space st seq =
     rbind (ok_or (Panic ''missing or corrupt admission header below high water'')
         (Option.bind (MemoryStore_get st (admission_header_key space seq)) AdmissionHeaderRecord_decode)) (\<lambda>header.
     rbind (scan_prefix st (admission_op_scan space seq)) (\<lambda>kvs.
     rbind (rfold (read_operation seq header) [] kvs) (\<lambda>entries.
       if length entries \<noteq> unat (ah_operation_count header)
       then Inl (Panic ''admission header operation count mismatch'')
       else Inr \<lparr>b_admission_seq = seq, b_device = ah_device header, b_device_seq = ah_device_seq header,
              b_checksum = ah_checksum header, b_entries = entries\<rparr>)))"

definition read_admission_interval ::
  "SpaceId \<Rightarrow> MemoryStore \<Rightarrow> AdmissionSeq \<Rightarrow> AdmissionSeq \<Rightarrow> Error + AdmittedBatch list" where
  "read_admission_interval space st lo through =
     rmap (read_batch space st) (map of_nat [unat (sat_add64 lo 1)..<unat through + 1])"

definition pull :: "SpaceId \<Rightarrow> MemoryStore \<Rightarrow> PullRequest \<Rightarrow> Error + PullResponse" where
  "pull space st req =
     rbind (counters space st) (\<lambda>c.
     let high_water = admission_high_water c in
     if pq_after req > high_water then Inl (Kernel (AdmissionCursorAhead (pq_after req) high_water))
     else let available = sat_sub64 high_water (pq_after req);
              limit = (case pq_max_batches req of None \<Rightarrow> - 1 | Some n \<Rightarrow> if n < 2 ^ 64 then of_nat n else - 1);
              through = pq_after req + min available limit
       in rbind (read_admission_interval space st (pq_after req) through) (\<lambda>batches.
            let response = \<lparr>ps_after = pq_after req, ps_through = through, ps_batches = batches\<rparr> in
            rbind (map_err (\<lambda>_. Panic ''server constructed a malformed dense pull'') (validate_dense response)) (\<lambda>_.
              Inr response)))"

fun visible_entries :: "SpaceId \<Rightarrow> MemoryStore \<Rightarrow> (bytes \<times> bytes) list \<Rightarrow> Error + admitted list" where
  "visible_entries space st [] = Inr []"
| "visible_entries space st ((storage_key, bs) # kvs) =
     rbind (ok_or (Panic ''corrupt data key'') (user_key_from_data storage_key)) (\<lambda>key.
     rbind (ok_or (Panic ''corrupt data record'') (DataRecord_decode key bs)) (\<lambda>rec.
     rbind (point_record_visible space st rec) (\<lambda>visible.
     rbind (visible_entries space st kvs) (\<lambda>entries. Inr (if visible then rec # entries else entries)))))"

definition snapshot :: "SpaceId \<Rightarrow> MemoryStore \<Rightarrow> Range \<Rightarrow> Error + admitted list" where
  "snapshot space st rng =
     rbind (effective_live_count space st rng) (\<lambda>count.
     if count = 0 then Inr []
     else rbind (scan_prefix st (case rng of Full \<Rightarrow> data_scan_all space | Prefix pre \<Rightarrow> data_key space pre))
       (visible_entries space st))"

definition delta :: "SpaceId \<Rightarrow> MemoryStore \<Rightarrow> Range \<Rightarrow> AdmissionSeq \<Rightarrow> AdmissionSeq \<Rightarrow> Error + admitted list" where
  "delta space st rng since at =
     rbind (effective_history space st rng) (\<lambda>effective.
     if HistoricalHeads_max_admission_seq (eh_history effective) \<le> since then Inr []
     else rbind (read_admission_interval space st since at) (\<lambda>batches. Inr
       (concat (map (\<lambda>b. filter (\<lambda>e. mutation_relevant rng (mutation_of e)) (b_entries b)) batches))))"

definition read_at :: "SpaceId \<Rightarrow> MemoryStore \<Rightarrow> RangeCursor list \<Rightarrow> Error + ReadAtResponse" where
  "read_at space st ranges =
     rbind (counters space st) (\<lambda>c.
     let at = admission_high_water c in
     rbind (rmap (\<lambda>cursor.
         case rc_since cursor of
           None \<Rightarrow> rbind (snapshot space st (rc_range cursor)) (\<lambda>entries. Inr (Snapshot entries))
         | Some since \<Rightarrow> rbind (delta space st (rc_range cursor) since at) (\<lambda>entries. Inr (Delta entries))) ranges)
       (\<lambda>cuts. Inr \<lparr>rat_at = at, rat_ranges = cuts\<rparr>))"

end
