(* ===== verification/DataView.thy ===== *)
theory DataView
  imports Data
begin

text \<open>
  What the stored records of the data plane mean: \<open>view_ok space st log\<close> says that point data,
  tombstones and aggregates are the summaries of the admission log \<open>log\<close>.  The lemmas evaluate every
  accessor of the data plane under it: each returns what the log says, and none panics.
\<close>

subsection \<open>The view\<close>

fun node_key :: "Range \<Rightarrow> skey" where
  "node_key Full = KRoot"
| "node_key (Prefix p) = KPrefixMeta p"

definition view_ok :: "SpaceId \<Rightarrow> MemoryStore \<Rightarrow> admitted list \<Rightarrow> bool" where
  "view_ok space st log \<longleftrightarrow>
     (\<forall>k. wf_key k \<longrightarrow> sget space st (KData k) = map_option data_bytes (last_point log k)) \<and>
     (\<forall>r. wf_range r \<longrightarrow>
        (case last_range log r of
           None \<Rightarrow> sget space st (KRangeDelete r) = None
         | Some _ \<Rightarrow> \<exists>rec. tomb_ok log r rec \<and> sget space st (KRangeDelete r) = Some (tombstone_bytes rec))) \<and>
     (\<forall>n. wf_range n \<longrightarrow>
        (\<exists>rec. agg_ok log n rec \<and>
           (sget space st (node_key n) = Some (PrefixMetaRecord_encode rec) \<or>
            sget space st (node_key n) = None \<and> rec = PrefixMetaRecord_empty)))"

lemma view_okD:
  assumes "view_ok space st log"
  shows "wf_key k \<Longrightarrow> MemoryStore_get st (data_key space k) = map_option data_bytes (last_point log k)"
    and "wf_range r \<Longrightarrow> last_range log r = None \<Longrightarrow> MemoryStore_get st (range_delete_key space r) = None"
    and "wf_range r \<Longrightarrow> last_range log r = Some e \<Longrightarrow>
      \<exists>rec. tomb_ok log r rec \<and> MemoryStore_get st (range_delete_key space r) = Some (tombstone_bytes rec)"
    and "wf_range n \<Longrightarrow> \<exists>rec. agg_ok log n rec \<and>
      (sget space st (node_key n) = Some (PrefixMetaRecord_encode rec) \<or>
       sget space st (node_key n) = None \<and> rec = PrefixMetaRecord_empty)"
proof -
  show "wf_key k \<Longrightarrow> MemoryStore_get st (data_key space k) = map_option data_bytes (last_point log k)"
    using assms by (simp add: view_ok_def sget_def skey_bytes_eqs)
  have r: "wf_range r \<Longrightarrow> (case last_range log r of
           None \<Rightarrow> sget space st (KRangeDelete r) = None
         | Some _ \<Rightarrow> \<exists>rec. tomb_ok log r rec \<and> sget space st (KRangeDelete r) = Some (tombstone_bytes rec))"
    using assms unfolding view_ok_def by blast
  then show "wf_range r \<Longrightarrow> last_range log r = None \<Longrightarrow> MemoryStore_get st (range_delete_key space r) = None"
    and "wf_range r \<Longrightarrow> last_range log r = Some e \<Longrightarrow>
      \<exists>rec. tomb_ok log r rec \<and> MemoryStore_get st (range_delete_key space r) = Some (tombstone_bytes rec)"
    by (simp_all add: sget_def skey_bytes_eqs)
  show "wf_range n \<Longrightarrow> \<exists>rec. agg_ok log n rec \<and>
      (sget space st (node_key n) = Some (PrefixMetaRecord_encode rec) \<or>
       sget space st (node_key n) = None \<and> rec = PrefixMetaRecord_empty)"
    using assms unfolding view_ok_def by blast
qed

lemma wf_node_key [simp]: "wf_range n \<Longrightarrow> wf_skey (node_key n)"
  by (cases n) auto

lemma node_key_inject [simp]: "node_key a = node_key b \<longleftrightarrow> a = b"
  by (cases a; cases b) auto

lemma log_ok_valid:
  "log_ok log \<Longrightarrow> e \<in> set log \<Longrightarrow> valid_stored e" "log_ok log \<Longrightarrow> e \<in> set log \<Longrightarrow> wf_mutation (mutation_of e)"
  "log_ok log \<Longrightarrow> ascending log"
  unfolding log_ok_def by blast+

lemma data_record_view:
  assumes "view_ok space st log" "log_ok log" "wf_key k"
  shows "data_record space st k = Inr (last_point log k)"
proof -
  have "MemoryStore_get st (data_key space k) = map_option data_bytes (last_point log k)"
    by (rule view_okD(1) [OF assms(1,3)])
  moreover have "pred_option (\<lambda>e. valid_stored e \<and> point_key (mutation_of e) = Some k) (last_point log k)"
    using last_point_Some [of log k] log_ok_valid(1) [OF assms(2)] by (auto simp: option.pred_set)
  ultimately show ?thesis unfolding data_record_def by (simp add: data.read_back)
qed

lemma range_delete_record_view:
  assumes "view_ok space st log" "log_ok log" "wf_range r"
  obtains found where "range_delete_record space st r = Inr found"
    and "case found of None \<Rightarrow> last_range log r = None | Some rec \<Rightarrow> tomb_ok log r rec"
proof (cases "last_range log r")
  case None
  then have "MemoryStore_get st (range_delete_key space r) = None"
    by (rule view_okD(2) [OF assms(1,3)])
  with None show ?thesis using that [of None] by (simp add: range_delete_record_def read_with_def)
next
  case (Some e)
  then obtain rec where t: "tomb_ok log r rec" "MemoryStore_get st (range_delete_key space r) = Some (tombstone_bytes rec)"
    using view_okD(3) [OF assms(1,3)] by blast
  then have "range_delete_record space st r = Inr (Some rec)"
    using tombstone.decode_encode [OF tomb_ok_valid [OF assms(2) t(1)]]
    by (simp add: range_delete_record_def read_with_def)
  with t that [of "Some rec"] show ?thesis by simp
qed

lemma aggregate_view:
  assumes "view_ok space st log" "wf_range n"
  obtains found where "read_with PrefixMetaRecord_decode msg (sget space st (node_key n)) = Inr found"
    and "agg_ok log n (case found of None \<Rightarrow> PrefixMetaRecord_empty | Some rec \<Rightarrow> rec)"
proof -
  obtain rec where r: "agg_ok log n rec"
    "sget space st (node_key n) = Some (PrefixMetaRecord_encode rec) \<or>
     sget space st (node_key n) = None \<and> rec = PrefixMetaRecord_empty"
    using view_okD(4) [OF assms] by blast
  then have "valid_heads (pm_history rec)" by (simp add: agg_ok_def Let_def)
  then have dec: "PrefixMetaRecord_decode (PrefixMetaRecord_encode rec) = Some rec" by (rule meta.decode_encode)
  from r(2) show ?thesis
  proof
    assume "sget space st (node_key n) = Some (PrefixMetaRecord_encode rec)"
    then show ?thesis using that [of "Some rec"] r(1) dec by (simp add: read_with_def)
  next
    assume "sget space st (node_key n) = None \<and> rec = PrefixMetaRecord_empty"
    then show ?thesis using that [of None] r(1) by (simp add: read_with_def)
  qed
qed

lemma aggregate_at_view:
  assumes "view_ok space st log" "wf_range n"
  obtains rec where "aggregate_at space st n = Inr rec" "agg_ok log n rec"
proof -
  have k: "MemoryStore_get st (case n of Full \<Rightarrow> root_meta_key space | Prefix pre \<Rightarrow> prefix_meta_key space pre) =
      sget space st (node_key n)"
    by (cases n) (simp_all add: sget_def skey_bytes_eqs)
  obtain found where "read_with PrefixMetaRecord_decode ''corrupt aggregate record'' (sget space st (node_key n)) = Inr found"
    "agg_ok log n (case found of None \<Rightarrow> PrefixMetaRecord_empty | Some rec \<Rightarrow> rec)"
    by (rule aggregate_view [OF assms])
  then show ?thesis using that unfolding aggregate_at_def k by simp
qed

subsection \<open>Covering tombstones\<close>

lemma covering_tombstone_view:
  assumes "view_ok space st log" "log_ok log" "wf_id space" "wf_range r"
  obtains found where "covering_tombstone st (range_delete_key space r) = Inr found"
    and "case found of None \<Rightarrow> last_range log r = None | Some rec \<Rightarrow> tomb_ok log r rec"
proof -
  obtain found where f: "range_delete_record space st r = Inr found"
    and t: "case found of None \<Rightarrow> last_range log r = None | Some rec \<Rightarrow> tomb_ok log r rec"
    by (rule range_delete_record_view [OF assms(1,2,4)])
  have "covering_tombstone st (range_delete_key space r) = Inr found"
    using f range_delete_parts_key [OF assms(3,4)]
    by (auto simp: covering_tombstone_def range_delete_record_def read_with_def split: option.splits)
  with t that show ?thesis by blast
qed

text \<open>A loop over the tombstones covering a target folds over the records of its ancestors.\<close>

lemma covering_loop:
  assumes "view_ok space st log" "log_ok log" "wf_id space" "wf_range target"
    and "P {} acc"
    and "\<And>R acc r. P R acc \<Longrightarrow> last_range log r = None \<Longrightarrow> r \<in> set (ancestors target) \<Longrightarrow> P (insert r R) (f acc None)"
    and "\<And>R acc r rec. P R acc \<Longrightarrow> tomb_ok log r rec \<Longrightarrow> r \<in> set (ancestors target) \<Longrightarrow> P (insert r R) (f acc (Some rec))"
  obtains acc' where "rfold (\<lambda>acc k. rbind (covering_tombstone st k) (\<lambda>found. Inr (f acc found))) acc
      (covering_range_delete_keys space target) = Inr acc'"
    and "P (set (ancestors target)) acc'"
proof -
  have "\<exists>acc'. rfold (\<lambda>acc k. rbind (covering_tombstone st k) (\<lambda>found. Inr (f acc found))) acc
      (map (range_delete_key space) rs) = Inr acc' \<and> P (set rs \<union> R) acc'"
    if "set rs \<subseteq> set (ancestors target)" "P R acc" for rs R acc
    using that
  proof (induction rs arbitrary: R acc)
    case (Cons r rs)
    then have r: "r \<in> set (ancestors target)" "wf_range r"
      using ancestors_iff [OF assms(4)] by auto
    obtain found where f: "covering_tombstone st (range_delete_key space r) = Inr found"
      and t: "case found of None \<Rightarrow> last_range log r = None | Some rec \<Rightarrow> tomb_ok log r rec"
      by (rule covering_tombstone_view [OF assms(1-3) r(2)])
    have "P (insert r R) (f acc found)"
      using t assms(6) [OF Cons.prems(2) _ r(1)] assms(7) [OF Cons.prems(2) _ r(1)] by (cases found) auto
    from Cons.IH [OF _ this] Cons.prems(1) f show ?case by auto
  qed simp
  from this [OF order.refl assms(5)] show ?thesis
    using that by (auto simp: covering_range_delete_keys_eq)
qed

lemma resets_ancestor:
  assumes "wf_range target" "log_ok log" "e \<in> set log"
  shows "resets target e \<longleftrightarrow> (\<exists>r \<in> set (ancestors target). mutation_of e = DeleteRange r)"
  using log_ok_valid(2) [OF assms(2,3)] by (auto simp: resets_def ancestors_iff [OF assms(1)])

lemma covering_range_delete_view:
  assumes "view_ok space st log" "log_ok log" "wf_id space" "wf_range target"
  obtains found where "covering_range_delete space st target = Inr found"
    and "map_option (\<lambda>rec. order_of (rd_entry rec)) found = newest_reset log target"
proof -
  let ?hit = "\<lambda>R e. \<exists>r \<in> R. mutation_of e = DeleteRange r"
  let ?P = "\<lambda>R (found :: RangeDeleteRecord option). case found of
      None \<Rightarrow> \<forall>e \<in> set log. \<not> ?hit R e
    | Some rec \<Rightarrow> rd_entry rec \<in> set log \<and> ?hit R (rd_entry rec) \<and>
        (\<forall>e \<in> set log. ?hit R e \<longrightarrow> order_of e \<le> order_of (rd_entry rec))"
  have asc: "ascending log" by (rule log_ok_valid(3) [OF assms(2)])
  obtain found where f: "covering_range_delete space st target = Inr found" "?P (set (ancestors target)) found"
    unfolding covering_range_delete_def
  proof (rule covering_loop [where P = ?P, OF assms])
    show "?P {} None" by simp
  next
    fix R acc r
    assume a: "?P R acc" "last_range log r = None"
    then have "mutation_of e \<noteq> DeleteRange r" if "e \<in> set log" for e
      using that by (simp add: last_range_None)
    with a(1) show "?P (insert r R) (case None of None \<Rightarrow> acc | Some rec \<Rightarrow>
        if (case acc of None \<Rightarrow> True | Some current \<Rightarrow> order_of (rd_entry rec) > order_of (rd_entry current))
        then Some rec else acc)"
      by (auto split: option.splits)
  next
    fix R acc r rec
    assume a: "?P R acc" "tomb_ok log r rec"
    then have l: "last_range log r = Some (rd_entry rec)" by (simp add: tomb_ok_def Let_def)
    note m = last_range_Some [OF l] last_range_order [OF asc l]
    show "?P (insert r R) (case Some rec of None \<Rightarrow> acc | Some rec \<Rightarrow>
        if (case acc of None \<Rightarrow> True | Some current \<Rightarrow> order_of (rd_entry rec) > order_of (rd_entry current))
        then Some rec else acc)"
    proof (cases acc)
      case None
      with a(1) m show ?thesis by auto
    next
      case (Some cur)
      with a(1) m show ?thesis by (auto simp: not_less intro: order_trans)
    qed
  qed
  have hit: "e \<in> set log \<Longrightarrow> ?hit (set (ancestors target)) e \<longleftrightarrow> resets target e" for e
    using resets_ancestor [OF assms(4,2)] by blast
  have "map_option (\<lambda>rec. order_of (rd_entry rec)) found = newest_reset log target"
  proof (cases found)
    case None
    with f(2) hit have "newest_reset log target = None" by (auto simp: newest_reset_None)
    with None show ?thesis by simp
  next
    case (Some rec)
    with f(2) hit have "newest_reset log target = Some (order_of (rd_entry rec))"
      by (intro newest_reset_eqI) auto
    with Some show ?thesis by simp
  qed
  with f(1) that show ?thesis by blast
qed

lemma newer_case: "newer a b = Some (case a of None \<Rightarrow> b | Some current \<Rightarrow> max current b)"
  by (cases a) auto

lemma resets_case: "resets target e = (case mutation_of e of DeleteRange rng \<Rightarrow> covers_range rng target | _ \<Rightarrow> False)"
  by (auto simp: resets_def split: Mutation.splits)

lemma newest_covering_reset_view:
  assumes "view_ok space st log" "log_ok log" "wf_id space" "wf_range target"
  shows "newest_covering_reset space st target es = Inr (newest_reset (log @ es) target)"
proof -
  obtain found where "covering_range_delete space st target = Inr found"
    "map_option (\<lambda>rec. order_of (rd_entry rec)) found = newest_reset log target"
    by (rule covering_range_delete_view [OF assms])
  moreover have "newer = (\<lambda>a b. Some (case a of None \<Rightarrow> b | Some current \<Rightarrow> max current b))"
    by (intro ext) (rule newer_case)
  moreover have "resets target = (\<lambda>e. case mutation_of e of DeleteRange rng \<Rightarrow> covers_range rng target | _ \<Rightarrow> False)"
    by (intro ext) (rule resets_case)
  ultimately show ?thesis
    by (simp add: newest_covering_reset_def newest_reset_append)
qed

subsection \<open>Versions and histories\<close>

definition opt_max :: "admitted set \<Rightarrow> Ver option" where
  "opt_max E = (if E = {} then None else Some (ver_max E))"

lemma max_ver_opt: "finite A \<Longrightarrow> finite B \<Longrightarrow> max_ver (opt_max A) (opt_max B) = opt_max (A \<union> B)"
  by (simp add: opt_max_def ver_max_Un)

lemma opt_max_empty [simp]: "opt_max {} = None"
  by (simp add: opt_max_def)

lemma opt_max_le: "finite E \<Longrightarrow> (case opt_max E of Some current \<Rightarrow> v \<le> current | None \<Rightarrow> False) \<longleftrightarrow> (\<exists>e \<in> E. v \<le> AdmittedEntry_ver e)"
proof (cases "E = {}")
  case False
  moreover assume fin: "finite E"
  moreover have "ver_max E \<in> AdmittedEntry_ver ` E"
  proof (cases "ver_max E = 0")
    case True
    from False obtain e where "e \<in> E" by blast
    with ver_max_ge [OF fin this] True have "AdmittedEntry_ver e = ver_max E" by simp
    with \<open>e \<in> E\<close> show ?thesis by (metis image_eqI)
  qed (use ver_max_attained [OF fin] in force)
  ultimately show ?thesis
    using ver_max_ge [OF fin] by (auto simp: opt_max_def intro: order_trans)
qed simp

lemma fold_max_ver: "fold max (map AdmittedEntry_ver es) v = max v (ver_max (set es))"
proof (induction es arbitrary: v)
  case (Cons e es)
  then show ?case by (simp add: ver_max_insert max.assoc max.commute max.left_commute)
qed simp

lemma iter_max_opt: "iter_max (map AdmittedEntry_ver es) = opt_max (set es)"
  by (cases es) (simp_all add: iter_max_def opt_max_def fold_max_ver ver_max_insert max.commute)

lemma tomb_events:
  assumes "tomb_ok log r rec"
  shows "opt_max {e \<in> set log. mutation_of e = DeleteRange r} = Some (rd_max_ver rec)"
    and "rd_max_ver rec = ver_max {e \<in> set log. mutation_of e = DeleteRange r}"
    and "heads_repr (rd_history rec) (dev_max {e \<in> set log. mutation_of e = DeleteRange r})"
proof -
  have "last_range log r = Some (rd_entry rec)" using assms by (simp add: tomb_ok_def Let_def)
  from last_range_Some [OF this] have "{e \<in> set log. mutation_of e = DeleteRange r} \<noteq> {}" by auto
  with assms show "opt_max {e \<in> set log. mutation_of e = DeleteRange r} = Some (rd_max_ver rec)"
    by (simp add: opt_max_def tomb_ok_def Let_def)
qed (use assms in \<open>simp_all add: tomb_ok_def Let_def\<close>)

definition range_events :: "admitted list \<Rightarrow> Range set \<Rightarrow> admitted set" where
  "range_events log R = {e \<in> set log. \<exists>r \<in> R. mutation_of e = DeleteRange r}"

lemma range_events_empty [simp]: "range_events log {} = {}"
  by (simp add: range_events_def)

lemma finite_range_events [simp]: "finite (range_events log R)"
  by (simp add: range_events_def)

lemma range_events_insert:
  "range_events log (insert a R) = range_events log R \<union> {e \<in> set log. mutation_of e = DeleteRange a}"
  by (auto simp: range_events_def)

lemma range_events_none: "last_range log r = None \<Longrightarrow> range_events log (insert r R) = range_events log R"
  by (auto simp: range_events_def last_range_None)

lemma range_events_ancestors:
  assumes "log_ok log" "wf_range target"
  shows "range_events log (set (ancestors target)) = {e \<in> set log. resets target e}"
  using resets_ancestor [OF assms(2,1)] by (auto simp: range_events_def)

lemma max_ver_tomb:
  assumes "tomb_ok log r rec"
  shows "max_ver (opt_max (range_events log R)) (Some (rd_max_ver rec)) = opt_max (range_events log (insert r R))"
  unfolding range_events_insert tomb_events(1) [OF assms, symmetric] by (rule max_ver_opt) simp_all

lemma covering_range_max_ver_view:
  assumes "view_ok space st log" "log_ok log" "wf_id space" "wf_key k"
  shows "covering_range_max_ver space st k = Inr (opt_max {e \<in> set log. resets (Prefix k) e})"
proof -
  have w: "wf_range (Prefix k)" using assms(4) by simp
  obtain found where "covering_range_max_ver space st k = Inr found"
    "found = opt_max (range_events log (set (ancestors (Prefix k))))"
    unfolding covering_range_max_ver_def
    by (rule covering_loop [where P = "\<lambda>R acc. acc = opt_max (range_events log R)" and
        f = "\<lambda>mx found. case found of None \<Rightarrow> mx | Some rec \<Rightarrow> max_ver mx (Some (rd_max_ver rec))", OF assms(1-3) w])
      (simp_all add: range_events_none max_ver_tomb)
  then show ?thesis by (simp add: range_events_ancestors [OF assms(2) w])
qed

lemma relevant_iff: "mutation_relevant n (mutation_of e) \<longleftrightarrow> event_below n e \<or> resets n e"
  by (cases "mutation_of e") (auto simp: event_below_def resets_def overlaps_def covers_range_Prefix_key)

lemma effective_history_view:
  assumes "view_ok space st log" "log_ok log" "wf_id space" "wf_range n"
  obtains eh where "effective_history space st n = Inr eh"
    and "heads_repr (eh_history eh) (dev_max {e \<in> set log. mutation_relevant n (mutation_of e)})"
    and "eh_max_ver eh = ver_max {e \<in> set log. mutation_relevant n (mutation_of e)}"
proof -
  let ?B = "{e \<in> set log. event_below n e}"
  let ?P = "\<lambda>R (eh :: EffectiveHistory). heads_repr (eh_history eh) (dev_max (?B \<union> range_events log R)) \<and>
    eh_max_ver eh = ver_max (?B \<union> range_events log R)"
  obtain rec where rec: "aggregate_at space st n = Inr rec" "agg_ok log n rec"
    by (rule aggregate_at_view [OF assms(1,4)])
  have un: "?B \<union> range_events log (insert r R) =
      (?B \<union> range_events log R) \<union> {e \<in> set log. mutation_of e = DeleteRange r}" for r R
    unfolding range_events_insert by blast
  obtain eh where eh: "effective_history space st n = Inr eh" "?P (set (ancestors n)) eh"
    unfolding effective_history_def rec(1) rbind.simps
  proof (rule covering_loop [where P = ?P, OF assms])
    show "?P {} \<lparr>eh_history = pm_history rec, eh_max_ver = pm_max_ver rec\<rparr>"
      using rec(2) by (simp add: agg_ok_def Let_def)
  next
    fix R eh r t
    assume p: "?P R eh" and t: "tomb_ok log r t"
    have "heads_repr (HistoricalHeads_merge (rd_history t) (eh_history eh))
        (\<lambda>d. max (dev_max (?B \<union> range_events log R) d) (dev_max {e \<in> set log. mutation_of e = DeleteRange r} d))"
      using heads_repr_merge [OF conjunct1 [OF p] tomb_events(3) [OF t]] .
    then show "?P (insert r R) (case Some t of None \<Rightarrow> eh
        | Some rec \<Rightarrow> \<lparr>eh_history = HistoricalHeads_merge (rd_history rec) (eh_history eh),
                eh_max_ver = max (eh_max_ver eh) (rd_max_ver rec)\<rparr>)"
      using p tomb_events(2) [OF t] unfolding un by (simp add: dev_max_Un ver_max_Un)
  qed (simp_all add: range_events_none)
  have "?B \<union> range_events log (set (ancestors n)) = {e \<in> set log. mutation_relevant n (mutation_of e)}"
    unfolding range_events_ancestors [OF assms(2,4)] relevant_iff by blast
  with eh that show ?thesis by simp
qed

lemma effective_live_count_view:
  assumes "view_ok space st log" "log_ok log" "wf_id space" "wf_range n"
  obtains count where "effective_live_count space st n = Inr count" "unat count = card (live_keys log n)"
proof -
  obtain rec where rec: "aggregate_at space st n = Inr rec" "agg_ok log n rec"
    by (rule aggregate_at_view [OF assms(1,4)])
  obtain found where f: "covering_range_delete space st n = Inr found"
    "map_option (\<lambda>rec. order_of (rd_entry rec)) found = newest_reset log n"
    by (rule covering_range_delete_view [OF assms])
  have "effective_live_count space st n = Inr (if stale (newest_reset log n) rec then 0 else pm_live_count rec)"
    unfolding effective_live_count_def f(2) [symmetric] using rec(1) f(1) by (cases found) (simp_all add: stale_def)
  moreover have "unat (if stale (newest_reset log n) rec then 0 else pm_live_count rec) = card (live_keys log n)"
    using rec(2) by (simp add: agg_ok_def Let_def)
  ultimately show ?thesis using that by blast
qed

subsection \<open>Visibility of a point\<close>

lemma point_record_visible_view:
  assumes "view_ok space st log" "log_ok log" "wf_id space" "wf_key k" "last_point log k = Some e"
  shows "point_record_visible space st e = Inr (live log k \<noteq> None)"
proof -
  have w: "wf_range (Prefix k)" using assms(4) by simp
  obtain found where f: "covering_range_delete space st (Prefix k) = Inr found"
    "map_option (\<lambda>rec. order_of (rd_entry rec)) found = newest_reset log (Prefix k)"
    by (rule covering_range_delete_view [OF assms(1-3) w])
  have key: "entry_key e = Inr k"
    using last_point_Some [OF assms(5)] by (simp add: entry_key_def AdmittedEntry_point_key_def)
  show ?thesis
    unfolding point_record_visible_def live_eq [OF log_ok_valid(3) [OF assms(2)]] assms(5)
    using f key by (cases found) (auto simp flip: f(2))
qed

lemma point_record_visible_with_events_view:
  assumes "view_ok space st log" "log_ok (log @ es)" "log_ok log" "wf_id space" "wf_key k"
  shows "point_record_visible_with_events space st (last_point (log @ es) k) es = Inr (live (log @ es) k \<noteq> None)"
proof (cases "last_point (log @ es) k")
  case None
  then show ?thesis
    by (simp add: point_record_visible_with_events_def live_eq [OF log_ok_valid(3) [OF assms(2)]])
next
  case (Some e)
  have w: "wf_range (Prefix k)" using assms(5) by simp
  have key: "entry_key e = Inr k"
    using last_point_Some [OF Some] by (simp add: entry_key_def AdmittedEntry_point_key_def)
  have "newest_covering_reset space st (Prefix k) es = Inr (newest_reset (log @ es) (Prefix k))"
    by (rule newest_covering_reset_view [OF assms(1,3,4) w])
  with key Some show ?thesis
    by (auto simp: point_record_visible_with_events_def live_eq [OF log_ok_valid(3) [OF assms(2)]] after_def
        split: option.splits)
qed

end
