(* ===== verification/Staging.thy ===== *)
theory Staging
  imports DataView
begin

text \<open>
  The staging area of one admission: point records, tombstones and aggregates touched so far, over
  a store that represents the log \<open>log\<close>.  After admitting the events \<open>es\<close> the staged records together
  with the untouched stored ones represent \<open>log @ es\<close> (\<open>staged_ok\<close>); every step of the admission
  loop preserves this, so no underflow or missing-aggregate panic can occur.
\<close>

subsection \<open>Paths\<close>

definition node_bytes :: "SpaceId \<Rightarrow> Range \<Rightarrow> bytes" where
  "node_bytes space n = skey_bytes space (node_key n)"

lemma node_bytes_inject: "wf_range a \<Longrightarrow> wf_range b \<Longrightarrow> node_bytes space a = node_bytes space b \<longleftrightarrow> a = b"
  by (simp add: node_bytes_def skey_bytes_inject)

lemma node_bytes_eqs: "root_meta_key space = node_bytes space Full" "prefix_meta_key space p = node_bytes space (Prefix p)"
  by (simp_all add: node_bytes_def skey_bytes_eqs)

lemma aggregate_path_eq:
  assumes "wf_range r"
  shows "aggregate_path space r = Inr (map (\<lambda>n. (n, node_bytes space n)) (ancestors r))"
proof (cases r)
  case (Prefix p)
  have "rmap (\<lambda>depth. rbind (map_err (\<lambda>_. Panic ''a prefix of a valid key is valid'') (Key_from_bytes (take depth p)))
        (\<lambda>node. Inr (Prefix node, prefix_meta_key space (take depth p)))) [1..<length p + 1] =
      Inr (map (\<lambda>depth. (Prefix (take depth p), node_bytes space (Prefix (take depth p)))) [1..<length p + 1])"
  proof (rule rmap_total)
    fix d
    assume "d \<in> set [1..<length p + 1]"
    then have "wf_key (take d p)" using assms Prefix by (intro wf_key_take) auto
    then have "Key_from_bytes (take d p) = Inr (take d p)" by (simp add: Key_from_bytes_Inr_iff)
    then show "rbind (map_err (\<lambda>_. Panic ''a prefix of a valid key is valid'') (Key_from_bytes (take d p)))
        (\<lambda>node. Inr (Prefix node, prefix_meta_key space (take d p))) =
      Inr (Prefix (take d p), node_bytes space (Prefix (take d p)))" by (simp add: node_bytes_eqs)
  qed
  then show ?thesis
    using Prefix by (simp add: aggregate_path_def ancestors_def node_bytes_eqs comp_def del: upt_Suc)
qed (simp add: aggregate_path_def ancestors_def node_bytes_eqs)

lemma distinct_ancestors: "distinct (ancestors r)"
proof (cases r)
  case (Prefix p)
  have "inj_on (\<lambda>d. Prefix (take d p)) {1..<length p + 1}"
  proof (rule inj_onI)
    fix a b
    assume a: "a \<in> {1..<length p + 1}" and b: "b \<in> {1..<length p + 1}" and "Prefix (take a p) = Prefix (take b p)"
    then have "length (take a p) = length (take b p)" by simp
    with a b show "a = b" by simp
  qed
  then have "distinct (map (\<lambda>d. Prefix (take d p)) [1..<length p + 1])"
    unfolding distinct_map set_upt by simp
  with Prefix show ?thesis by (auto simp: ancestors_def simp del: upt_Suc)
qed (simp add: ancestors_def)

lemma last_ancestors: "wf_range r \<Longrightarrow> last (ancestors r) = r"
  using Key_new_limits(2) by (cases r) (auto simp: ancestors_def last_map Suc_le_eq)

lemma ancestors_nonempty [simp]: "ancestors r \<noteq> []"
  by (simp add: ancestors_def)

text \<open>A loop that updates one entry of an ordered map per element, at distinct keys.\<close>

lemma rfold_entries:
  assumes "\<And>A x. x \<in> set xs \<Longrightarrow> bt_wf A \<Longrightarrow> bt_get A (key x) = bt_get A0 (key x) \<Longrightarrow>
      \<exists>A' v. f A x = Inr A' \<and> bt_wf A' \<and> (\<forall>k. bt_get A' k = (if k = key x then Some v else bt_get A k)) \<and> Q x v"
    and "distinct (map key xs)" "bt_wf A" "\<And>x. x \<in> set xs \<Longrightarrow> bt_get A (key x) = bt_get A0 (key x)"
  shows "\<exists>A'. rfold f A xs = Inr A' \<and> bt_wf A' \<and> (\<forall>x \<in> set xs. \<exists>v. bt_get A' (key x) = Some v \<and> Q x v) \<and>
    (\<forall>k. k \<notin> key ` set xs \<longrightarrow> bt_get A' k = bt_get A k)"
  using assms
proof (induction xs arbitrary: A)
  case (Cons x xs)
  obtain A1 v where a: "f A x = Inr A1" "bt_wf A1" "Q x v"
    and g: "\<forall>k. bt_get A1 k = (if k = key x then Some v else bt_get A k)"
    using Cons.prems(1) [of x A] Cons.prems(3,4) by auto
  have new: "key x \<notin> key ` set xs" "distinct (map key xs)" using Cons.prems(2) by auto
  have same: "bt_get A1 (key y) = bt_get A0 (key y)" if "y \<in> set xs" for y
  proof -
    from new(1) that have "key y \<noteq> key x" by (metis image_eqI)
    with g that Cons.prems(4) [of y] show ?thesis by simp
  qed
  have "\<exists>A'. rfold f A1 xs = Inr A' \<and> bt_wf A' \<and> (\<forall>x \<in> set xs. \<exists>v. bt_get A' (key x) = Some v \<and> Q x v) \<and>
    (\<forall>k. k \<notin> key ` set xs \<longrightarrow> bt_get A' k = bt_get A1 k)"
    by (rule Cons.IH [OF _ new(2) a(2) same]) (use Cons.prems(1) in auto)
  then obtain A2 where A2: "rfold f A1 xs = Inr A2" "bt_wf A2"
    "\<forall>x \<in> set xs. \<exists>v. bt_get A2 (key x) = Some v \<and> Q x v"
    "\<forall>k. k \<notin> key ` set xs \<longrightarrow> bt_get A2 k = bt_get A1 k" by blast
  have "bt_get A2 (key x) = Some v" using A2(4) new(1) g by simp
  with a(3) A2(3) have "\<forall>y \<in> set (x # xs). \<exists>v. bt_get A2 (key y) = Some v \<and> Q y v" by auto
  moreover have "\<forall>k. k \<notin> key ` set (x # xs) \<longrightarrow> bt_get A2 k = bt_get A k" using A2(4) g by simp
  ultimately show ?case using a(1) A2(1,2) by auto
qed simp

subsection \<open>Staged aggregates\<close>

definition aggs_ok :: "SpaceId \<Rightarrow> admitted list \<Rightarrow> admitted list \<Rightarrow> aggregates \<Rightarrow> bool" where
  "aggs_ok space log es A \<longleftrightarrow> bt_wf A \<and> (\<forall>k \<in> fst ` set A. \<exists>n. wf_range n \<and> k = node_bytes space n) \<and>
     (\<forall>n. wf_range n \<longrightarrow>
        (case bt_get A (node_bytes space n) of
           Some rec \<Rightarrow> agg_ok (log @ es) n rec
         | None \<Rightarrow> \<forall>e \<in> set es. \<not> event_below n e))"

lemma aggs_okD:
  assumes "aggs_ok space log es A" "wf_range n"
  shows "bt_get A (node_bytes space n) = Some rec \<Longrightarrow> agg_ok (log @ es) n rec"
    and "bt_get A (node_bytes space n) = None \<Longrightarrow> \<forall>e \<in> set es. \<not> event_below n e"
proof -
  have "case bt_get A (node_bytes space n) of
      Some rec \<Rightarrow> agg_ok (log @ es) n rec | None \<Rightarrow> \<forall>e \<in> set es. \<not> event_below n e"
    using assms unfolding aggs_ok_def by blast
  then show "bt_get A (node_bytes space n) = Some rec \<Longrightarrow> agg_ok (log @ es) n rec"
    and "bt_get A (node_bytes space n) = None \<Longrightarrow> \<forall>e \<in> set es. \<not> event_below n e" by simp_all
qed

lemma agg_ok_untouched_all:
  "agg_ok log n rec \<Longrightarrow> ascending (log @ es) \<Longrightarrow> \<forall>e \<in> set es. \<not> event_below n e \<Longrightarrow> agg_ok (log @ es) n rec"
proof (induction es rule: rev_induct)
  case (snoc e es)
  then have "agg_ok (log @ es) n rec"
    using ascending_append [of "log @ es" "[e]"] by simp
  with snoc.prems agg_ok_untouched [of "log @ es" n rec e] show ?case by simp
qed simp

text \<open>Loading and materializing one node, whether staged before or not.\<close>

lemma materialize_node:
  assumes view: "view_ok space st log" "log_ok log" "wf_id space" and n: "wf_range n"
    and asc: "ascending (log @ es)" and A0: "aggs_ok space log es A0"
    and A: "bt_wf A" "bt_get A (node_bytes space n) = bt_get A0 (node_bytes space n)"
  obtains rec A' where "agg_ok (log @ es) n rec" "materialize_aggregate space st es A (n, node_bytes space n) = Inr A'"
    and "bt_wf A'" and "\<And>k. bt_get A' k =
      (if k = node_bytes space n then Some (materialized (newest_reset (log @ es) n) rec) else bt_get A k)"
proof -
  let ?k = "node_bytes space n"
  obtain rec A1 where rec: "agg_ok (log @ es) n rec" and load: "load_aggregate st A ?k = Inr A1"
    and wf1: "bt_wf A1" and get1: "\<And>k. bt_get A1 k = (if k = ?k then Some rec else bt_get A k)"
  proof (cases "bt_get A ?k")
    case (Some r)
    with A(2) have "bt_get A0 ?k = Some r" by simp
    then have "agg_ok (log @ es) n r" by (rule aggs_okD(1) [OF A0 n])
    with Some A(1) that [of r A] show ?thesis by (simp add: load_aggregate_def)
  next
    case None
    with A(2) have out: "\<forall>e \<in> set es. \<not> event_below n e" by (intro aggs_okD(2) [OF A0 n]) simp
    obtain found where f: "read_with PrefixMetaRecord_decode ''corrupt prefix meta record'' (sget space st (node_key n)) = Inr found"
      "agg_ok log n (case found of None \<Rightarrow> PrefixMetaRecord_empty | Some rec \<Rightarrow> rec)"
      by (rule aggregate_view [OF view(1) n])
    let ?r = "case found of None \<Rightarrow> PrefixMetaRecord_empty | Some rec \<Rightarrow> rec"
    have "load_aggregate st A ?k = Inr (bt_insert ?k ?r A)"
      using None f(1) by (simp add: load_aggregate_def sget_def node_bytes_def)
    moreover have "agg_ok (log @ es) n ?r" by (rule agg_ok_untouched_all [OF f(2) asc out])
    ultimately show ?thesis using that [of ?r "bt_insert ?k ?r A"] A(1) by simp
  qed
  have reset: "newest_covering_reset space st n es = Inr (newest_reset (log @ es) n)"
    by (rule newest_covering_reset_view [OF view n])
  let ?m = "materialized (newest_reset (log @ es) n) rec"
  define A' where "A' = (if stale (newest_reset (log @ es) n) rec then bt_insert ?k ?m A1 else A1)"
  have "materialize_aggregate space st es A (n, ?k) = Inr A'"
    using load reset get1 [of ?k]
    by (cases "newest_reset (log @ es) n")
      (simp_all add: materialize_aggregate_def staged_aggregate_def A'_def stale_def materialized_def)
  moreover have "bt_get A' k = (if k = ?k then Some ?m else bt_get A k)" for k
    using wf1 get1 by (simp add: A'_def materialized_def)
  ultimately show ?thesis using that [of rec A'] rec wf1 by (simp add: A'_def)
qed

lemma aggs_ok_step:
  assumes A0: "aggs_ok space log es A0" and wf: "bt_wf A'" and asc: "ascending (log @ es @ [e])"
    and target: "wf_mutation (mutation_of e)"
    and hit: "\<And>n. n \<in> set (ancestors (target_range (mutation_of e))) \<Longrightarrow>
      \<exists>rec. bt_get A' (node_bytes space n) = Some rec \<and> agg_ok (log @ es @ [e]) n rec"
    and miss: "\<And>k. k \<notin> node_bytes space ` set (ancestors (target_range (mutation_of e))) \<Longrightarrow> bt_get A' k = bt_get A0 k"
  shows "aggs_ok space log (es @ [e]) A'"
proof -
  have w: "wf_range (target_range (mutation_of e))" using target by (cases "mutation_of e") auto
  note anc = ancestors_iff [OF w]
  have keys: "\<exists>n. wf_range n \<and> k = node_bytes space n" if "k \<in> fst ` set A'" for k
  proof (cases "k \<in> node_bytes space ` set (ancestors (target_range (mutation_of e)))")
    case True
    then show ?thesis using anc by blast
  next
    case False
    have "bt_get A' k \<noteq> None" using that unfolding bt_get_None by simp
    then have "bt_get A0 k \<noteq> None" unfolding miss [OF False] .
    then have "k \<in> fst ` set A0" unfolding bt_get_None by simp
    then show ?thesis using A0 unfolding aggs_ok_def by blast
  qed
  have nodes: "case bt_get A' (node_bytes space n) of
      Some rec \<Rightarrow> agg_ok (log @ es @ [e]) n rec | None \<Rightarrow> \<forall>x \<in> set (es @ [e]). \<not> event_below n x"
    if n: "wf_range n" for n
  proof (cases "event_below n e")
    case True
    then have "n \<in> set (ancestors (target_range (mutation_of e)))"
      using n by (simp add: anc event_below_def)
    from hit [OF this] show ?thesis by auto
  next
    case False
    then have "n \<notin> set (ancestors (target_range (mutation_of e)))"
      by (simp add: anc event_below_def)
    then have "node_bytes space n \<notin> node_bytes space ` set (ancestors (target_range (mutation_of e)))"
      using node_bytes_inject [OF n] anc by blast
    then have eq: "bt_get A' (node_bytes space n) = bt_get A0 (node_bytes space n)" by (rule miss)
    show ?thesis
    proof (cases "bt_get A0 (node_bytes space n)")
      case None
      with aggs_okD(2) [OF A0 n] False eq show ?thesis by simp
    next
      case (Some rec)
      then have "agg_ok (log @ es) n rec" by (rule aggs_okD(1) [OF A0 n])
      with agg_ok_untouched [of "log @ es" n rec e] asc False eq Some show ?thesis by simp
    qed
  qed
  show ?thesis unfolding aggs_ok_def using wf keys nodes by simp
qed

lemma distinct_node_keys: "wf_range r \<Longrightarrow> distinct (map (\<lambda>n. node_bytes space n) (ancestors r))"
  unfolding distinct_map using distinct_ancestors [of r] ancestors_iff [of r]
  by (auto intro!: inj_onI simp: node_bytes_inject)

lemma apply_point_count_step:
  assumes view: "view_ok space st log" "log_ok log" "wf_id space"
    and A0: "aggs_ok space log es A0" and asc: "ascending (log @ es @ [e])"
    and k: "point_key (mutation_of e) = Some k" "wf_key k" and dev: "wf_id (device_of e)"
    and small: "length (log @ es) + 1 < 2 ^ 64"
    and d: "d = of_bool (is_set (mutation_of e)) - of_bool (live (log @ es) k \<noteq> None)"
  obtains A' where "apply_point_count space st A0 es (device_of e) k (seq_of e) (AdmittedEntry_ver e) (order_of e) d = Inr A'"
    and "aggs_ok space log (es @ [e]) A'"
proof -
  have w: "wf_range (Prefix k)" using k by simp
  have t: "target_range (mutation_of e) = Prefix k" "wf_mutation (mutation_of e)"
    using k by (cases "mutation_of e"; simp)+
  have asc': "ascending ((log @ es) @ [e])" "ascending (log @ es)" using asc ascending_append [of "log @ es"] by simp_all
  let ?f = "\<lambda>staged node.
         rbind (materialize_aggregate space st es staged node) (\<lambda>staged.
         rbind (staged_aggregate staged (snd node)) (\<lambda>rec.
           let rec = observe_history (device_of e) (seq_of e) (AdmittedEntry_ver e) rec in
           rbind (ok_or (Panic ''live count underflow: aggregates diverged from visible point state'')
               (checked_add_signed (pm_live_count rec) d)) (\<lambda>count. Inr
             (bt_insert (snd node) (materialize_count_at (order_of e) (rec\<lparr>pm_live_count := count\<rparr>)) staged))))"
  have step: "\<exists>A' v. ?f A x = Inr A' \<and> bt_wf A' \<and> (\<forall>k. bt_get A' k = (if k = snd x then Some v else bt_get A k)) \<and>
      agg_ok (log @ es @ [e]) (fst x) v"
    if x: "x \<in> set (map (\<lambda>n. (n, node_bytes space n)) (ancestors (Prefix k)))" and A: "bt_wf A"
      "bt_get A (snd x) = bt_get A0 (snd x)" for A x
  proof -
    from x obtain n where n: "x = (n, node_bytes space n)" "n \<in> set (ancestors (Prefix k))" by auto
    then have wn: "wf_range n" "covers_key n k"
      using ancestors_iff [OF w] by (auto simp: covers_range_Prefix_key)
    obtain rec A1 where rec: "agg_ok (log @ es) n rec"
      and m: "materialize_aggregate space st es A (n, node_bytes space n) = Inr A1" "bt_wf A1"
      and g: "\<And>k. bt_get A1 k =
        (if k = node_bytes space n then Some (materialized (newest_reset (log @ es) n) rec) else bt_get A k)"
      using materialize_node [OF view wn(1) asc'(2) A0 A(1)] A(2) n(1) by auto
    let ?r = "observe_history (device_of e) (seq_of e) (AdmittedEntry_ver e) (materialized (newest_reset (log @ es) n) rec)"
    obtain c where c: "checked_add_signed (pm_live_count ?r) d = Some c"
      "agg_ok ((log @ es) @ [e]) n (materialize_count_at (order_of e) (?r\<lparr>pm_live_count := c\<rparr>))"
      by (rule agg_ok_point [OF rec asc'(1) k(1) wn(2) dev small d refl])
    let ?v = "materialize_count_at (order_of e) (?r\<lparr>pm_live_count := c\<rparr>)"
    have "?f A x = Inr (bt_insert (node_bytes space n) ?v A1)"
      using m(1) g [of "node_bytes space n"] c(1) n(1) by (simp add: staged_aggregate_def Let_def)
    then show ?thesis
      using m(2) g c(2) n(1) by (intro exI [of _ "bt_insert (node_bytes space n) ?v A1"] exI [of _ ?v]) simp
  qed
  let ?path = "map (\<lambda>n. (n, node_bytes space n)) (ancestors (Prefix k))"
  have "distinct (map snd ?path)" using distinct_node_keys [OF w, of space] by (simp add: comp_def)
  moreover have "bt_wf A0" using A0 by (simp add: aggs_ok_def)
  ultimately have "\<exists>A'. rfold ?f A0 ?path = Inr A' \<and> bt_wf A' \<and>
      (\<forall>x \<in> set ?path. \<exists>v. bt_get A' (snd x) = Some v \<and> agg_ok (log @ es @ [e]) (fst x) v) \<and>
      (\<forall>k. k \<notin> snd ` set ?path \<longrightarrow> bt_get A' k = bt_get A0 k)"
    by (intro rfold_entries [where key = snd and f = ?f and Q = "\<lambda>x. agg_ok (log @ es @ [e]) (fst x)", OF step]) simp_all
  then obtain A' where A': "rfold ?f A0 ?path = Inr A'" "bt_wf A'"
    and hit: "\<And>n. n \<in> set (ancestors (Prefix k)) \<Longrightarrow> \<exists>v. bt_get A' (node_bytes space n) = Some v \<and> agg_ok (log @ es @ [e]) n v"
    and miss: "\<And>k'. k' \<notin> node_bytes space ` set (ancestors (Prefix k)) \<Longrightarrow> bt_get A' k' = bt_get A0 k'"
    by (auto simp: image_image)
  show ?thesis
  proof (rule that)
    show "apply_point_count space st A0 es (device_of e) k (seq_of e) (AdmittedEntry_ver e) (order_of e) d = Inr A'"
      unfolding apply_point_count_def aggregate_path_eq [OF w] rbind.simps by (rule A'(1))
    show "aggs_ok space log (es @ [e]) A'"
      by (rule aggs_ok_step [OF A0 A'(2) asc t(2)]) (use hit miss in \<open>auto simp: t(1)\<close>)
  qed
qed

lemma materialize_path:
  assumes view: "view_ok space st log" "log_ok log" "wf_id space" and r: "wf_range r"
    and asc: "ascending (log @ es)" and A0: "aggs_ok space log es A0"
  shows "\<exists>A. rfold (materialize_aggregate space st es) A0 (map (\<lambda>n. (n, node_bytes space n)) (ancestors r)) = Inr A \<and> bt_wf A \<and>
    (\<forall>n \<in> set (ancestors r). \<exists>rec. agg_ok (log @ es) n rec \<and>
       bt_get A (node_bytes space n) = Some (materialized (newest_reset (log @ es) n) rec)) \<and>
    (\<forall>k. k \<notin> node_bytes space ` set (ancestors r) \<longrightarrow> bt_get A k = bt_get A0 k)"
proof -
  let ?path = "map (\<lambda>n. (n, node_bytes space n)) (ancestors r)"
  let ?Q = "\<lambda>x v. \<exists>rec. agg_ok (log @ es) (fst x) rec \<and> v = materialized (newest_reset (log @ es) (fst x)) rec"
  have step: "\<exists>A' v. materialize_aggregate space st es A x = Inr A' \<and> bt_wf A' \<and>
      (\<forall>k. bt_get A' k = (if k = snd x then Some v else bt_get A k)) \<and> ?Q x v"
    if x: "x \<in> set ?path" and A: "bt_wf A" "bt_get A (snd x) = bt_get A0 (snd x)" for A x
  proof -
    from x obtain n where n: "x = (n, node_bytes space n)" "n \<in> set (ancestors r)" by auto
    have wn: "wf_range n" using n ancestors_iff [OF r] by auto
    obtain rec A1 where "agg_ok (log @ es) n rec"
      and "materialize_aggregate space st es A (n, node_bytes space n) = Inr A1" "bt_wf A1"
      and "\<And>k. bt_get A1 k =
        (if k = node_bytes space n then Some (materialized (newest_reset (log @ es) n) rec) else bt_get A k)"
      using materialize_node [OF view wn asc A0 A(1)] A(2) n(1) by auto
    then show ?thesis unfolding n(1) fst_conv snd_conv by blast
  qed
  have "distinct (map snd ?path)" using distinct_node_keys [OF r, of space] by (simp add: comp_def)
  moreover have "bt_wf A0" using A0 by (simp add: aggs_ok_def)
  ultimately have "\<exists>A. rfold (materialize_aggregate space st es) A0 ?path = Inr A \<and> bt_wf A \<and>
      (\<forall>x \<in> set ?path. \<exists>v. bt_get A (snd x) = Some v \<and> ?Q x v) \<and> (\<forall>k. k \<notin> snd ` set ?path \<longrightarrow> bt_get A k = bt_get A0 k)"
    by (intro rfold_entries [where key = snd and Q = ?Q, OF step]) simp_all
  then show ?thesis by (auto simp: image_image) blast
qed

lemma enumerate_ancestors:
  assumes "wf_range r" "(i, n) \<in> set (enumerate 0 (ancestors r))"
  shows "n \<in> set (ancestors r)" and "i + 1 = length (ancestors r) \<longleftrightarrow> n = r"
proof -
  from assms(2) have i: "i < length (ancestors r)" "n = ancestors r ! i"
    by (simp_all add: in_set_enumerate_eq)
  then show "n \<in> set (ancestors r)" by simp
  have r: "ancestors r ! (length (ancestors r) - 1) = r"
    using last_ancestors [OF assms(1)] by (simp add: last_conv_nth)
  have "i = length (ancestors r) - 1" if "n = r"
    using that i r nth_eq_iff_index_eq [OF distinct_ancestors, of i r "length (ancestors r) - 1"] by simp
  moreover have "i + 1 = length (ancestors r) \<longleftrightarrow> i = length (ancestors r) - 1" using i(1) by linarith
  ultimately show "i + 1 = length (ancestors r) \<longleftrightarrow> n = r" using i(2) r by metis
qed

lemma enumerate_map: "enumerate m (map f xs) = map (\<lambda>(i, x). (i, f x)) (enumerate m xs)"
  by (induction xs arbitrary: m) auto

lemma apply_range_count_step:
  assumes view: "view_ok space st log" "log_ok log" "wf_id space"
    and A0: "aggs_ok space log es A0" and asc: "ascending (log @ es @ [e])"
    and m: "mutation_of e = DeleteRange r" and r: "wf_range r" and dev: "wf_id (device_of e)"
  obtains A' where "apply_range_count space st A0 es (device_of e) r (seq_of e) (AdmittedEntry_ver e) (order_of e) = Inr A'"
    and "aggs_ok space log (es @ [e]) A'"
proof -
  let ?log = "log @ es"
  have asc': "ascending (?log @ [e])" "ascending ?log" using asc ascending_append [of ?log] by simp_all
  let ?path = "map (\<lambda>n. (n, node_bytes space n)) (ancestors r)"
  let ?mat = "\<lambda>n rec. materialized (newest_reset ?log n) rec"
  obtain A where A: "rfold (materialize_aggregate space st es) A0 ?path = Inr A" "bt_wf A"
    and on: "\<And>n. n \<in> set (ancestors r) \<Longrightarrow> \<exists>rec. agg_ok ?log n rec \<and> bt_get A (node_bytes space n) = Some (?mat n rec)"
    and off: "\<And>k. k \<notin> node_bytes space ` set (ancestors r) \<Longrightarrow> bt_get A k = bt_get A0 k"
    using materialize_path [OF view r asc'(2) A0] by blast
  have "r \<in> set (ancestors r)" using ancestors_iff [OF r] r by simp
  from on [OF this] obtain t where t: "agg_ok ?log r t" "bt_get A (node_bytes space r) = Some (?mat r t)" by blast
  let ?removed = "pm_live_count (?mat r t)"
  have removed: "unat ?removed = card (live_keys ?log r)" by (rule agg_ok_materialized(2) [OF t(1)])
  let ?f = "\<lambda>staged (index, node).
         rbind (staged_aggregate staged (snd node)) (\<lambda>rec.
           let rec = observe_history (device_of e) (seq_of e) (AdmittedEntry_ver e) rec in
           if index + 1 = length ?path
           then Inr (bt_insert (snd node) (rec\<lparr>pm_live_count := 0, pm_count_epoch := order_of e\<rparr>) staged)
           else rbind (ok_or (Panic ''live count underflow: range count exceeds ancestor count'')
                   (checked_sub64 (pm_live_count rec) ?removed)) (\<lambda>count. Inr
                 (bt_insert (snd node) (materialize_count_at (order_of e) (rec\<lparr>pm_live_count := count\<rparr>)) staged)))"
  let ?Q = "\<lambda>x v. agg_ok (log @ es @ [e]) (fst (snd x)) v"
  have step: "\<exists>A' v. ?f B x = Inr A' \<and> bt_wf A' \<and> (\<forall>k. bt_get A' k = (if k = snd (snd x) then Some v else bt_get B k)) \<and> ?Q x v"
    if x: "x \<in> set (enumerate 0 ?path)" and B: "bt_wf B" "bt_get B (snd (snd x)) = bt_get A (snd (snd x))" for B x
  proof -
    from x obtain i n where n: "x = (i, n, node_bytes space n)" "(i, n) \<in> set (enumerate 0 (ancestors r))"
      by (auto simp: enumerate_map)
    note en = enumerate_ancestors [OF r n(2)]
    from on [OF en(1)] obtain rec where rec: "agg_ok ?log n rec" "bt_get A (node_bytes space n) = Some (?mat n rec)" by blast
    let ?r = "observe_history (device_of e) (seq_of e) (AdmittedEntry_ver e) (?mat n rec)"
    have get: "staged_aggregate B (node_bytes space n) = Inr (?mat n rec)"
      using B(2) rec(2) n(1) by (simp add: staged_aggregate_def)
    obtain v where v: "?f B x = Inr (bt_insert (node_bytes space n) v B)" "agg_ok (?log @ [e]) n v"
    proof (cases "n = r")
      case True
      with en(2) have i: "i + 1 = length (ancestors r)" by simp
      show ?thesis
        by (rule that [OF _ agg_ok_range_target [OF rec(1) [unfolded True] asc'(1) m dev, folded True]])
          (use get i n(1) in \<open>simp add: Let_def True\<close>)
    next
      case False
      with en(2) have i: "i + 1 \<noteq> length (ancestors r)" by simp
      have cov: "covers_range n r" using en(1) ancestors_iff [OF r] by simp
      obtain c where c: "checked_sub64 (pm_live_count ?r) ?removed = Some c"
        "agg_ok (?log @ [e]) n (materialize_count_at (order_of e) (?r\<lparr>pm_live_count := c\<rparr>))"
        by (rule agg_ok_range_ancestor [OF rec(1) asc'(1) m cov dev removed refl])
      show ?thesis
        by (rule that [OF _ c(2)]) (use get i n(1) c(1) in \<open>simp add: Let_def\<close>)
    qed
    then show ?thesis using B(1) n(1) by (intro exI [of _ "bt_insert (node_bytes space n) v B"] exI [of _ v]) simp
  qed
  have "map (snd \<circ> snd) (enumerate 0 ?path) = map snd ?path"
    by (simp only: map_map [symmetric] map_snd_enumerate)
  then have d: "distinct (map (snd \<circ> snd) (enumerate 0 ?path))"
    using distinct_node_keys [OF r, of space] by (simp add: comp_def)
  have "\<exists>A'. rfold ?f A (enumerate 0 ?path) = Inr A' \<and> bt_wf A' \<and>
      (\<forall>x \<in> set (enumerate 0 ?path). \<exists>v. bt_get A' ((snd \<circ> snd) x) = Some v \<and> ?Q x v) \<and>
      (\<forall>k. k \<notin> (snd \<circ> snd) ` set (enumerate 0 ?path) \<longrightarrow> bt_get A' k = bt_get A k)"
    by (rule rfold_entries [where key = "snd \<circ> snd" and f = ?f and Q = ?Q, OF _ d A(2)]) (use step in simp_all)
  then obtain A' where A': "rfold ?f A (enumerate 0 ?path) = Inr A'" "bt_wf A'"
    and hit: "\<forall>x \<in> set (enumerate 0 ?path). \<exists>v. bt_get A' (snd (snd x)) = Some v \<and> ?Q x v"
    and miss: "\<forall>k. k \<notin> (snd \<circ> snd) ` set (enumerate 0 ?path) \<longrightarrow> bt_get A' k = bt_get A k" by auto
  have nodes: "(snd \<circ> snd) ` set (enumerate 0 ?path) = node_bytes space ` set (ancestors r)"
    unfolding set_map [symmetric] \<open>map (snd \<circ> snd) (enumerate 0 ?path) = map snd ?path\<close> by (simp add: comp_def)
  show ?thesis
  proof (rule that)
    have "last ?path = (r, node_bytes space r)" by (simp add: last_map last_ancestors [OF r])
    then show "apply_range_count space st A0 es (device_of e) r (seq_of e) (AdmittedEntry_ver e) (order_of e) = Inr A'"
      unfolding apply_range_count_def aggregate_path_eq [OF r] rbind.simps A(1) Let_def
      using t(2) A'(1) by (simp add: Let_def)
    show "aggs_ok space log (es @ [e]) A'"
    proof (rule aggs_ok_step [OF A0 A'(2) asc])
      show "wf_mutation (mutation_of e)" using m r by simp
      show "\<exists>rec. bt_get A' (node_bytes space n) = Some rec \<and> agg_ok (log @ es @ [e]) n rec"
        if "n \<in> set (ancestors (target_range (mutation_of e)))" for n
      proof -
        from that m obtain i where "i < length (ancestors r)" "ancestors r ! i = n" by (auto simp: in_set_conv_nth)
        then have "(i, n, node_bytes space n) \<in> set (enumerate 0 ?path)"
          by (auto simp: enumerate_map in_set_enumerate_eq image_iff intro!: bexI [of _ "(i, n)"])
        with hit show ?thesis by fastforce
      qed
      show "bt_get A' k = bt_get A0 k" if "k \<notin> node_bytes space ` set (ancestors (target_range (mutation_of e)))" for k
        using that miss off m unfolding nodes by simp
    qed
  qed
qed

end
