(* ===== verification/Admission.thy ===== *)
theory Admission
  imports Staging LeaseTable
begin

text \<open>
  Admission refines appending to the log.  \<open>spec_admit\<close> decides a request from the log alone: the
  device's history, the lease table, the range asserts and the version order; \<open>admit\<close> returns the
  same answer and leaves a store that represents the new log.
\<close>

subsection \<open>Versions an operation must exceed\<close>

definition rivals :: "admitted list \<Rightarrow> OpaqueValue Mutation \<Rightarrow> admitted set" where
  "rivals log m = {x \<in> set log. conflicts m (mutation_of x)}"

lemma finite_rivals [simp]: "finite (rivals log m)"
  by (simp add: rivals_def)

lemma conflicts_point: "point_key m = Some k \<Longrightarrow> conflicts m (mutation_of x) \<longleftrightarrow> point_key (mutation_of x) = Some k \<or> resets (Prefix k) x"
  by (cases m; cases "mutation_of x") (auto simp: resets_def)

lemma conflicts_range: "conflicts (DeleteRange r) (mutation_of x) \<longleftrightarrow> mutation_relevant r (mutation_of x)"
  by (cases "mutation_of x") (auto simp: covers_range_Prefix_key)

lemma rivals_point:
  "point_key m = Some k \<Longrightarrow>
   rivals log m = {x \<in> set log. point_key (mutation_of x) = Some k} \<union> {x \<in> set log. resets (Prefix k) x}"
  unfolding rivals_def conflicts_point by blast

lemma rivals_range: "rivals log (DeleteRange r) = {x \<in> set log. mutation_relevant r (mutation_of x)}"
  unfolding rivals_def conflicts_range by (rule refl)

lemma last_point_ver:
  "vers_ascend log \<Longrightarrow> map_option AdmittedEntry_ver (last_point log k) = opt_max {x \<in> set log. point_key (mutation_of x) = Some k}"
proof (induction log rule: rev_induct)
  case (snoc e log)
  let ?E = "{x \<in> set log. point_key (mutation_of x) = Some k}"
  show ?case
  proof (cases "point_key (mutation_of e) = Some k")
    case True
    have "AdmittedEntry_ver x < AdmittedEntry_ver e" if "x \<in> ?E" for x
      using that snoc.prems True by (auto simp: vers_ascend_snoc conflicts_point [OF True])
    then have lt: "x \<in> ?E \<Longrightarrow> AdmittedEntry_ver x < AdmittedEntry_ver e" for x .
    have "ver_max ?E \<le> AdmittedEntry_ver e"
    proof (cases "ver_max ?E = 0")
      case False
      then obtain x where "x \<in> ?E" "AdmittedEntry_ver x = ver_max ?E" using ver_max_attained [of ?E] by auto
      with lt [of x] show ?thesis by simp
    qed simp
    moreover have "{x \<in> set (log @ [e]). point_key (mutation_of x) = Some k} = insert e ?E" using True by auto
    ultimately show ?thesis using True by (simp add: opt_max_def ver_max_insert max_absorb2)
  next
    case False
    then have "{x \<in> set (log @ [e]). point_key (mutation_of x) = Some k} = ?E" by auto
    with False snoc show ?thesis by (simp add: vers_ascend_snoc)
  qed
qed (simp add: opt_max_def)

lemma last_point_append: "last_point (log @ es) k = (case last_point es k of Some e \<Rightarrow> Some e | None \<Rightarrow> last_point log k)"
  by (induction es rule: rev_induct) (auto simp flip: append_assoc)

lemma last_range_append: "last_range (log @ es) r = (case last_range es r of Some e \<Rightarrow> Some e | None \<Rightarrow> last_range log r)"
  by (induction es rule: rev_induct) (auto simp flip: append_assoc)

lemma point_current_ver:
  assumes "view_ok space st log" "log_ok log" "wf_id space" "wf_key k" "log_ok (log @ es)" "point_key m = Some k"
    and "covering_range_max_ver space st k = Inr cv"
  shows "max_ver (max_ver (map_option AdmittedEntry_ver (last_point (log @ es) k)) cv)
      (iter_max (map AdmittedEntry_ver
        (filter (\<lambda>event. case mutation_of event of DeleteRange rng \<Rightarrow> covers_key rng k | _ \<Rightarrow> False) es))) =
    opt_max (rivals (log @ es) m)"
proof -
  have p: "(\<lambda>event. case mutation_of event of DeleteRange rng \<Rightarrow> covers_key rng k | _ \<Rightarrow> False) = resets (Prefix k)"
    by (intro ext) (simp add: resets_case covers_range_Prefix_key split: Mutation.split)
  have v: "vers_ascend (log @ es)" using assms(5) by (simp add: log_ok_def)
  have c: "cv = opt_max {e \<in> set log. resets (Prefix k) e}"
    using covering_range_max_ver_view [OF assms(1-4)] assms(7) by simp
  show ?thesis
    unfolding p c last_point_ver [OF v] iter_max_opt rivals_point [OF assms(6)]
    by (simp add: max_ver_opt, rule arg_cong [of _ _ opt_max], auto)
qed

lemma range_current_ver:
  assumes "log_ok log" and h: "heads_repr (eh_history eh) (dev_max {x \<in> set log. mutation_relevant r (mutation_of x)})"
    and v: "eh_max_ver eh = ver_max {x \<in> set log. mutation_relevant r (mutation_of x)}"
  shows "max_ver (if HistoricalHeads_max_admission_seq (eh_history eh) \<noteq> 0 then Some (eh_max_ver eh) else None)
      (iter_max (map AdmittedEntry_ver (filter (\<lambda>event. mutation_relevant r (mutation_of event)) es))) =
    opt_max (rivals (log @ es) (DeleteRange r))"
proof -
  let ?E = "{x \<in> set log. mutation_relevant r (mutation_of x)}"
  have "HistoricalHeads_max_admission_seq (eh_history eh) \<noteq> 0 \<longleftrightarrow> ?E \<noteq> {}"
  proof
    assume "HistoricalHeads_max_admission_seq (eh_history eh) \<noteq> 0"
    with heads_repr_max(2) [OF h] obtain d where "dev_max ?E d \<noteq> 0" by metis
    then show "?E \<noteq> {}" using dev_max_attained [of ?E d] by auto
  next
    assume "?E \<noteq> {}"
    then obtain e where e: "e \<in> ?E" by blast
    then have "seq_of e \<noteq> 0" using log_ok_valid(3) [OF assms(1)] by (simp add: ascending_def)
    moreover have "seq_of e \<le> HistoricalHeads_max_admission_seq (eh_history eh)"
      using dev_max_ge [of ?E e] e heads_repr_max(1) [OF h] by (auto intro: order_trans)
    ultimately show "HistoricalHeads_max_admission_seq (eh_history eh) \<noteq> 0" by auto
  qed
  then have "(if HistoricalHeads_max_admission_seq (eh_history eh) \<noteq> 0 then Some (eh_max_ver eh) else None) = opt_max ?E"
    by (simp add: opt_max_def v)
  then show ?thesis
    unfolding iter_max_opt rivals_range by (simp add: max_ver_opt, intro arg_cong [of _ _ opt_max]) auto
qed

subsection \<open>The staging invariant\<close>

definition staged_ok :: "SpaceId \<Rightarrow> admitted list \<Rightarrow> admitted list \<Rightarrow> Admitting \<Rightarrow> bool" where
  "staged_ok space log es am \<longleftrightarrow> am_events am = es \<and>
     bt_wf (am_staged am) \<and> (\<forall>k. bt_get (am_staged am) k = last_point es k) \<and>
     bt_wf (am_ranges am) \<and>
     (\<forall>r. case bt_get (am_ranges am) r of
            None \<Rightarrow> last_range es r = None
          | Some rec \<Rightarrow> last_range es r \<noteq> None \<and> tomb_ok (log @ es) r rec) \<and>
     aggs_ok space log es (am_aggregates am)"

fun admission_target :: "'v Mutation \<Rightarrow> AdmissionTarget" where
  "admission_target (Set k _) = TPoint k"
| "admission_target (Delete k) = TPoint k"
| "admission_target (DeleteRange r) = TRange r"

definition op_bytes :: "admitted \<Rightarrow> bytes" where
  "op_bytes e = (if is_delete_range (mutation_of e) then projr (rbind (RangeDeleteRecord_new e) RangeDeleteRecord_encode)
     else data_bytes e)"

definition op_skey :: "admitted \<Rightarrow> skey" where
  "op_skey e = KOp (seq_of e) (at_op_index (ae_admission e)) (admission_target (mutation_of e))"

definition op_put :: "SpaceId \<Rightarrow> admitted \<Rightarrow> Op" where
  "op_put space e = Put (skey_bytes space (op_skey e)) (op_bytes e)"

lemma tomb_ok_others:
  "\<forall>e \<in> set es. mutation_of e \<noteq> DeleteRange r \<Longrightarrow> tomb_ok (log @ es) r rec \<longleftrightarrow> tomb_ok log r rec"
proof (induction es rule: rev_induct)
  case (snoc e es)
  then show ?case using tomb_ok_other [of e r "log @ es" rec] by simp
qed simp

lemma staged_okD:
  assumes "staged_ok space log es am"
  shows "am_events am = es" "bt_wf (am_staged am)" "bt_get (am_staged am) k = last_point es k" "bt_wf (am_ranges am)"
    and "aggs_ok space log es (am_aggregates am)"
    and "bt_get (am_ranges am) r = Some rec \<Longrightarrow> last_range es r \<noteq> None \<and> tomb_ok (log @ es) r rec"
    and "bt_get (am_ranges am) r = None \<Longrightarrow> last_range es r = None"
proof -
  have "case bt_get (am_ranges am) r of
            None \<Rightarrow> last_range es r = None
          | Some rec \<Rightarrow> last_range es r \<noteq> None \<and> tomb_ok (log @ es) r rec"
    using assms unfolding staged_ok_def by blast
  then show "bt_get (am_ranges am) r = Some rec \<Longrightarrow> last_range es r \<noteq> None \<and> tomb_ok (log @ es) r rec"
    and "bt_get (am_ranges am) r = None \<Longrightarrow> last_range es r = None" by simp_all
qed (use assms in \<open>simp_all add: staged_ok_def\<close>)

text \<open>What admitting one event changes in the staging area.\<close>

definition staged_after :: "SpaceId \<Rightarrow> admitted list \<Rightarrow> admitted list \<Rightarrow> admitted \<Rightarrow> Admitting \<Rightarrow> Admitting \<Rightarrow> bool" where
  "staged_after space log es e am am' \<longleftrightarrow>
     staged_ok space log (es @ [e]) (am'\<lparr>am_events := es @ [e]\<rparr>) \<and> am_events am' = es \<and>
     am_batch am' = am_batch am @ [op_put space e] \<and>
     am_checksum am' = am_checksum am \<and> am_next_seq am' = am_next_seq am \<and> am_results am' = am_results am"

lemma admit_point_step:
  assumes view: "view_ok space st log" "log_ok log" "wf_id space" and am: "staged_ok space log es am"
    and k: "point_key (mutation_of e) = Some k" "wf_key k"
    and log: "log_ok (log @ es)" and asc: "ascending (log @ es @ [e])" and dev: "device_of e = device" "wf_id device"
    and small: "length (log @ es) + 1 < 2 ^ 64"
  shows "if \<exists>x \<in> rivals (log @ es) (mutation_of e). AdmittedEntry_ver e \<le> AdmittedEntry_ver x
    then admit_point space st device e k am =
      Inl (Kernel (VerRegression k (ver_max (rivals (log @ es) (mutation_of e))) (AdmittedEntry_ver e)))
    else \<exists>am'. admit_point space st device e k am = Inr am' \<and> staged_after space log es e am am'"
proof -
  note D = staged_okD [OF am]
  let ?R = "rivals (log @ es) (mutation_of e)"
  obtain stored where stored: "(case bt_get (am_staged am) k of Some _ \<Rightarrow> Inr None | None \<Rightarrow> data_record space st k) = Inr stored"
      "(case bt_get (am_staged am) k of Some rec \<Rightarrow> Some rec | None \<Rightarrow> stored) = last_point (log @ es) k"
    using data_record_view [OF view(1,2) k(2)] that
    by (cases "last_point es k") (simp_all add: D(3) last_point_append)
  have vis: "point_record_visible_with_events space st (last_point (log @ es) k) es = Inr (live (log @ es) k \<noteq> None)"
    by (rule point_record_visible_with_events_view [OF view(1) log view(2,3) k(2)])
  obtain cv where cv: "covering_range_max_ver space st k = Inr cv"
    using covering_range_max_ver_view [OF view k(2)] by blast
  note cur = point_current_ver [OF view k(2) log k(1) cv]
  obtain A' where A': "apply_point_count space st (am_aggregates am) es (device_of e) k (seq_of e) (AdmittedEntry_ver e) (order_of e)
      (of_bool (is_set (mutation_of e)) - of_bool (live (log @ es) k \<noteq> None)) = Inr A'" "aggs_ok space log (es @ [e]) A'"
    by (rule apply_point_count_step [OF view D(5) asc k _ small refl]) (use dev in simp_all)
  let ?am = "am\<lparr>am_aggregates := A', am_staged := bt_insert k e (am_staged am),
       am_batch := WriteBatch_put (admission_op_key space (seq_of e) (at_op_index (ae_admission e)) k) (data_bytes e) (am_batch am)\<rparr>"
  have eq: "admit_point space st device e k am =
      (if \<exists>x \<in> ?R. AdmittedEntry_ver e \<le> AdmittedEntry_ver x
       then Inl (Kernel (VerRegression k (the (opt_max ?R)) (AdmittedEntry_ver e))) else Inr ?am)"
    unfolding admit_point_def Let_def stored rbind.simps D(1) vis cv cur opt_max_le [OF finite_rivals]
    using A'(1) dev(1) by (simp add: DataRecord_encode_point [OF k(1)])
  have m: "\<not> is_delete_range (mutation_of e)" "admission_target (mutation_of e) = TPoint k" "mutation_of e \<noteq> DeleteRange r" for r
    using k(1) by (cases "mutation_of e"; simp)+
  have "case bt_get (am_ranges am) r of None \<Rightarrow> last_range (es @ [e]) r = None
      | Some rec \<Rightarrow> last_range (es @ [e]) r \<noteq> None \<and> tomb_ok (log @ es @ [e]) r rec" for r
    using D(6,7) [of r] tomb_ok_other [OF m(3), of "log @ es" r] m(3) [of r] by (auto split: option.split)
  then have "staged_after space log es e am ?am"
    unfolding staged_after_def staged_ok_def using D A'(2) k(1) m(1,2)
    by (simp add: WriteBatch_put_def op_put_def op_skey_def op_bytes_def skey_bytes_eqs)
  then show ?thesis
    unfolding eq by (auto simp: opt_max_def)
qed

lemma range_op_bytes:
  assumes "mutation_of e = DeleteRange r"
  shows "rbind (RangeDeleteRecord_new e) RangeDeleteRecord_encode = Inr (op_bytes e)"
  using assms by (simp add: op_bytes_def RangeDeleteRecord_new_def RangeDeleteRecord_encode_def Let_def)

lemma staged_tombstone:
  assumes view: "view_ok space st log" "log_ok log" and am: "staged_ok space log es am"
    and m: "mutation_of e = DeleteRange r" and r: "wf_range r"
    and asc: "ascending (log @ es @ [e])" and dev: "wf_id (device_of e)"
  obtains rec where "(case bt_get (am_ranges am) r of
          Some rec \<Rightarrow> RangeDeleteRecord_observe e rec
        | None \<Rightarrow>
            rbind (range_delete_record space st r) (\<lambda>stored.
            rbind (case stored of Some rec \<Rightarrow> Inr rec | None \<Rightarrow> RangeDeleteRecord_new e) (\<lambda>rec.
              if order_of (rd_entry rec) \<noteq> order_of e then RangeDeleteRecord_observe e rec else Inr rec))) = Inr rec"
    and "tomb_ok (log @ es @ [e]) r rec"
proof (cases "bt_get (am_ranges am) r")
  case (Some rec)
  then have "tomb_ok (log @ es) r rec" using staged_okD(6) [OF am] by blast
  then obtain rec' where "RangeDeleteRecord_observe e rec = Inr rec'" "tomb_ok ((log @ es) @ [e]) r rec'"
    by (rule tomb_ok_observe [OF m _ _ dev]) (use asc in simp)
  with Some that show ?thesis by simp
next
  case None
  then have none: "last_range es r = None" by (rule staged_okD(7) [OF am])
  obtain found where f: "range_delete_record space st r = Inr found"
    "case found of None \<Rightarrow> last_range log r = None | Some rec \<Rightarrow> tomb_ok log r rec"
    by (rule range_delete_record_view [OF view r])
  show ?thesis
  proof (cases found)
    case None
    with f(2) none have "last_range (log @ es) r = None" by (simp add: last_range_append)
    then obtain rec where "RangeDeleteRecord_new e = Inr rec" "tomb_ok ((log @ es) @ [e]) r rec" "rd_entry rec = e"
      by (rule tomb_ok_new [OF m]) (use asc dev in \<open>simp_all add: ascending_def\<close>)
    with f(1) None \<open>bt_get (am_ranges am) r = None\<close> that show ?thesis by simp
  next
    case (Some rec)
    with f(2) none have t: "tomb_ok (log @ es) r rec"
      by (simp add: tomb_ok_others last_range_None)
    then have "last_range (log @ es) r = Some (rd_entry rec)" by (simp add: tomb_ok_def Let_def)
    then have "rd_entry rec \<in> set (log @ es)" using last_range_Some by blast
    then have "order_of (rd_entry rec) < order_of e" using asc ascending_snoc [of "log @ es" e] by simp
    then have "order_of (rd_entry rec) \<noteq> order_of e" by simp
    moreover obtain rec' where "RangeDeleteRecord_observe e rec = Inr rec'" "tomb_ok ((log @ es) @ [e]) r rec'"
      by (rule tomb_ok_observe [OF m t _ dev]) (use asc in simp)
    ultimately show ?thesis using f(1) Some \<open>bt_get (am_ranges am) r = None\<close> that by simp
  qed
qed

lemma admit_range_step:
  assumes view: "view_ok space st log" "log_ok log" "wf_id space" and am: "staged_ok space log es am"
    and m: "mutation_of e = DeleteRange r" and r: "wf_range r"
    and asc: "ascending (log @ es @ [e])" and dev: "device_of e = device" "wf_id device"
  shows "if \<exists>x \<in> rivals (log @ es) (mutation_of e). AdmittedEntry_ver e \<le> AdmittedEntry_ver x
    then admit_range space st device e r am =
      Inl (Kernel (RangeVerRegression r (ver_max (rivals (log @ es) (mutation_of e))) (AdmittedEntry_ver e)))
    else \<exists>am'. admit_range space st device e r am = Inr am' \<and> staged_after space log es e am am'"
proof -
  note D = staged_okD [OF am]
  have d: "wf_id (device_of e)" using dev by simp
  let ?R = "rivals (log @ es) (DeleteRange r)"
  obtain eh where eh: "effective_history space st r = Inr eh"
    and h: "heads_repr (eh_history eh) (dev_max {x \<in> set log. mutation_relevant r (mutation_of x)})"
      "eh_max_ver eh = ver_max {x \<in> set log. mutation_relevant r (mutation_of x)}"
    by (rule effective_history_view [OF view r])
  note cur = range_current_ver [OF view(2) h]
  obtain A' where A': "apply_range_count space st (am_aggregates am) es (device_of e) r (seq_of e) (AdmittedEntry_ver e) (order_of e) = Inr A'"
    "aggs_ok space log (es @ [e]) A'"
    by (rule apply_range_count_step [OF view D(5) asc m r d])
  obtain rec where rec: "(case bt_get (am_ranges am) r of
          Some rec \<Rightarrow> RangeDeleteRecord_observe e rec
        | None \<Rightarrow>
            rbind (range_delete_record space st r) (\<lambda>stored.
            rbind (case stored of Some rec \<Rightarrow> Inr rec | None \<Rightarrow> RangeDeleteRecord_new e) (\<lambda>rec.
              if order_of (rd_entry rec) \<noteq> order_of e then RangeDeleteRecord_observe e rec else Inr rec))) = Inr rec"
    and t: "tomb_ok (log @ es @ [e]) r rec"
    by (rule staged_tombstone [OF view(1,2) am m r asc d])
  let ?am = "am\<lparr>am_aggregates := A', am_ranges := bt_insert r rec (am_ranges am),
       am_batch := WriteBatch_put (admission_range_op_key space (seq_of e) (at_op_index (ae_admission e)) r) (op_bytes e) (am_batch am)\<rparr>"
  have eq: "admit_range space st device e r am =
      (if \<exists>x \<in> ?R. AdmittedEntry_ver e \<le> AdmittedEntry_ver x
       then Inl (Kernel (RangeVerRegression r (the (opt_max ?R)) (AdmittedEntry_ver e))) else Inr ?am)"
    unfolding admit_range_def Let_def eh rbind.simps D(1) cur opt_max_le [OF finite_rivals] rec range_op_bytes [OF m]
    using A'(1) dev(1) by simp
  have "case bt_get (bt_insert r rec (am_ranges am)) s of None \<Rightarrow> last_range (es @ [e]) s = None
      | Some rec \<Rightarrow> last_range (es @ [e]) s \<noteq> None \<and> tomb_ok (log @ es @ [e]) s rec" for s
  proof (cases "s = r")
    case True
    with t m D(4) show ?thesis by simp
  next
    case False
    then have "mutation_of e \<noteq> DeleteRange s" using m by simp
    with False D(6,7) [of s] tomb_ok_other [of e s "log @ es"] D(4) show ?thesis by (auto split: option.split)
  qed
  moreover have "last_point (es @ [e]) k = last_point es k" for k using m by simp
  ultimately have "staged_after space log es e am ?am"
    unfolding staged_after_def staged_ok_def using D A'(2) m
    by (simp add: WriteBatch_put_def op_put_def op_skey_def skey_bytes_eqs)
  then show ?thesis
    unfolding eq m by (auto simp: opt_max_def)
qed

subsection \<open>The specification of one operation\<close>

definition stamp :: "AdmissionSeq \<Rightarrow> nat \<times> entry \<Rightarrow> admitted" where
  "stamp seq ie = \<lparr>ae_device_entry = snd ie, ae_admission = \<lparr>at_admission_seq = seq, at_op_index = of_nat (fst ie)\<rparr>\<rparr>"

fun version_error :: "'v Mutation \<Rightarrow> Ver \<Rightarrow> Ver \<Rightarrow> KernelError" where
  "version_error (Set k _) current attempted = VerRegression k current attempted"
| "version_error (Delete k) current attempted = VerRegression k current attempted"
| "version_error (DeleteRange r) current attempted = RangeVerRegression r current attempted"

definition spec_entry ::
  "DeviceId \<Rightarrow> DeviceSeq \<Rightarrow> AdmissionSeq \<Rightarrow> admitted list \<Rightarrow> nat \<times> entry \<Rightarrow> Error + admitted" where
  "spec_entry device device_seq seq log ie =
     (let entry = snd ie; R = rivals log (de_mutation entry) in
      if fst ie \<ge> 2 ^ 32 then Inl (Kernel (InvalidSeal ''admission batch has too many entries''))
      else if dt_device (de_tag entry) \<noteq> device \<or> dt_device_seq (de_tag entry) \<noteq> device_seq
      then Inl (Kernel (InvalidSeal ''device entry tag does not match its admission batch''))
      else case validate_payload (de_seal entry) of
        Inl err \<Rightarrow> Inl (Kernel (InvalidSeal (SealPayloadError_to_string err)))
      | Inr _ \<Rightarrow>
          if \<exists>x \<in> R. DeviceEntry_ver entry \<le> AdmittedEntry_ver x
          then Inl (Kernel (version_error (de_mutation entry) (ver_max R) (DeviceEntry_ver entry)))
          else Inr (stamp seq ie))"

definition spec_entries ::
  "DeviceId \<Rightarrow> DeviceSeq \<Rightarrow> AdmissionSeq \<Rightarrow> admitted list \<Rightarrow> admitted list \<Rightarrow> (nat \<times> entry) list \<Rightarrow> Error + admitted list" where
  "spec_entries device device_seq seq log es ies =
     rfold (\<lambda>es ie. rbind (spec_entry device device_seq seq (log @ es) ie) (\<lambda>e. Inr (es @ [e]))) es ies"

text \<open>The next operation goes after everything in the log, and its batch belongs to one device.\<close>

definition next_at :: "admitted list \<Rightarrow> AdmissionSeq \<Rightarrow> nat \<Rightarrow> DeviceId \<Rightarrow> bool" where
  "next_at log seq i device \<longleftrightarrow> seq \<noteq> 0 \<and>
     (\<forall>x \<in> set log. seq_of x < seq \<or> seq_of x = seq \<and> device_of x = device \<and> unat (at_op_index (ae_admission x)) < i)"

lemma stamp_simps [simp]:
  "ae_device_entry (stamp seq ie) = snd ie" "seq_of (stamp seq ie) = seq"
  "at_op_index (ae_admission (stamp seq ie)) = of_nat (fst ie)"
  "AdmittedEntry_ver (stamp seq ie) = DeviceEntry_ver (snd ie)"
  "order_of (stamp seq ie) = AdmissionOrder seq (of_nat (fst ie))"
  by (simp_all add: stamp_def AdmittedEntry_ver_def order_def)

lemma unat_u32: "i < 2 ^ 32 \<Longrightarrow> unat (of_nat i :: u32) = i"
  by (simp add: unat_of_nat)

lemma next_at_order:
  assumes "next_at log seq i device" "i < 2 ^ 32" "x \<in> set log"
  shows "order_of x < AdmissionOrder seq (of_nat i)"
  using assms unat_u32 [OF assms(2)] by (auto simp: next_at_def order_def word_less_nat_alt)

lemma next_at_stamp:
  assumes "next_at log seq i device" "i < 2 ^ 32" "dt_device (de_tag entry) = device"
  shows "next_at (log @ [stamp seq (i, entry)]) seq (Suc i) device"
  using assms unat_u32 [OF assms(2)] by (auto simp: next_at_def)

lemma log_ok_stamp:
  assumes "log_ok log" "next_at log seq i device" "spec_entry device device_seq seq log (i, entry) = Inr e" "wf_entry entry"
  shows "log_ok (log @ [e])" "e = stamp seq (i, entry)" "dt_device (de_tag entry) = device"
    "dt_device_seq (de_tag entry) = device_seq" "i < 2 ^ 32"
proof -
  from assms(3) have i: "i < 2 ^ 32" and t: "dt_device (de_tag entry) = device" "dt_device_seq (de_tag entry) = device_seq"
    and p: "payload (de_seal entry) = []"
    and v: "\<And>x. x \<in> rivals log (de_mutation entry) \<Longrightarrow> AdmittedEntry_ver x < DeviceEntry_ver entry"
    and e: "e = stamp seq (i, entry)"
    unfolding spec_entry_def Let_def by (auto simp: validate_payload_Inr_iff not_le split: if_splits sum.splits)
  show "i < 2 ^ 32" "e = stamp seq (i, entry)" "dt_device (de_tag entry) = device" "dt_device_seq (de_tag entry) = device_seq"
    by fact+
  have asc: "ascending (log @ [e])"
    using log_ok_valid(3) [OF assms(1)] assms(2) next_at_order [OF assms(2) i] unfolding ascending_snoc e by (simp add: next_at_def)
  have "vers_ascend log" using assms(1) unfolding log_ok_def by blast
  then have vs: "vers_ascend (log @ [e])" using v unfolding vers_ascend_snoc e rivals_def by simp
  have ok: "valid_stored e" "wf_mutation (mutation_of e)"
    using assms(4) p unfolding e valid_stored_def wf_entry_def by simp_all
  have same: "device_of x = device_of e" if "x \<in> set log" "seq_of x = seq_of e" for x
    using assms(2) that t unfolding next_at_def e by auto
  have old: "device_of a = device_of b" if "a \<in> set log" "b \<in> set log" "seq_of a = seq_of b" for a b
    using assms(1) that unfolding log_ok_def by blast
  have dev: "\<forall>a \<in> set (log @ [e]). \<forall>b \<in> set (log @ [e]). seq_of a = seq_of b \<longrightarrow> device_of a = device_of b"
  proof (intro ballI impI)
    fix a b
    assume "a \<in> set (log @ [e])" "b \<in> set (log @ [e])" "seq_of a = seq_of b"
    then show "device_of a = device_of b"
      using same [of a] same [of b] old [of a b] by (cases "a = e"; cases "b = e") simp_all
  qed
  have "\<forall>x \<in> set (log @ [e]). valid_stored x \<and> wf_mutation (mutation_of x)"
    using ok log_ok_valid(1,2) [OF assms(1)] by simp
  with asc vs dev show "log_ok (log @ [e])" unfolding log_ok_def by blast
qed

lemma admit_entry_step:
  assumes view: "view_ok space st log" "log_ok log" "wf_id space" and am: "staged_ok space log es am"
    and log: "log_ok (log @ es)" and pos: "next_at (log @ es) seq i device" and entry: "wf_entry entry" and dev: "wf_id device"
    and small: "length (log @ es) + 1 < 2 ^ 64"
  shows "case spec_entry device device_seq seq (log @ es) (i, entry) of
      Inl err \<Rightarrow> admit_entry space st device device_seq seq am (i, entry) = Inl err
    | Inr e \<Rightarrow> \<exists>am'. admit_entry space st device device_seq seq am (i, entry) = Inr am' \<and>
        staged_ok space log (es @ [e]) am' \<and> am_batch am' = am_batch am @ [op_put space e] \<and>
        am_checksum am' = am_checksum am \<and> am_next_seq am' = am_next_seq am \<and> am_results am' = am_results am"
proof (cases "i < 2 ^ 32 \<and> dt_device (de_tag entry) = device \<and> dt_device_seq (de_tag entry) = device_seq \<and>
    payload (de_seal entry) = []")
  case False
  then show ?thesis
    by (cases "validate_payload (de_seal entry)")
      (auto simp: spec_entry_def admit_entry_def Let_def validate_payload_Inr_iff not_less)
next
  case True
  then have t: "i < 2 ^ 32" "dt_device (de_tag entry) = device" "dt_device_seq (de_tag entry) = device_seq"
    and p: "validate_payload (de_seal entry) = Inr ()" by (simp_all add: validate_payload_ok)
  let ?e = "stamp seq (i, entry)" and ?R = "rivals (log @ es) (de_mutation entry)"
  have asc: "ascending (log @ es @ [?e])"
    using log_ok_valid(3) [OF log] next_at_order [OF pos t(1)] pos ascending_snoc [of "log @ es" ?e]
    by (simp add: next_at_def)
  define run where "run = (case de_mutation entry of
      Set key _ \<Rightarrow> admit_point space st device ?e key am
    | Delete key \<Rightarrow> admit_point space st device ?e key am
    | DeleteRange rng \<Rightarrow> admit_range space st device ?e rng am)"
  have code: "admit_entry space st device device_seq seq am (i, entry) =
      rbind run (\<lambda>am. Inr (am\<lparr>am_events := am_events am @ [?e]\<rparr>))"
    using t p by (simp add: admit_entry_def run_def stamp_def not_le Let_def cong: Mutation.case_cong)
  have spec: "spec_entry device device_seq seq (log @ es) (i, entry) =
      (if \<exists>x \<in> ?R. DeviceEntry_ver entry \<le> AdmittedEntry_ver x
       then Inl (Kernel (version_error (de_mutation entry) (ver_max ?R) (DeviceEntry_ver entry))) else Inr ?e)"
    using t p by (simp add: spec_entry_def Let_def not_le)
  have out: "if \<exists>x \<in> ?R. DeviceEntry_ver entry \<le> AdmittedEntry_ver x
      then run = Inl (Kernel (version_error (de_mutation entry) (ver_max ?R) (DeviceEntry_ver entry)))
      else \<exists>am'. run = Inr am' \<and> staged_after space log es ?e am am'"
  proof (cases "de_mutation entry")
    case (DeleteRange r)
    moreover have "wf_range r" using entry DeleteRange by (simp add: wf_entry_def)
    ultimately show ?thesis
      using admit_range_step [OF view am _ _ asc _ dev, of r] t(2) by (simp add: run_def)
  next
    case (Set k v)
    moreover have "wf_key k" using entry Set by (simp add: wf_entry_def)
    ultimately show ?thesis
      using admit_point_step [OF view am _ _ log asc _ dev small, of k] t(2) by (simp add: run_def)
  next
    case (Delete k)
    moreover have "wf_key k" using entry Delete by (simp add: wf_entry_def)
    ultimately show ?thesis
      using admit_point_step [OF view am _ _ log asc _ dev small, of k] t(2) by (simp add: run_def)
  qed
  show ?thesis
  proof (cases "\<exists>x \<in> ?R. DeviceEntry_ver entry \<le> AdmittedEntry_ver x")
    case True
    with out show ?thesis unfolding code spec by simp
  next
    case False
    with out obtain am' where "run = Inr am'" "staged_after space log es ?e am am'" by auto
    with False show ?thesis unfolding code spec by (simp add: staged_after_def)
  qed
qed

end
