(* ===== verification/AdmitLoop.thy ===== *)
theory AdmitLoop
  imports Admission
begin

text \<open>
  The loops of admission: over the operations of a batch and over the batches of a request.  Each
  agrees with its specification on the log, error for error, and on success leaves the staging area
  representing the extended log and the batch holding exactly the new log records.
\<close>

subsection \<open>Operations\<close>

lemma spec_entries_Cons:
  "spec_entries device device_seq seq log es (ie # ies) =
     rbind (spec_entry device device_seq seq (log @ es) ie) (\<lambda>e. spec_entries device device_seq seq log (es @ [e]) ies)"
  by (simp add: spec_entries_def rbind_assoc)

lemma spec_entries_Nil [simp]: "spec_entries device device_seq seq log es [] = Inr es"
  by (simp add: spec_entries_def)

lemma spec_entries_shift:
  "spec_entries device device_seq seq log (es @ cur) ies =
     rbind (spec_entries device device_seq seq (log @ es) cur ies) (\<lambda>new. Inr (es @ new))"
proof (induction ies arbitrary: cur)
  case (Cons ie ies)
  show ?case
    using Cons.IH by (cases "spec_entry device device_seq seq (log @ es @ cur) ie") (simp_all add: spec_entries_Cons)
qed simp

definition tagged :: "DeviceId \<Rightarrow> DeviceSeq \<Rightarrow> entry \<Rightarrow> bool" where
  "tagged device device_seq entry \<longleftrightarrow> dt_device (de_tag entry) = device \<and> dt_device_seq (de_tag entry) = device_seq"

lemma admit_entries_step:
  assumes view: "view_ok space st log" "log_ok log" "wf_id space" and dev: "wf_id device"
    and "\<forall>entry \<in> set entries. wf_entry entry"
    and "staged_ok space log es am" "log_ok (log @ es)" "next_at (log @ es) seq i device"
    and "length (log @ es) + length entries < 2 ^ 64"
  shows "case spec_entries device device_seq seq log es (enumerate i entries) of
      Inl err \<Rightarrow> rfold (admit_entry space st device device_seq seq) am (enumerate i entries) = Inl err
    | Inr es' \<Rightarrow> es' = es @ map (stamp seq) (enumerate i entries) \<and> log_ok (log @ es') \<and>
        next_at (log @ es') seq (i + length entries) device \<and> (\<forall>entry \<in> set entries. tagged device device_seq entry) \<and>
        (\<exists>am'. rfold (admit_entry space st device device_seq seq) am (enumerate i entries) = Inr am' \<and>
           staged_ok space log es' am' \<and> am_batch am' = am_batch am @ map (op_put space \<circ> stamp seq) (enumerate i entries) \<and>
           am_checksum am' = am_checksum am \<and> am_next_seq am' = am_next_seq am \<and> am_results am' = am_results am)"
  using assms(5-)
proof (induction entries arbitrary: i es am)
  case (Cons entry entries)
  have w: "wf_entry entry" using Cons.prems(1) by simp
  have s: "length (log @ es) + 1 < 2 ^ 64" using Cons.prems(5) by simp
  note step = admit_entry_step [OF view Cons.prems(2,3,4) w dev s, of device_seq]
  show ?case
  proof (cases "spec_entry device device_seq seq (log @ es) (i, entry)")
    case (Inl err)
    with step show ?thesis by (simp add: spec_entries_Cons)
  next
    case (Inr e)
    note ok = log_ok_stamp [OF Cons.prems(3,4) Inr w]
    from step Inr obtain am1 where am1: "admit_entry space st device device_seq seq am (i, entry) = Inr am1"
      "staged_ok space log (es @ [e]) am1" "am_batch am1 = am_batch am @ [op_put space e]"
      "am_checksum am1 = am_checksum am" "am_next_seq am1 = am_next_seq am" "am_results am1 = am_results am"
      by auto
    have next1: "next_at (log @ es @ [e]) seq (Suc i) device"
      using next_at_stamp [OF Cons.prems(4) ok(5,3)] ok(2) by simp
    have IH: "case spec_entries device device_seq seq log (es @ [e]) (enumerate (Suc i) entries) of
      Inl err \<Rightarrow> rfold (admit_entry space st device device_seq seq) am1 (enumerate (Suc i) entries) = Inl err
    | Inr es' \<Rightarrow> es' = (es @ [e]) @ map (stamp seq) (enumerate (Suc i) entries) \<and> log_ok (log @ es') \<and>
        next_at (log @ es') seq (Suc i + length entries) device \<and> (\<forall>entry \<in> set entries. tagged device device_seq entry) \<and>
        (\<exists>am'. rfold (admit_entry space st device device_seq seq) am1 (enumerate (Suc i) entries) = Inr am' \<and>
           staged_ok space log es' am' \<and> am_batch am' = am_batch am1 @ map (op_put space \<circ> stamp seq) (enumerate (Suc i) entries) \<and>
           am_checksum am' = am_checksum am1 \<and> am_next_seq am' = am_next_seq am1 \<and> am_results am' = am_results am1)"
      by (rule Cons.IH) (use Cons.prems(1,5) am1(2) ok(1) next1 in simp_all)
    have spec: "spec_entries device device_seq seq log es (enumerate i (entry # entries)) =
        spec_entries device device_seq seq log (es @ [e]) (enumerate (Suc i) entries)"
      using Inr by (simp add: spec_entries_Cons)
    have code: "rfold (admit_entry space st device device_seq seq) am (enumerate i (entry # entries)) =
        rfold (admit_entry space st device device_seq seq) am1 (enumerate (Suc i) entries)"
      using am1(1) by simp
    show ?thesis
    proof (cases "spec_entries device device_seq seq log (es @ [e]) (enumerate (Suc i) entries)")
      case (Inl err)
      with IH show ?thesis unfolding spec code by simp
    next
      case (Inr es')
      with IH am1 ok show ?thesis unfolding spec code by (auto simp: tagged_def)
    qed
  qed
qed simp

subsection \<open>Range asserts\<close>

definition foreign_max :: "admitted list \<Rightarrow> DeviceId \<Rightarrow> key \<Rightarrow> AdmissionSeq" where
  "foreign_max log device p =
     Max (insert 0 (seq_of ` {e \<in> set log. mutation_relevant (Prefix p) (mutation_of e) \<and> device_of e \<noteq> device}))"

definition spec_failures :: "admitted list \<Rightarrow> DeviceId \<Rightarrow> AdmissionBatch \<Rightarrow> RangeAssertFailure list" where
  "spec_failures log device b =
     map (\<lambda>a. \<lparr>rf_prefix = ra_prefix a, rf_upto = ra_upto a, rf_actual = foreign_max log device (ra_prefix a)\<rparr>)
       (filter (\<lambda>a. foreign_max log device (ra_prefix a) > ra_upto a) (ab_range_asserts b))"

lemma heads_excluding_max:
  assumes "heads_repr h (dev_max E)" "finite E"
  shows "HistoricalHeads_max_excluding h device = Max (insert 0 (seq_of ` {e \<in> E. device_of e \<noteq> device}))"
proof (rule Max_eqI [symmetric])
  show "finite (insert 0 (seq_of ` {e \<in> E. device_of e \<noteq> device}))" using assms(2) by simp
  show "y \<le> HistoricalHeads_max_excluding h device" if "y \<in> insert 0 (seq_of ` {e \<in> E. device_of e \<noteq> device})" for y
    using that dev_max_ge [OF assms(2)] heads_repr_excluding(1) [OF assms(1)] by (auto intro: order_trans)
  show "HistoricalHeads_max_excluding h device \<in> insert 0 (seq_of ` {e \<in> E. device_of e \<noteq> device})"
  proof (cases "HistoricalHeads_max_excluding h device = 0")
    case False
    then obtain d where d: "d \<noteq> device" "dev_max E d = HistoricalHeads_max_excluding h device"
      using heads_repr_excluding(2) [OF assms(1)] by blast
    with False obtain e where "e \<in> E" "device_of e = d" "seq_of e = HistoricalHeads_max_excluding h device"
      using dev_max_attained [OF assms(2), of d] by auto
    with d(1) show ?thesis by (intro insertI2) (metis (mono_tags, lifting) image_eqI mem_Collect_eq)
  qed simp
qed

lemma heads_max:
  assumes "heads_repr h (dev_max E)" "finite E"
  shows "HistoricalHeads_max_admission_seq h = Max (insert 0 (seq_of ` E))"
proof (rule Max_eqI [symmetric])
  show "finite (insert 0 (seq_of ` E))" using assms(2) by simp
  show "y \<le> HistoricalHeads_max_admission_seq h" if "y \<in> insert 0 (seq_of ` E)" for y
    using that dev_max_ge [OF assms(2)] heads_repr_max(1) [OF assms(1)] by (auto intro: order_trans)
  obtain d where d: "dev_max E d = HistoricalHeads_max_admission_seq h" using heads_repr_max(2) [OF assms(1)] by blast
  then show "HistoricalHeads_max_admission_seq h \<in> insert 0 (seq_of ` E)"
    using dev_max_attained [OF assms(2), of d] by (cases "HistoricalHeads_max_admission_seq h = 0") force+
qed

lemma range_assert_failures_view:
  assumes "view_ok space st log" "log_ok log" "wf_id space" "\<forall>a \<in> set (ab_range_asserts b). wf_key (ra_prefix a)"
  shows "range_assert_failures space st device b = Inr (spec_failures log device b)"
proof -
  have actual: "\<exists>eh. effective_history space st (Prefix (ra_prefix a)) = Inr eh \<and>
      EffectiveHistory_max_excluding eh device = foreign_max log device (ra_prefix a)" if "wf_key (ra_prefix a)" for a
  proof -
    have w: "wf_range (Prefix (ra_prefix a))" using that by simp
    obtain eh where "effective_history space st (Prefix (ra_prefix a)) = Inr eh"
      and "heads_repr (eh_history eh) (dev_max {e \<in> set log. mutation_relevant (Prefix (ra_prefix a)) (mutation_of e)})"
      by (rule effective_history_view [OF assms(1-3) w])
    then show ?thesis
      using heads_excluding_max [of "eh_history eh"]
      by (simp add: EffectiveHistory_max_excluding_def foreign_max_def conj_assoc)
  qed
  let ?f = "\<lambda>failures a. rbind (effective_history space st (Prefix (ra_prefix a))) (\<lambda>effective.
         let actual = EffectiveHistory_max_excluding effective device in
         Inr (if actual > ra_upto a
              then failures @ [\<lparr>rf_prefix = ra_prefix a, rf_upto = ra_upto a, rf_actual = actual\<rparr>]
              else failures))"
  let ?g = "\<lambda>a. if foreign_max log device (ra_prefix a) > ra_upto a
      then [\<lparr>rf_prefix = ra_prefix a, rf_upto = ra_upto a, rf_actual = foreign_max log device (ra_prefix a)\<rparr>] else []"
  have "rfold ?f [] (ab_range_asserts b) = Inr ([] @ concat (map ?g (ab_range_asserts b)))"
  proof (rule rfold_collect)
    fix acc a
    assume "a \<in> set (ab_range_asserts b)"
    then have "wf_key (ra_prefix a)" using assms(4) by blast
    from actual [OF this] show "?f acc a = Inr (acc @ ?g a)" by (auto simp: Let_def)
  qed
  moreover have "concat (map ?g as) =
      map (\<lambda>a. \<lparr>rf_prefix = ra_prefix a, rf_upto = ra_upto a, rf_actual = foreign_max log device (ra_prefix a)\<rparr>)
       (filter (\<lambda>a. foreign_max log device (ra_prefix a) > ra_upto a) as)" for as
    by (induction as) auto
  ultimately show ?thesis by (simp add: range_assert_failures_def spec_failures_def)
qed

subsection \<open>Batches\<close>

definition entries_of :: "AdmittedBatch list \<Rightarrow> admitted list" where
  "entries_of bs = concat (map b_entries bs)"

definition batches_ok :: "AdmittedBatch list \<Rightarrow> bool" where
  "batches_ok bs \<longleftrightarrow> length bs < 2 ^ 64 \<and>
     (\<forall>i < length bs. unat (b_admission_seq (bs ! i)) = i + 1 \<and> dense_batch (bs ! i) \<and>
        wf_id (b_device (bs ! i)) \<and> wf_checksum (b_checksum (bs ! i))) \<and>
     log_ok (entries_of bs)"

definition spec_batch ::
  "(bytes \<Rightarrow> bytes) \<Rightarrow> SpaceId \<Rightarrow> AdmissionRequest \<Rightarrow> DeviceChecksum \<Rightarrow> admitted list \<Rightarrow>
   DeviceChecksum \<times> AdmittedBatch list \<Rightarrow> AdmissionBatch \<Rightarrow>
   (Error + AdmissionResponse) + (DeviceChecksum \<times> AdmittedBatch list)" where
  "spec_batch sha256 space req current log acc b =
     (let bs = snd acc; failures = spec_failures log (ar_device req) b; seq = of_nat (length bs) + 1;
          checksum = AdmissionBatch_checksum sha256 (fst acc) space (ar_device req) b
      in if failures \<noteq> []
         then Inl (Inr (failed_response (length (ar_batches req)) (RangeAssertFailed failures) current))
         else if length (ab_entries b) \<ge> 2 ^ 32
         then Inl (Inl (Kernel (InvalidSeal ''admission batch has too many entries'')))
         else rbind (map_err Inl (spec_entries (ar_device req) (ab_device_seq b) seq (entries_of bs) [] (enumerate 0 (ab_entries b))))
           (\<lambda>es. Inr (checksum, bs @ [\<lparr>b_admission_seq = seq, b_device = ar_device req, b_device_seq = ab_device_seq b,
              b_checksum = checksum, b_entries = es\<rparr>])))"

definition header_of :: "AdmittedBatch \<Rightarrow> AdmissionHeaderRecord" where
  "header_of b = \<lparr>ah_device = b_device b, ah_device_seq = b_device_seq b, ah_checksum = b_checksum b,
     ah_operation_count = of_nat (length (b_entries b))\<rparr>"

definition batch_puts :: "SpaceId \<Rightarrow> AdmittedBatch \<Rightarrow> WriteBatch" where
  "batch_puts space b = map (op_put space) (b_entries b) @
     [Put (skey_bytes space (KHeader (b_admission_seq b))) (AdmissionHeaderRecord_encode (header_of b))]"

lemma entries_of_simps [simp]:
  "entries_of [] = []" "entries_of (bs @ cs) = entries_of bs @ entries_of cs" "entries_of [b] = b_entries b"
  by (simp_all add: entries_of_def)

lemma entries_of_in:
  assumes "batches_ok bs" "x \<in> set (entries_of bs)"
  obtains i where "i < length bs" "x \<in> set (b_entries (bs ! i))" "unat (seq_of x) = i + 1" "device_of x = b_device (bs ! i)"
proof -
  from assms(2) obtain b where "b \<in> set bs" "x \<in> set (b_entries b)" by (auto simp: entries_of_def)
  then obtain i where i: "i < length bs" "b = bs ! i" by (auto simp: in_set_conv_nth)
  then have "dense_batch b" "unat (b_admission_seq b) = i + 1" using assms(1) by (auto simp: batches_ok_def)
  with \<open>x \<in> set (b_entries b)\<close> have "seq_of x = b_admission_seq b" "device_of x = b_device b"
    by (auto simp: dense_batch_def dense_entry_def in_set_conv_nth)
  with i that \<open>x \<in> set (b_entries b)\<close> \<open>unat (b_admission_seq b) = i + 1\<close> show ?thesis by metis
qed

lemma next_seq_unat: "length bs + 1 < 2 ^ 64 \<Longrightarrow> unat (of_nat (length bs) + 1 :: u64) = length bs + 1"
  using of_nat_add_u64 [of 1 "length bs"] by (simp add: add.commute)

lemma next_at_batch:
  assumes "batches_ok bs" "length bs + 1 < 2 ^ 64"
  shows "next_at (entries_of bs) (of_nat (length bs) + 1) 0 device"
proof -
  have s: "unat (of_nat (length bs) + 1 :: u64) = length bs + 1" by (rule next_seq_unat [OF assms(2)])
  have "seq_of x < of_nat (length bs) + 1" if "x \<in> set (entries_of bs)" for x
    by (rule entries_of_in [OF assms(1) that]) (use s in \<open>simp add: word_less_nat_alt\<close>)
  moreover have "(of_nat (length bs) + 1 :: u64) \<noteq> 0"
    using s by (metis add_is_0 one_neq_zero unat_0)
  ultimately show ?thesis by (simp add: next_at_def)
qed

lemma batches_ok_snoc:
  assumes "batches_ok bs" "length bs + 1 < 2 ^ 64" "length entries < 2 ^ 32" "wf_id device" "wf_checksum ck"
    and "\<forall>entry \<in> set entries. tagged device device_seq entry"
    and "seq = of_nat (length bs) + 1" "es = map (stamp seq) (enumerate 0 entries)" "log_ok (entries_of bs @ es)"
  shows "batches_ok (bs @ [\<lparr>b_admission_seq = seq, b_device = device, b_device_seq = device_seq, b_checksum = ck, b_entries = es\<rparr>])"
proof -
  let ?b = "\<lparr>b_admission_seq = seq, b_device = device, b_device_seq = device_seq, b_checksum = ck, b_entries = es\<rparr>"
  have "dense_entry ?b j (es ! j)" if "j < length es" for j
    using that assms(6,8) by (simp add: dense_entry_def nth_enumerate_eq tagged_def)
  then have "dense_batch ?b" using assms(3,8) by (simp add: dense_batch_def)
  then show ?thesis
    using assms next_seq_unat [OF assms(2)] by (auto simp: batches_ok_def nth_append less_Suc_eq)
qed

definition wf_client_batch :: "AdmissionBatch \<Rightarrow> bool" where
  "wf_client_batch b \<longleftrightarrow> (\<forall>entry \<in> set (ab_entries b). wf_entry entry) \<and> (\<forall>a \<in> set (ab_range_asserts b). wf_key (ra_prefix a))"

definition loop_inv :: "SpaceId \<Rightarrow> AdmittedBatch list \<Rightarrow> DeviceChecksum \<times> AdmittedBatch list \<Rightarrow> Admitting \<Rightarrow> bool" where
  "loop_inv space bs0 acc am \<longleftrightarrow> (\<exists>new. snd acc = bs0 @ new \<and> batches_ok (snd acc) \<and> am_checksum am = fst acc \<and>
     am_next_seq am = of_nat (length (snd acc)) + 1 \<and> am_results am = map (Applied \<circ> b_admission_seq) new \<and>
     am_batch am = concat (map (batch_puts space) new) \<and> staged_ok space (entries_of bs0) (entries_of new) am)"

lemma staged_ok_cong:
  assumes "staged_ok space log es am" "am_staged am' = am_staged am" "am_ranges am' = am_ranges am" "am_events am' = am_events am"
    "am_aggregates am' = am_aggregates am"
  shows "staged_ok space log es am'"
  using assms unfolding staged_ok_def by simp

lemma admit_batch_step:
  assumes view: "view_ok space st (entries_of bs0)" "log_ok (entries_of bs0)" "wf_id space"
    and dev: "wf_id (ar_device req)" and sha: "\<forall>x. length (sha256 x) = 32"
    and b: "wf_client_batch b" and inv: "loop_inv space bs0 acc am"
    and small: "length (snd acc) + 1 < 2 ^ 64" "length (entries_of (snd acc)) + length (ab_entries b) < 2 ^ 64"
  shows "case spec_batch sha256 space req current (entries_of bs0) acc b of
      Inl early \<Rightarrow> admit_batch sha256 space st req current am b = Inl early
    | Inr acc' \<Rightarrow> length (snd acc') = length (snd acc) + 1 \<and>
        length (entries_of (snd acc')) = length (entries_of (snd acc)) + length (ab_entries b) \<and>
        (\<exists>am'. admit_batch sha256 space st req current am b = Inr am' \<and> loop_inv space bs0 acc' am')"
proof -
  obtain ck bs where acc: "acc = (ck, bs)" by (cases acc)
  from inv acc obtain new where new: "bs = bs0 @ new" and ok: "batches_ok bs" and am: "am_checksum am = ck"
    "am_next_seq am = of_nat (length bs) + 1" "am_results am = map (Applied \<circ> b_admission_seq) new"
    "am_batch am = concat (map (batch_puts space) new)" and st: "staged_ok space (entries_of bs0) (entries_of new) am"
    unfolding loop_inv_def by auto
  let ?log = "entries_of bs0" and ?seq = "of_nat (length bs) + 1 :: u64" and ?d = "ar_device req"
  let ?ck = "AdmissionBatch_checksum sha256 ck space ?d b"
  have ra: "range_assert_failures space st ?d b = Inr (spec_failures ?log ?d b)"
    using b by (intro range_assert_failures_view [OF view]) (simp add: wf_client_batch_def)
  let ?am = "am\<lparr>am_checksum := ?ck, am_results := am_results am @ [Applied ?seq], am_next_seq := ?seq + 1\<rparr>"
  have st1: "staged_ok space ?log (entries_of new) ?am" by (rule staged_ok_cong [OF st]) simp_all
  have lg: "log_ok (?log @ entries_of new)" using ok new by (simp add: batches_ok_def)
  have nx: "next_at (?log @ entries_of new) ?seq 0 ?d" using next_at_batch [OF ok, of ?d] small(1) acc new by simp
  have sm: "length (?log @ entries_of new) + length (ab_entries b) < 2 ^ 64" using small(2) acc new by simp
  have we: "\<forall>entry \<in> set (ab_entries b). wf_entry entry" using b by (simp add: wf_client_batch_def)
  note step = admit_entries_step [OF view dev we st1 lg nx sm, of "ab_device_seq b"]
  have shift: "spec_entries ?d (ab_device_seq b) ?seq ?log (entries_of new) (enumerate 0 (ab_entries b)) =
      rbind (spec_entries ?d (ab_device_seq b) ?seq (entries_of bs) [] (enumerate 0 (ab_entries b))) (\<lambda>es. Inr (entries_of new @ es))"
    using spec_entries_shift [of ?d "ab_device_seq b" ?seq ?log "entries_of new" "[]"] new by simp
  show ?thesis
  proof (cases "spec_failures ?log ?d b \<noteq> [] \<or> length (ab_entries b) \<ge> 2 ^ 32")
    case True
    then show ?thesis using ra acc by (auto simp: spec_batch_def admit_batch_def Let_def)
  next
    case False
    then have nf: "spec_failures ?log ?d b = []" and len: "length (ab_entries b) < 2 ^ 32" by (simp_all add: not_le)
    show ?thesis
    proof (cases "spec_entries ?d (ab_device_seq b) ?seq (entries_of bs) [] (enumerate 0 (ab_entries b))")
      case (Inl err)
      with step shift have "rfold (admit_entry space st ?d (ab_device_seq b) ?seq) ?am (enumerate 0 (ab_entries b)) = Inl err"
        by simp
      with Inl nf len ra acc am show ?thesis by (simp add: spec_batch_def admit_batch_def Let_def not_le)
    next
      case (Inr es)
      let ?b = "\<lparr>b_admission_seq = ?seq, b_device = ?d, b_device_seq = ab_device_seq b, b_checksum = ?ck, b_entries = es\<rparr>"
      from step shift Inr obtain am' where
        es: "es = map (stamp ?seq) (enumerate 0 (ab_entries b))" and lg': "log_ok (?log @ entries_of new @ es)"
        and tg: "\<forall>entry \<in> set (ab_entries b). tagged ?d (ab_device_seq b) entry"
        and run: "rfold (admit_entry space st ?d (ab_device_seq b) ?seq) ?am (enumerate 0 (ab_entries b)) = Inr am'"
        and am': "staged_ok space ?log (entries_of new @ es) am'" "am_batch am' = am_batch am @ map (op_put space) es"
          "am_checksum am' = ?ck" "am_next_seq am' = ?seq + 1" "am_results am' = am_results am @ [Applied ?seq]"
        by auto
      let ?am' = "am'\<lparr>am_batch := am_batch am' @ [Put (skey_bytes space (KHeader ?seq)) (AdmissionHeaderRecord_encode (header_of ?b))]\<rparr>"
      have code: "admit_batch sha256 space st req current am b = Inr ?am'"
        using nf len ra am run es
        by (simp add: admit_batch_def Let_def not_le WriteBatch_put_def skey_bytes_eqs header_of_def)
      have wck: "wf_checksum ?ck" by (simp add: wf_checksum_def AdmissionBatch_checksum_def sha)
      have "batches_ok (bs @ [?b])"
        by (rule batches_ok_snoc [OF ok _ len dev wck tg refl es]) (use small(1) acc lg' new in simp_all)
      moreover have "staged_ok space ?log (entries_of (new @ [?b])) ?am'"
        by (rule staged_ok_cong [OF am'(1), THEN subst [of _ _ "\<lambda>es. staged_ok space ?log es ?am'", rotated]]) simp_all
      ultimately have "loop_inv space bs0 (?ck, bs @ [?b]) ?am'"
        unfolding loop_inv_def using am am' new
        by (intro exI [of _ "new @ [?b]"]) (simp add: batch_puts_def add.commute add.left_commute)
      with Inr nf len acc code es show ?thesis by (simp add: spec_batch_def Let_def not_le)
    qed
  qed
qed

end
