(* ===== verification/Admit.thy ===== *)
theory Admit
  imports AdmitLoop
begin

text \<open>
  Admission as a whole.  \<open>data_repr space st bs\<close>: the store holds the admitted batches \<open>bs\<close> of the
  space, that is, the log records, the materialized view, the device heads and the high water.
  \<open>spec_admit\<close> computes the answer and the new batches from \<open>bs\<close> and the lease table alone;
  \<open>admit_outcome\<close> shows that the code returns that answer and leaves a store representing the new
  batches, whatever the request, so none of its panics is reachable.
\<close>

subsection \<open>Representation\<close>

definition batch_cells :: "AdmittedBatch \<Rightarrow> (skey \<times> bytes) list" where
  "batch_cells b = map (\<lambda>e. (op_skey e, op_bytes e)) (b_entries b) @
     [(KHeader (b_admission_seq b), AdmissionHeaderRecord_encode (header_of b))]"

definition log_cells :: "AdmittedBatch list \<Rightarrow> (skey \<times> bytes) list" where
  "log_cells bs = concat (map batch_cells bs)"

definition log_keys :: "skey set" where
  "log_keys = {s. (\<exists>seq. s = KHeader seq) \<or> (\<exists>seq i t. s = KOp seq i t)}"

definition device_state :: "AdmittedBatch list \<Rightarrow> DeviceId \<Rightarrow> DeviceSeq \<times> DeviceChecksum" where
  "device_state bs d = (case find (\<lambda>b. b_device b = d) (rev bs) of
     None \<Rightarrow> (0, DeviceChecksum_EMPTY) | Some b \<Rightarrow> (b_device_seq b, b_checksum b))"

definition device_pair :: "DeviceRecord option \<Rightarrow> DeviceSeq \<times> DeviceChecksum" where
  "device_pair r = (case r of None \<Rightarrow> (0, DeviceChecksum_EMPTY) | Some rec \<Rightarrow> (dr_last_seq rec, dr_checksum rec))"

definition data_repr :: "SpaceId \<Rightarrow> MemoryStore \<Rightarrow> AdmittedBatch list \<Rightarrow> bool" where
  "data_repr space st bs \<longleftrightarrow> bt_wf st \<and> keys_ok space st \<and> batches_ok bs \<and> view_ok space st (entries_of bs) \<and>
     (\<forall>s \<in> log_keys. wf_skey s \<longrightarrow> sget space st s = map_of (rev (log_cells bs)) s) \<and>
     (\<forall>d. wf_id d \<longrightarrow> (\<exists>r. sget space st (KDevice d) = map_option DeviceRecord_encode r \<and> pred_option valid_device r \<and>
        device_pair r = device_state bs d)) \<and>
     (\<exists>n. counters space st = Inr \<lparr>next_lease_id = n, admission_high_water = of_nat (length bs)\<rparr>)"

lemma data_reprD:
  assumes "data_repr space st bs"
  shows "bt_wf st" "keys_ok space st" "batches_ok bs" "view_ok space st (entries_of bs)" "log_ok (entries_of bs)"
    and "s \<in> log_keys \<Longrightarrow> wf_skey s \<Longrightarrow> sget space st s = map_of (rev (log_cells bs)) s"
    and "wf_id d \<Longrightarrow> \<exists>r. sget space st (KDevice d) = map_option DeviceRecord_encode r \<and> pred_option valid_device r \<and>
        device_pair r = device_state bs d"
    and "\<exists>n. counters space st = Inr \<lparr>next_lease_id = n, admission_high_water = of_nat (length bs)\<rparr>"
  using assms unfolding data_repr_def batches_ok_def by blast+

lemma log_cells_append [simp]: "log_cells (bs @ cs) = log_cells bs @ log_cells cs"
  by (simp add: log_cells_def)

lemma device_record_view:
  assumes "data_repr space st bs" "wf_id d"
  obtains r where "device_record space st d = Inr r" "device_pair r = device_state bs d"
proof -
  obtain r where r: "sget space st (KDevice d) = map_option DeviceRecord_encode r" "pred_option valid_device r"
    "device_pair r = device_state bs d" using data_reprD(7) [OF assms] by blast
  then have "device_record space st d = Inr r"
    using device.read_back [OF r(2)] by (simp add: device_record_def sget_def skey_bytes_eqs)
  with r that show ?thesis by blast
qed

subsection \<open>Writes by record identity\<close>

definition cell_put :: "SpaceId \<Rightarrow> skey \<times> bytes \<Rightarrow> Op" where
  "cell_put space c = Put (skey_bytes space (fst c)) (snd c)"

lemma batch_puts_cells: "concat (map (batch_puts space) bs) = map (cell_put space) (log_cells bs)"
proof -
  have "batch_puts space b = map (cell_put space) (batch_cells b)" for b
    by (simp add: batch_puts_def batch_cells_def cell_put_def op_put_def)
  then have "batch_puts space = (\<lambda>b. map (cell_put space) (batch_cells b))" by blast
  then show ?thesis by (simp add: log_cells_def map_concat comp_def)
qed

lemma batch_value_cells:
  assumes "\<forall>c \<in> set cs. wf_skey (fst c)" "wf_skey s"
  shows "batch_value (map (cell_put space) cs) (skey_bytes space s) v = (case map_of (rev cs) s of Some x \<Rightarrow> Some x | None \<Rightarrow> v)"
  using assms(1)
proof (induction cs rule: rev_induct)
  case (snoc c cs)
  then show ?case
    using assms(2) by (cases c) (auto simp: cell_put_def skey_bytes_inject)
qed simp

lemma cells_within:
  "\<forall>c \<in> set cs. wf_skey (fst c) \<and> fst c \<in> K \<Longrightarrow> batch_within space K (map (cell_put space) cs)"
  by (auto simp: batch_within_def cell_put_def)

lemma wf_op_skey: "wf_mutation (mutation_of e) \<Longrightarrow> wf_skey (op_skey e)"
  by (cases "mutation_of e") (simp_all add: op_skey_def)

lemma wf_log_cells:
  assumes "log_ok (entries_of bs)" "c \<in> set (log_cells bs)"
  shows "wf_skey (fst c)" "fst c \<in> log_keys"
proof -
  from assms(2) obtain b where b: "b \<in> set bs" "c \<in> set (batch_cells b)" by (auto simp: log_cells_def)
  have "wf_mutation (mutation_of e)" if "e \<in> set (b_entries b)" for e
    using that b(1) log_ok_valid(2) [OF assms(1)] by (auto simp: entries_of_def)
  with b(2) show "wf_skey (fst c)" by (auto simp: batch_cells_def wf_op_skey)
  from b(2) show "fst c \<in> log_keys" by (auto simp: batch_cells_def log_keys_def op_skey_def)
qed

subsection \<open>The final batch\<close>

definition data_cells :: "Admitting \<Rightarrow> (skey \<times> bytes) list" where
  "data_cells am = map (\<lambda>(k, e). (KData k, data_bytes e)) (am_staged am)"

definition range_cells :: "Admitting \<Rightarrow> (skey \<times> bytes) list" where
  "range_cells am = map (\<lambda>(r, rec). (KRangeDelete r, tombstone_bytes rec)) (am_ranges am)"

definition agg_cells :: "(bytes \<Rightarrow> Range) \<Rightarrow> Admitting \<Rightarrow> (skey \<times> bytes) list" where
  "agg_cells node am = map (\<lambda>(k, rec). (node_key (node k), PrefixMetaRecord_encode rec)) (am_aggregates am)"

definition head_cells :: "DeviceId \<Rightarrow> DeviceSeq \<Rightarrow> CountersRecord \<Rightarrow> Admitting \<Rightarrow> (skey \<times> bytes) list" where
  "head_cells device last_seq c am =
     [(KDevice device, DeviceRecord_encode \<lparr>dr_last_seq = last_seq, dr_checksum = am_checksum am\<rparr>),
      (KCounters, CountersRecord_encode (c\<lparr>admission_high_water := am_next_seq am - 1\<rparr>))]"

lemma rfold_puts:
  assumes "\<And>x. x \<in> set xs \<Longrightarrow> enc x = Inr (val x)"
  shows "rfold (\<lambda>batch x. rbind (enc x) (\<lambda>bs. Inr (WriteBatch_put (key x) bs batch))) batch xs =
    Inr (batch @ map (\<lambda>x. Put (key x) (val x)) xs)"
  using assms by (induction xs arbitrary: batch) (auto simp: WriteBatch_put_def)

lemma foldl_puts: "foldl (\<lambda>batch x. WriteBatch_put (key x) (val x) batch) batch xs = batch @ map (\<lambda>x. Put (key x) (val x)) xs"
  by (induction xs arbitrary: batch) (auto simp: WriteBatch_put_def)

lemma aggregate_nodes:
  assumes "aggs_ok space log es A"
  obtains node where "\<forall>k \<in> fst ` set A. wf_range (node k) \<and> k = node_bytes space (node k)"
proof -
  have "\<forall>k \<in> fst ` set A. \<exists>n. wf_range n \<and> k = node_bytes space n"
    using assms unfolding aggs_ok_def by blast
  from bchoice [OF this] that show ?thesis by blast
qed

lemma admit_commit_cells:
  assumes "staged_ok space log es am" "am_batch am = map (cell_put space) L"
    and node: "\<forall>k \<in> fst ` set (am_aggregates am). wf_range (node k) \<and> k = node_bytes space (node k)"
  shows "admit_commit space device last_seq c am =
    Inr (map (cell_put space) (L @ data_cells am @ range_cells am @ agg_cells node am @ head_cells device last_seq c am))"
proof -
  note D = staged_okD [OF assms(1)]
  have staged: "DataRecord_encode e = Inr (data_bytes e)" if "(k, e) \<in> set (am_staged am)" for k e
  proof -
    have "bt_get (am_staged am) k = Some e" using that by (simp add: bt_get_Some [OF D(2)])
    then have "last_point es k = Some e" using D(3) by simp
    then show ?thesis using last_point_Some DataRecord_encode_point by blast
  qed
  have ranges: "RangeDeleteRecord_encode rec = Inr (tombstone_bytes rec)" if "(r, rec) \<in> set (am_ranges am)" for r rec
  proof -
    have "bt_get (am_ranges am) r = Some rec" using that by (simp add: bt_get_Some [OF D(4)])
    then have "tomb_ok (log @ es) r rec" using D(6) by blast
    then have "last_range (log @ es) r = Some (rd_entry rec)" by (simp add: tomb_ok_def Let_def)
    then show ?thesis using last_range_Some RangeDeleteRecord_encode_ok by blast
  qed
  have 1: "rfold (\<lambda>batch (key, rec). rbind (DataRecord_encode rec) (\<lambda>bs. Inr (WriteBatch_put (data_key space key) bs batch)))
      batch (am_staged am) = Inr (batch @ map (cell_put space) (data_cells am))" for batch
    using rfold_puts [of "am_staged am" "\<lambda>x. DataRecord_encode (snd x)" "\<lambda>x. data_bytes (snd x)" "\<lambda>x. data_key space (fst x)" batch]
      staged [OF prod.collapse [THEN ssubst [of _ _ "\<lambda>x. x \<in> set (am_staged am)"]]]
    by (simp add: case_prod_unfold data_cells_def cell_put_def skey_bytes_eqs comp_def)
  have 2: "rfold (\<lambda>batch (rng, rec). rbind (RangeDeleteRecord_encode rec) (\<lambda>bs. Inr (WriteBatch_put (range_delete_key space rng) bs batch)))
      batch (am_ranges am) = Inr (batch @ map (cell_put space) (range_cells am))" for batch
    using rfold_puts [of "am_ranges am" "\<lambda>x. RangeDeleteRecord_encode (snd x)" "\<lambda>x. tombstone_bytes (snd x)" "\<lambda>x. range_delete_key space (fst x)" batch]
      ranges [OF prod.collapse [THEN ssubst [of _ _ "\<lambda>x. x \<in> set (am_ranges am)"]]]
    by (simp add: case_prod_unfold range_cells_def cell_put_def skey_bytes_eqs comp_def)
  have "Put (fst x) (PrefixMetaRecord_encode (snd x)) =
      cell_put space (node_key (node (fst x)), PrefixMetaRecord_encode (snd x))" if "x \<in> set (am_aggregates am)" for x
  proof -
    have "fst x = node_bytes space (node (fst x))" using node that by blast
    then show ?thesis unfolding cell_put_def fst_conv snd_conv node_bytes_def [symmetric] by simp
  qed
  then have 3: "foldl (\<lambda>batch (meta_key, rec). WriteBatch_put meta_key (PrefixMetaRecord_encode rec) batch) batch (am_aggregates am) =
      batch @ map (cell_put space) (agg_cells node am)" for batch
    using foldl_puts [of fst "\<lambda>x. PrefixMetaRecord_encode (snd x)" batch "am_aggregates am"]
    by (simp add: case_prod_unfold agg_cells_def comp_def)
  show ?thesis
    unfolding admit_commit_def 1 2 rbind.simps Let_def 3 assms(2)
    by (simp add: WriteBatch_put_def head_cells_def cell_put_def skey_bytes_eqs)
qed

lemma map_of_rev:
  assumes "distinct (map fst xs)"
  shows "map_of (rev xs) = map_of xs"
proof -
  have "distinct (map fst (rev xs))" using assms by (simp add: rev_map [symmetric])
  with assms show ?thesis by (subst map_of_inject_set) simp_all
qed

lemma map_of_cells:
  assumes "bt_wf t" "\<And>a b. f a = f b \<Longrightarrow> a = b"
  shows "map_of (rev (map (\<lambda>(a, r). (f a, g r)) t)) (f a) = map_option g (bt_get t a)"
proof -
  have "inj_on f (set (map fst t))" using assms(2) by (intro inj_onI) blast
  moreover have "distinct (map fst t)" using assms(1) by (simp add: bt_wf_def sorted_wrt_less_distinct)
  ultimately have "distinct (map f (map fst t))" by (simp only: distinct_map simp_thms)
  then have d: "distinct (map fst (map (\<lambda>(a, r). (f a, g r)) t))" by (simp add: comp_def case_prod_beta)
  have "map_of (map (\<lambda>(a, r). (f a, g r)) t) (f a) = map_option g (map_of t a)"
    using assms(2) by (induction t) auto
  then show ?thesis unfolding map_of_rev [OF d] by (simp add: bt_get_def)
qed

lemma map_of_absent: "s \<notin> fst ` set cs \<Longrightarrow> map_of (rev cs) s = None"
  by (simp add: map_of_eq_None_iff)

subsection \<open>The store after the commit\<close>

definition commit_cells ::
  "(bytes \<Rightarrow> Range) \<Rightarrow> AdmittedBatch list \<Rightarrow> DeviceId \<Rightarrow> DeviceSeq \<Rightarrow> CountersRecord \<Rightarrow> Admitting \<Rightarrow> (skey \<times> bytes) list" where
  "commit_cells node new device last_seq c am =
     log_cells new @ data_cells am @ range_cells am @ agg_cells node am @ head_cells device last_seq c am"

lemmas cell_defs = data_cells_def range_cells_def agg_cells_def head_cells_def

lemma node_key_kinds:
  "node_key n \<noteq> KData k" "node_key n \<noteq> KRangeDelete r" "node_key n \<noteq> KDevice d" "node_key n \<noteq> KCounters" "node_key n \<notin> log_keys"
  "node_key n \<notin> lease_keys"
  by (cases n; simp add: log_keys_def lease_keys_def)+

lemma log_key_kinds:
  "s \<in> log_keys \<Longrightarrow> s \<noteq> KData k \<and> s \<noteq> KRangeDelete r \<and> s \<noteq> KDevice d \<and> s \<noteq> KCounters \<and> s \<noteq> node_key n \<and> s \<notin> lease_keys"
  by (cases n) (auto simp: log_keys_def lease_keys_def)

lemma map_of_append_rev: "map_of (rev (xs @ ys)) s = (case map_of (rev ys) s of Some x \<Rightarrow> Some x | None \<Rightarrow> map_of (rev xs) s)"
  by (simp add: map_add_def)

lemma wf_staged_cells:
  assumes st: "staged_ok space log es am" and lg: "log_ok (log @ es)" and dev: "wf_id device"
    and node: "\<forall>k \<in> fst ` set (am_aggregates am). wf_range (node k) \<and> k = node_bytes space (node k)"
    and c: "cell \<in> set (data_cells am @ range_cells am @ agg_cells node am @ head_cells device last_seq c am)"
  shows "wf_skey (fst cell)" and "fst cell \<notin> lease_keys"
proof -
  note D = staged_okD [OF st]
  have k: "wf_key k" if "(k, e) \<in> set (am_staged am)" for k e
  proof -
    have "bt_get (am_staged am) k = Some e" using that by (simp add: bt_get_Some [OF D(2)])
    then have "e \<in> set es" "point_key (mutation_of e) = Some k" using D(3) last_point_Some [of es k e] by auto
    with log_ok_valid(2) [OF lg, of e] show ?thesis by (cases "mutation_of e") auto
  qed
  have r: "wf_range r" if "(r, rec) \<in> set (am_ranges am)" for r rec
  proof -
    have "bt_get (am_ranges am) r = Some rec" using that by (simp add: bt_get_Some [OF D(4)])
    then obtain e where "last_range es r = Some e" using D(6) by blast
    then have "e \<in> set es" "mutation_of e = DeleteRange r" using last_range_Some by blast+
    with log_ok_valid(2) [OF lg, of e] show ?thesis by simp
  qed
  have n: "wf_range (node k)" if "(k, rec) \<in> set (am_aggregates am)" for k rec
    using bspec [OF node, of k] that by force
  from c k r n dev show "wf_skey (fst cell)" by (auto simp: cell_defs)
  from c show "fst cell \<notin> lease_keys" by (auto simp: cell_defs node_key_kinds) (auto simp: lease_keys_def)
qed

lemma commit_lookup:
  assumes st: "staged_ok space (entries_of bs0) (entries_of new) am" and new: "log_ok (entries_of new)"
    and node: "\<forall>k \<in> fst ` set (am_aggregates am). wf_range (node k) \<and> k = node_bytes space (node k)"
    and C_def: "C = commit_cells node new device last_seq c am"
  shows "map_of (rev C) (KData k) = map_option data_bytes (last_point (entries_of new) k)"
    and "map_of (rev C) (KRangeDelete r) = map_option tombstone_bytes (bt_get (am_ranges am) r)"
    and "wf_range n \<Longrightarrow> map_of (rev C) (node_key n) = map_option PrefixMetaRecord_encode (bt_get (am_aggregates am) (node_bytes space n))"
    and "map_of (rev C) (KDevice d) = (if d = device then Some (DeviceRecord_encode \<lparr>dr_last_seq = last_seq, dr_checksum = am_checksum am\<rparr>) else None)"
    and "map_of (rev C) KCounters = Some (CountersRecord_encode (c\<lparr>admission_high_water := am_next_seq am - 1\<rparr>))"
    and "s \<in> log_keys \<Longrightarrow> map_of (rev C) s = map_of (rev (log_cells new)) s"
proof -
  note D = staged_okD [OF st]
  have wfA: "bt_wf (am_aggregates am)" using D(5) by (simp add: aggs_ok_def)
  have lk: "fst x \<in> log_keys" if "x \<in> set (log_cells new)" for x using wf_log_cells(2) [OF new that] .
  have absent: "map_of (rev (log_cells new)) s = None" if "s \<notin> log_keys" for s
    using lk that by (intro map_of_absent) blast
  have dk: "map_of (rev (data_cells am)) s = None" if "\<forall>k. s \<noteq> KData k" for s
    using that by (intro map_of_absent) (auto simp: data_cells_def)
  have rk: "map_of (rev (range_cells am)) s = None" if "\<forall>r. s \<noteq> KRangeDelete r" for s
    using that by (intro map_of_absent) (auto simp: range_cells_def)
  have ak: "map_of (rev (agg_cells node am)) s = None" if "\<forall>n. s \<noteq> node_key n" for s
    using that by (intro map_of_absent) (auto simp: agg_cells_def)
  have hk: "map_of (rev (head_cells device last_seq c am)) s = None" if "s \<noteq> KDevice device" "s \<noteq> KCounters" for s
    using that by (intro map_of_absent) (auto simp: head_cells_def)
  note parts = C_def commit_cells_def map_of_append_rev
  show "map_of (rev C) (KData k) = map_option data_bytes (last_point (entries_of new) k)"
  proof -
    have "map_of (rev (data_cells am)) (KData k) = map_option data_bytes (last_point (entries_of new) k)"
      using map_of_cells [OF D(2), of KData data_bytes k] by (simp add: data_cells_def D(3))
    then show ?thesis
      unfolding parts by (simp add: absent rk ak hk node_key_kinds(1-4) [symmetric] log_keys_def split: option.split)
  qed
  show "map_of (rev C) (KRangeDelete r) = map_option tombstone_bytes (bt_get (am_ranges am) r)"
  proof -
    have "map_of (rev (range_cells am)) (KRangeDelete r) = map_option tombstone_bytes (bt_get (am_ranges am) r)"
      using map_of_cells [OF D(4), of KRangeDelete tombstone_bytes r] by (simp add: range_cells_def)
    then show ?thesis
      unfolding parts by (simp add: absent dk ak hk node_key_kinds(1-4) [symmetric] log_keys_def split: option.split)
  qed
  show "map_of (rev C) (node_key n) = map_option PrefixMetaRecord_encode (bt_get (am_aggregates am) (node_bytes space n))"
    if n: "wf_range n"
  proof -
    have inj: "a = b" if "a \<in> fst ` set (am_aggregates am)" "b \<in> fst ` set (am_aggregates am)" "node a = node b" for a b
    proof -
      have "a = node_bytes space (node a)" using node that(1) by blast
      also have "\<dots> = node_bytes space (node b)" by (simp only: that(3))
      also have "\<dots> = b" using node that(2) by (metis (no_types))
      finally show ?thesis .
    qed
    have "distinct (map fst (am_aggregates am))" using wfA by (simp add: bt_wf_def sorted_wrt_less_distinct)
    moreover have "inj_on (\<lambda>k. node_key (node k)) (set (map fst (am_aggregates am)))"
      using inj by (intro inj_onI) simp
    ultimately have "distinct (map (\<lambda>k. node_key (node k)) (map fst (am_aggregates am)))"
      by (simp only: distinct_map simp_thms)
    then have d: "distinct (map fst (agg_cells node am))" by (simp add: agg_cells_def comp_def case_prod_unfold)
    have eq: "node k = n \<longleftrightarrow> k = node_bytes space n" if "k \<in> fst ` set (am_aggregates am)" for k
      using bspec [OF node that] node_bytes_inject [OF _ n] by metis
    have "map_of (map (\<lambda>(k, rec). (node_key (node k), PrefixMetaRecord_encode rec)) A) (node_key n) =
        map_option PrefixMetaRecord_encode (map_of A (node_bytes space n))" if "set A \<subseteq> set (am_aggregates am)" for A
      using that
    proof (induction A)
      case (Cons x A)
      then have "node (fst x) = n \<longleftrightarrow> fst x = node_bytes space n" by (intro eq) auto
      with Cons show ?case by (cases x) auto
    qed simp
    then have "map_of (rev (agg_cells node am)) (node_key n) =
        map_option PrefixMetaRecord_encode (bt_get (am_aggregates am) (node_bytes space n))"
      unfolding map_of_rev [OF d] by (simp add: agg_cells_def bt_get_def)
    then show ?thesis
      unfolding parts using absent [OF node_key_kinds(5)] dk [of "node_key n"] rk [of "node_key n"]
        hk [OF node_key_kinds(3,4)] by (simp add: node_key_kinds split: option.split)
  qed
  show "map_of (rev C) (KDevice d) = (if d = device then Some (DeviceRecord_encode \<lparr>dr_last_seq = last_seq, dr_checksum = am_checksum am\<rparr>) else None)"
    unfolding parts by (simp add: absent dk rk ak node_key_kinds(1-4) [symmetric] log_keys_def head_cells_def)
  show "map_of (rev C) KCounters = Some (CountersRecord_encode (c\<lparr>admission_high_water := am_next_seq am - 1\<rparr>))"
    unfolding parts by (simp add: head_cells_def)
  show "map_of (rev C) s = map_of (rev (log_cells new)) s" if "s \<in> log_keys"
    unfolding parts using log_key_kinds [OF that] by (simp add: dk rk ak hk)
qed

lemma device_state_new:
  assumes "\<forall>b \<in> set new. b_device b = device" "d \<noteq> device"
  shows "device_state (bs @ new) d = device_state bs d"
proof -
  have "find (\<lambda>b. b_device b = d) (rev new @ xs) = find (\<lambda>b. b_device b = d) xs" for xs
    using assms by (induction new arbitrary: xs rule: rev_induct) auto
  then show ?thesis by (simp add: device_state_def)
qed

lemma commit_repr:
  assumes R: "data_repr space st bs0" and st: "staged_ok space (entries_of bs0) (entries_of new) am"
    and ok: "batches_ok (bs0 @ new)" and new: "log_ok (entries_of new)" and dev: "wf_id device" "wf_checksum (am_checksum am)"
    and c: "counters space st = Inr c" and nx: "am_next_seq am = of_nat (length (bs0 @ new)) + 1"
    and head: "device_state (bs0 @ new) device = (last_seq, am_checksum am)" and one: "\<forall>b \<in> set new. b_device b = device"
    and node: "\<forall>k \<in> fst ` set (am_aggregates am). wf_range (node k) \<and> k = node_bytes space (node k)"
    and st': "st' = MemoryStore_apply (map (cell_put space) (commit_cells node new device last_seq c am)) st"
  shows "data_repr space st' (bs0 @ new)"
    and "batch_within space (- lease_keys) (map (cell_put space) (commit_cells node new device last_seq c am))"
    and "counters space st' = Inr (c\<lparr>admission_high_water := of_nat (length (bs0 @ new))\<rparr>)"
proof -
  let ?C = "commit_cells node new device last_seq c am" and ?log = "entries_of (bs0 @ new)"
  note D = data_reprD [OF R] and S = staged_okD [OF st]
  note L = commit_lookup [OF st new node refl [of ?C]]
  have lg: "log_ok (entries_of bs0 @ entries_of new)" using ok by (simp add: batches_ok_def)
  have wf: "wf_skey (fst x)" "fst x \<notin> lease_keys" if "x \<in> set ?C" for x
    using that wf_log_cells [OF new, of x] wf_staged_cells [OF st lg dev(1) node, of x last_seq c]
      log_key_kinds [of "fst x"] unfolding commit_cells_def by auto
  show within: "batch_within space (- lease_keys) (map (cell_put space) ?C)"
    by (rule cells_within) (use wf in auto)
  have get: "sget space st' s = (case map_of (rev ?C) s of Some x \<Rightarrow> Some x | None \<Rightarrow> sget space st s)" if "wf_skey s" for s
    unfolding st' sget_apply [OF D(1)] using batch_value_cells [of ?C s space] wf(1) that by blast
  have cnt: "counters space st' = Inr (c\<lparr>admission_high_water := am_next_seq am - 1\<rparr>)"
    using get [of KCounters] L(5) by (simp add: counters_def sget_def skey_bytes_eqs read_with_def counters.decode_encode)
  then show cnt': "counters space st' = Inr (c\<lparr>admission_high_water := of_nat (length (bs0 @ new))\<rparr>)"
    using nx by (simp add: add_diff_eq)
  have view: "view_ok space st' ?log"
    unfolding view_ok_def
  proof (intro conjI allI impI)
    show "sget space st' (KData k) = map_option data_bytes (last_point ?log k)" if "wf_key k" for k
      using that get [of "KData k"] L(1) [of k] view_okD(1) [OF D(4) that]
      by (cases "last_point (entries_of new) k") (simp_all add: last_point_append sget_def skey_bytes_eqs)
    show "case last_range ?log r of None \<Rightarrow> sget space st' (KRangeDelete r) = None
        | Some _ \<Rightarrow> \<exists>rec. tomb_ok ?log r rec \<and> sget space st' (KRangeDelete r) = Some (tombstone_bytes rec)" if r: "wf_range r" for r
    proof (cases "bt_get (am_ranges am) r")
      case (Some rec)
      then have "last_range (entries_of new) r \<noteq> None" "tomb_ok ?log r rec" using S(6) by auto
      with Some r get [of "KRangeDelete r"] L(2) [of r] show ?thesis by (auto simp: last_range_append split: option.split)
    next
      case None
      then have n: "last_range (entries_of new) r = None" by (rule S(7))
      have g: "sget space st' (KRangeDelete r) = sget space st (KRangeDelete r)"
        using None r get [of "KRangeDelete r"] L(2) [of r] by simp
      have "tomb_ok ?log r rec \<longleftrightarrow> tomb_ok (entries_of bs0) r rec" for rec
        using n by (simp add: tomb_ok_others last_range_None)
      with n g view_okD(2,3) [OF D(4) r] show ?thesis
        by (auto simp: last_range_append sget_def skey_bytes_eqs split: option.split)
    qed
    show "\<exists>rec. agg_ok ?log n rec \<and> (sget space st' (node_key n) = Some (PrefixMetaRecord_encode rec) \<or>
        sget space st' (node_key n) = None \<and> rec = PrefixMetaRecord_empty)" if n: "wf_range n" for n
    proof (cases "bt_get (am_aggregates am) (node_bytes space n)")
      case (Some rec)
      then show ?thesis using aggs_okD(1) [OF S(5) n Some] get [of "node_key n"] L(3) [OF n] n by auto
    next
      case None
      obtain rec where rec: "agg_ok (entries_of bs0) n rec" "sget space st (node_key n) = Some (PrefixMetaRecord_encode rec) \<or>
          sget space st (node_key n) = None \<and> rec = PrefixMetaRecord_empty" using view_okD(4) [OF D(4) n] by blast
      have "agg_ok (entries_of bs0 @ entries_of new) n rec"
        by (rule agg_ok_untouched_all [OF rec(1) log_ok_valid(3) [OF lg] aggs_okD(2) [OF S(5) n None]])
      moreover have "sget space st' (node_key n) = sget space st (node_key n)"
        using None n get [of "node_key n"] L(3) [OF n] by simp
      ultimately show ?thesis using rec(2) by auto
    qed
  qed
  have logs: "sget space st' s = map_of (rev (log_cells (bs0 @ new))) s" if "s \<in> log_keys" "wf_skey s" for s
    using get [OF that(2)] L(6) [OF that(1)] D(6) [OF that] by (simp add: map_add_def split: option.split)
  have devs: "\<exists>r. sget space st' (KDevice d) = map_option DeviceRecord_encode r \<and> pred_option valid_device r \<and>
        device_pair r = device_state (bs0 @ new) d" if "wf_id d" for d
  proof (cases "d = device")
    case True
    then show ?thesis
      using get [of "KDevice d"] L(4) [of d] that dev(2) head
      by (intro exI [of _ "Some \<lparr>dr_last_seq = last_seq, dr_checksum = am_checksum am\<rparr>"])
        (simp add: device_pair_def valid_device_def)
  next
    case False
    then show ?thesis using get [of "KDevice d"] L(4) [of d] that D(7) [OF that] device_state_new [OF one False] by simp
  qed
  have "bt_wf st'" "keys_ok space st'" using D(1) keys_ok_apply [OF D(1,2) within] unfolding st' by simp_all
  moreover have "\<exists>n. counters space st' = Inr \<lparr>next_lease_id = n, admission_high_water = of_nat (length (bs0 @ new))\<rparr>"
    using cnt' by (cases c) auto
  ultimately show "data_repr space st' (bs0 @ new)"
    unfolding data_repr_def using ok view logs devs by blast
qed

subsection \<open>The specification of a request\<close>

definition reservation :: "Timestamp \<Rightarrow> DeviceId \<Rightarrow> (LeaseId \<rightharpoonup> LeaseRecord) \<Rightarrow> AdmissionRequest \<Rightarrow> Error + unit" where
  "reservation now device T req =
     (case find (\<lambda>k. \<exists>rec \<in> foreign_live now device T. covers_key (Prefix (lr_prefix rec)) k)
         (List.map_filter (\<lambda>entry. point_key (de_mutation entry)) (request_entries req)) of
        Some k \<Rightarrow> Inl (Kernel (Contended k None))
      | None \<Rightarrow> (case find (\<lambda>r. \<exists>rec \<in> foreign_live now device T. overlaps (Prefix (lr_prefix rec)) r)
            (List.map_filter (\<lambda>entry. mutation_range (de_mutation entry)) (request_entries req)) of
          Some r \<Rightarrow> Inl (Kernel (RangeContended r None)) | None \<Rightarrow> Inr ()))"

definition spec_admit ::
  "(bytes \<Rightarrow> bytes) \<Rightarrow> SpaceId \<Rightarrow> Timestamp \<Rightarrow> (LeaseId \<rightharpoonup> LeaseRecord) \<Rightarrow> AdmittedBatch list \<Rightarrow> AdmissionRequest \<Rightarrow>
   (Error + AdmissionResponse) \<times> AdmittedBatch list" where
  "spec_admit sha256 space now T bs req =
     (case device_state bs (ar_device req) of (last_seq, current) \<Rightarrow>
      if ar_expected_checksum req \<noteq> current then (Inl (Kernel (DeviceChecksumMismatch last_seq current)), bs)
      else case check_device_seqs last_seq True (ar_batches req) of
        Inl err \<Rightarrow> (Inl err, bs)
      | Inr _ \<Rightarrow> (case reservation now (ar_device req) T req of
          Inl err \<Rightarrow> (Inl err, bs)
        | Inr _ \<Rightarrow> (case rfold (spec_batch sha256 space req current (entries_of bs)) (current, bs) (ar_batches req) of
            Inl early \<Rightarrow> (early, bs)
          | Inr (checksum, bs') \<Rightarrow>
              (Inr \<lparr>resp_checksum = checksum, resp_results = map (Applied \<circ> b_admission_seq) (drop (length bs) bs')\<rparr>, bs'))))"

definition wf_request :: "AdmissionRequest \<Rightarrow> bool" where
  "wf_request req \<longleftrightarrow> wf_id (ar_device req) \<and> (\<forall>b \<in> set (ar_batches req). wf_client_batch b)"

text \<open>The space stays below the range of its counters: sequence numbers and live counts.\<close>

definition within_bounds :: "AdmittedBatch list \<Rightarrow> AdmissionRequest \<Rightarrow> bool" where
  "within_bounds bs req \<longleftrightarrow> length bs + length (ar_batches req) < 2 ^ 64 \<and>
     length (entries_of bs) + length (request_entries req) < 2 ^ 64"

lemma check_device_seqs_last:
  "check_device_seqs last_seq f bs = Inr n \<Longrightarrow> n = (if bs = [] then last_seq else ab_device_seq (last bs))"
  by (induction last_seq f bs rule: check_device_seqs.induct) (auto split: if_splits)

lemma spec_loop_new:
  assumes "rfold (spec_batch sha256 space req current log) (ck, bs) batches = Inr (ck', bs')"
  shows "\<exists>new. bs' = bs @ new \<and> length new = length batches \<and> (\<forall>b \<in> set new. b_device b = ar_device req) \<and>
    map b_device_seq new = map ab_device_seq batches \<and> ck' = (if new = [] then ck else b_checksum (last new))"
  using assms
proof (induction batches arbitrary: ck bs)
  case (Cons b batches)
  from Cons.prems obtain acc where acc: "spec_batch sha256 space req current log (ck, bs) b = Inr acc"
    and rest: "rfold (spec_batch sha256 space req current log) acc batches = Inr (ck', bs')"
    by (auto simp: rbind_Inr_iff)
  let ?ck = "AdmissionBatch_checksum sha256 ck space (ar_device req) b"
  let ?nb = "\<lambda>es. \<lparr>b_admission_seq = of_nat (length bs) + 1, b_device = ar_device req, b_device_seq = ab_device_seq b,
      b_checksum = ?ck, b_entries = es\<rparr>"
  from acc obtain es where "acc = (?ck, bs @ [?nb es])"
    unfolding spec_batch_def Let_def by (auto simp: rbind_Inr_iff split: if_splits)
  then obtain nb where nb: "acc = (b_checksum nb, bs @ [nb])" "b_device nb = ar_device req" "b_device_seq nb = ab_device_seq b"
    by (intro that [of "?nb es"]) simp_all
  from Cons.IH [OF rest [unfolded nb(1)]] obtain new where "bs' = bs @ nb # new" "length new = length batches"
    "\<forall>b \<in> set new. b_device b = ar_device req" "map b_device_seq new = map ab_device_seq batches"
    "ck' = (if new = [] then b_checksum nb else b_checksum (last new))" by auto
  with nb show ?case by (intro exI [of _ "nb # new"]) auto
qed simp

lemma log_ok_appendD2: "log_ok (log @ es) \<Longrightarrow> log_ok es"
  unfolding log_ok_def ascending_def vers_ascend_def by (simp add: sorted_wrt_append)

lemma admit_loop:
  assumes view: "view_ok space st (entries_of bs0)" "log_ok (entries_of bs0)" "wf_id space"
    and dev: "wf_id (ar_device req)" and sha: "\<forall>x. length (sha256 x) = 32"
    and "\<forall>b \<in> set batches. wf_client_batch b" "loop_inv space bs0 acc am"
    and "length (snd acc) + length batches < 2 ^ 64"
    and "length (entries_of (snd acc)) + length (concat (map ab_entries batches)) < 2 ^ 64"
  shows "case rfold (spec_batch sha256 space req current (entries_of bs0)) acc batches of
      Inl early \<Rightarrow> rfold (admit_batch sha256 space st req current) am batches = Inl early
    | Inr acc' \<Rightarrow> \<exists>am'. rfold (admit_batch sha256 space st req current) am batches = Inr am' \<and> loop_inv space bs0 acc' am'"
  using assms(6-)
proof (induction batches arbitrary: acc am)
  case (Cons b batches)
  have w: "wf_client_batch b" using Cons.prems(1) by simp
  have s1: "length (snd acc) + 1 < 2 ^ 64" and s2: "length (entries_of (snd acc)) + length (ab_entries b) < 2 ^ 64"
    using Cons.prems(3,4) by simp_all
  note step = admit_batch_step [OF view dev sha w Cons.prems(2) s1 s2, of current]
  show ?case
  proof (cases "spec_batch sha256 space req current (entries_of bs0) acc b")
    case (Inl early)
    with step show ?thesis by simp
  next
    case (Inr acc')
    with step obtain am' where run: "admit_batch sha256 space st req current am b = Inr am'" and inv: "loop_inv space bs0 acc' am'"
      and len: "length (snd acc') = length (snd acc) + 1"
        "length (entries_of (snd acc')) = length (entries_of (snd acc)) + length (ab_entries b)"
      by auto
    have eqs: "rfold (admit_batch sha256 space st req current) am (b # batches) =
        rfold (admit_batch sha256 space st req current) am' batches"
      "rfold (spec_batch sha256 space req current (entries_of bs0)) acc (b # batches) =
        rfold (spec_batch sha256 space req current (entries_of bs0)) acc' batches"
      using run Inr by simp_all
    show ?thesis
      unfolding eqs by (rule Cons.IH [OF _ inv]) (use Cons.prems(1,3,4) len in simp_all)
  qed
qed simp

lemma loop_inv_start:
  assumes "data_repr space st bs" "counters space st = Inr c"
  shows "loop_inv space bs (current, bs) \<lparr>am_checksum = current, am_next_seq = admission_high_water c + 1, am_results = [], am_batch = [],
             am_staged = [], am_ranges = [], am_events = [], am_aggregates = []\<rparr>"
proof -
  have "admission_high_water c = of_nat (length bs)" using data_reprD(8) [OF assms(1)] assms(2) by auto
  then show ?thesis
    using data_reprD(3) [OF assms(1)] by (simp add: loop_inv_def staged_ok_def aggs_ok_def)
qed

lemma set_map_filter: "set (List.map_filter f xs) = {y. \<exists>x \<in> set xs. f x = Some y}"
  by (induction xs) (auto simp: List.map_filter_simps split: option.splits)

lemma reservation_view:
  assumes "lease_ctx mgr st T" "wf_request req"
  shows "validate_writes mgr st now (ar_device req) (ar_evidence req)
      (List.map_filter (\<lambda>entry. point_key (de_mutation entry)) (request_entries req))
      (List.map_filter (\<lambda>entry. mutation_range (de_mutation entry)) (request_entries req)) =
    reservation now (ar_device req) T req"
proof -
  have w: "wf_mutation (de_mutation entry)" if "entry \<in> set (request_entries req)" for entry
    using that assms(2) by (auto simp: request_entries_def wf_request_def wf_client_batch_def wf_entry_def)
  have "\<forall>k \<in> set (List.map_filter (\<lambda>entry. point_key (de_mutation entry)) (request_entries req)). wf_key k"
  proof
    fix k
    assume "k \<in> set (List.map_filter (\<lambda>entry. point_key (de_mutation entry)) (request_entries req))"
    then obtain entry where "entry \<in> set (request_entries req)" "point_key (de_mutation entry) = Some k"
      by (auto simp: set_map_filter)
    with w [of entry] show "wf_key k" by (cases "de_mutation entry") auto
  qed
  moreover have "\<forall>r \<in> set (List.map_filter (\<lambda>entry. mutation_range (de_mutation entry)) (request_entries req)). wf_range r"
  proof
    fix r
    assume "r \<in> set (List.map_filter (\<lambda>entry. mutation_range (de_mutation entry)) (request_entries req))"
    then obtain entry where "entry \<in> set (request_entries req)" "mutation_range (de_mutation entry) = Some r"
      by (auto simp: set_map_filter)
    with w [of entry] show "wf_range r" by (cases "de_mutation entry") auto
  qed
  ultimately show ?thesis
    using validate_writes_eq [OF assms(1)] by (simp only: reservation_def covers_range_Prefix_key)
qed

lemma device_state_last:
  assumes "\<forall>b \<in> set new. b_device b = device" "map b_device_seq new = map ab_device_seq batches"
    and "device_state bs device = (last_seq, ck)" "ck' = (if new = [] then ck else b_checksum (last new))"
    and "n = (if batches = [] then last_seq else ab_device_seq (last batches))"
  shows "device_state (bs @ new) device = (n, ck')"
proof (cases "new = []")
  case True
  then have "batches = []" using assms(2) by simp
  with True assms show ?thesis by simp
next
  case False
  have ne: "batches \<noteq> []" using False assms(2) by auto
  have "b_device_seq (last new) = ab_device_seq (last batches)"
    using arg_cong [OF assms(2), of last] False ne by (simp add: last_map)
  moreover note ne
  moreover obtain xs b where "new = xs @ [b]" using False by (metis append_butlast_last_id)
  ultimately show ?thesis using assms False by (simp add: device_state_def)
qed

lemma device_state_checksum: "batches_ok bs \<Longrightarrow> wf_checksum (snd (device_state bs d))"
proof -
  assume ok: "batches_ok bs"
  have "wf_checksum (b_checksum b)" if "find (\<lambda>b. b_device b = d) (rev bs) = Some b" for b
  proof -
    have "b \<in> set bs" using find_SomeD(1) [OF that] by simp
    then show ?thesis using ok by (auto simp: batches_ok_def in_set_conv_nth)
  qed
  then show ?thesis by (auto simp: device_state_def split: option.split)
qed

lemma lease_ctx_frame:
  assumes "lease_ctx mgr st T" "batch_within (lm_space mgr) (- lease_keys) ops"
  shows "lease_ctx mgr (MemoryStore_apply ops st) T"
proof -
  have wf: "bt_wf st" "keys_ok (lm_space mgr) st" "lease_repr (lm_space mgr) st T" using assms(1) by (simp_all add: lease_ctx_def)
  have "sget (lm_space mgr) (MemoryStore_apply ops st) s = sget (lm_space mgr) st s" if "s \<in> lease_keys" "wf_skey s" for s
    by (rule sget_frame [OF wf(1) assms(2) that(2)]) (use that(1) in simp)
  then have "lease_repr (lm_space mgr) (MemoryStore_apply ops st) T"
    using wf(3) unfolding lease_repr_def by simp
  with keys_ok_apply [OF wf(1,2) assms(2)] wf(1) show ?thesis by (simp add: lease_ctx_def)
qed

lemma commit_outcome:
  assumes R: "data_repr space st bs" and dev: "wf_id device"
    and c: "counters space st = Inr c" and inv: "loop_inv space bs (ck, bs @ new) am"
    and head: "device_state (bs @ new) device = (n, ck)" and one: "\<forall>b \<in> set new. b_device b = device"
  obtains batch where "admit_commit space device n c am = Inr batch"
    and "data_repr space (MemoryStore_apply batch st) (bs @ new)" "batch_within space (- lease_keys) batch"
    and "counters space (MemoryStore_apply batch st) = Inr (c\<lparr>admission_high_water := of_nat (length (bs @ new))\<rparr>)"
proof -
  from inv have ok: "batches_ok (bs @ new)" and am: "am_checksum am = ck" "am_next_seq am = of_nat (length (bs @ new)) + 1"
    "am_batch am = map (cell_put space) (log_cells new)" and st: "staged_ok space (entries_of bs) (entries_of new) am"
    unfolding loop_inv_def by (auto simp: batch_puts_cells)
  have lgn: "log_ok (entries_of new)"
    using ok log_ok_appendD2 [of "entries_of bs"] by (simp add: batches_ok_def)
  obtain node where node: "\<forall>k \<in> fst ` set (am_aggregates am). wf_range (node k) \<and> k = node_bytes space (node k)"
    using aggregate_nodes [OF staged_okD(5) [OF st]] by blast
  have wck: "wf_checksum (am_checksum am)" and head': "device_state (bs @ new) device = (n, am_checksum am)"
    using device_state_checksum [OF ok, of device] head am(1) by simp_all
  let ?ops = "map (cell_put space) (commit_cells node new device n c am)"
  note C = commit_repr [OF R st ok lgn dev wck c am(2) head' one node refl [of "MemoryStore_apply ?ops st"]]
  have "admit_commit space device n c am = Inr ?ops"
    using admit_commit_cells [OF st am(3) node] by (simp add: commit_cells_def)
  then show thesis using that C by blast
qed

text \<open>A request that passes every check.\<close>

lemma admit_applied:
  assumes R: "data_repr space st bs" and dev: "wf_id (ar_device req)" and c: "counters space st = Inr c"
    and ds: "device_state bs (ar_device req) = (last_seq, current)"
    and seqs: "check_device_seqs last_seq True (ar_batches req) = Inr n"
    and acc: "rfold (spec_batch sha256 space req current (entries_of bs)) (current, bs) (ar_batches req) = Inr (ck, bs')"
    and inv: "loop_inv space bs (ck, bs') am"
  obtains batch where "admit_commit space (ar_device req) n c am = Inr batch" "batch_within space (- lease_keys) batch"
    and "data_repr space (MemoryStore_apply batch st) bs'"
    and "counters space (MemoryStore_apply batch st) = Inr (c\<lparr>admission_high_water := of_nat (length bs')\<rparr>)"
    and "am_checksum am = ck" "am_results am = map (Applied \<circ> b_admission_seq) (drop (length bs) bs')"
proof -
  note outcome = that
  from spec_loop_new [OF acc] obtain new where new: "bs' = bs @ new" "\<forall>b \<in> set new. b_device b = ar_device req"
    "map b_device_seq new = map ab_device_seq (ar_batches req)" "ck = (if new = [] then current else b_checksum (last new))"
    by blast
  have am: "am_checksum am = ck" "am_results am = map (Applied \<circ> b_admission_seq) new"
    using inv new(1) unfolding loop_inv_def by auto
  have head: "device_state (bs @ new) (ar_device req) = (n, ck)"
    by (rule device_state_last [OF new(2,3) ds new(4) check_device_seqs_last [OF seqs]])
  show thesis
    by (rule commit_outcome [OF R dev c inv [unfolded new(1)] head new(2)]) (rule outcome, use new(1) am in simp_all)
qed

lemma admit_outcome:
  assumes R: "data_repr space st bs" and L: "lease_ctx mgr st T" "lm_space mgr = space" and w: "wf_id space" "wf_request req"
    and sha: "\<forall>x. length (sha256 x) = 32" and small: "within_bounds bs req"
    and spec: "spec_admit sha256 space now T bs req = (res, bs')"
  obtains ops where "admit sha256 space mgr st now req = (res, MemoryStore_apply ops st)" "batch_within space (- lease_keys) ops"
    and "data_repr space (MemoryStore_apply ops st) bs'"
    and "\<And>c. counters space st = Inr c \<Longrightarrow>
      counters space (MemoryStore_apply ops st) = Inr (c\<lparr>admission_high_water := of_nat (length bs')\<rparr>)"
    and "\<not> (\<exists>resp. res = Inr resp \<and> (\<forall>x \<in> set (resp_results resp). \<exists>seq. x = Applied seq)) \<Longrightarrow> ops = []"
proof -
  note D = data_reprD [OF R] and outcome = that
  let ?d = "ar_device req"
  have dev: "wf_id ?d" using w by (simp add: wf_request_def)
  obtain last_seq current where ds: "device_state bs ?d = (last_seq, current)" by (cases "device_state bs ?d")
  obtain r where r: "device_record space st ?d = Inr r" "device_pair r = (last_seq, current)"
    using device_record_view [OF R dev] ds by metis
  then have r': "(case r of None \<Rightarrow> 0 | Some rec \<Rightarrow> dr_last_seq rec) = last_seq"
    "(case r of None \<Rightarrow> DeviceChecksum_EMPTY | Some rec \<Rightarrow> dr_checksum rec) = current"
    by (cases r; simp add: device_pair_def)+
  obtain c where c: "counters space st = Inr c" "admission_high_water c = of_nat (length bs)" using D(8) by force
  have same: "counters space st = Inr (c\<lparr>admission_high_water := of_nat (length bs)\<rparr>)" using c by (cases c) simp
  have unchanged: thesis if "admit sha256 space mgr st now req = (res, st)" "bs' = bs"
    by (rule outcome [of "[]"]) (use that R c(1) same in \<open>simp_all add: MemoryStore_apply_def\<close>)
  note code = admit_def Let_def r(1) map_err.simps rbind.simps r' reservation_view [OF L(1) w(2)]
  note spec' = spec [unfolded spec_admit_def ds prod.case]
  show thesis
  proof (cases "ar_expected_checksum req = current \<and> (\<exists>n. check_device_seqs last_seq True (ar_batches req) = Inr n) \<and>
      reservation now ?d T req = Inr ()")
    case False
    then show thesis using spec'
      by (intro unchanged; cases "check_device_seqs last_seq True (ar_batches req)"; cases "reservation now ?d T req")
        (auto simp: code split: if_splits)
  next
    case True
    then obtain n where ok: "ar_expected_checksum req = current" "reservation now ?d T req = Inr ()"
      and seqs: "check_device_seqs last_seq True (ar_batches req) = Inr n" by blast
    let ?am = "\<lparr>am_checksum = current, am_next_seq = admission_high_water c + 1, am_results = [], am_batch = [],
         am_staged = [], am_ranges = [], am_events = [], am_aggregates = []\<rparr>"
    have loop: "case rfold (spec_batch sha256 space req current (entries_of bs)) (current, bs) (ar_batches req) of
        Inl early \<Rightarrow> rfold (admit_batch sha256 space st req current) ?am (ar_batches req) = Inl early
      | Inr acc' \<Rightarrow> \<exists>am'. rfold (admit_batch sha256 space st req current) ?am (ar_batches req) = Inr am' \<and> loop_inv space bs acc' am'"
      by (rule admit_loop [OF D(4,5) w(1) dev sha _ loop_inv_start [OF R c(1)]])
        (use w(2) small in \<open>simp_all add: wf_request_def within_bounds_def request_entries_def\<close>)
    show thesis
    proof (cases "rfold (spec_batch sha256 space req current (entries_of bs)) (current, bs) (ar_batches req)")
      case (Inl early)
      then show thesis using spec' ok seqs loop c(1) by (intro unchanged) (auto simp: code)
    next
      case (Inr acc)
      then obtain ck bs1 where acc: "rfold (spec_batch sha256 space req current (entries_of bs)) (current, bs) (ar_batches req) = Inr (ck, bs1)"
        by (cases acc) simp
      with loop obtain am where run: "rfold (admit_batch sha256 space st req current) ?am (ar_batches req) = Inr am"
        and inv: "loop_inv space bs (ck, bs1) am" by auto
      have out: "bs' = bs1" "res = Inr \<lparr>resp_checksum = ck, resp_results = map (Applied \<circ> b_admission_seq) (drop (length bs) bs1)\<rparr>"
        using spec' ok seqs acc by auto
      from admit_applied [OF R dev c(1) ds seqs acc inv] obtain batch where
        B: "admit_commit space ?d n c am = Inr batch" "batch_within space (- lease_keys) batch"
        "data_repr space (MemoryStore_apply batch st) bs1"
        "counters space (MemoryStore_apply batch st) = Inr (c\<lparr>admission_high_water := of_nat (length bs1)\<rparr>)"
        "am_checksum am = ck" "am_results am = map (Applied \<circ> b_admission_seq) (drop (length bs) bs1)" .
      have "admit sha256 space mgr st now req = (res, MemoryStore_apply batch st)"
        using ok seqs run c(1) B(1,5,6) out(2) by (simp add: code)
      with B(2-4) c(1) out show thesis by (intro outcome [of batch]) auto
    qed
  qed
qed

end
