(* ===== verification/Reads.thy ===== *)
theory Reads
  imports Admit
begin

text \<open>
  The read verbs under \<open>data_repr\<close>: \<open>get\<close>, \<open>list\<close> and snapshots return the live entries of the
  replayed log, deltas and \<open>pull\<close> return the log itself, and none of them panics (\<open>list\<close> apart, on
  a cursor beyond its prefix).
\<close>

subsection \<open>Point reads\<close>

lemma visible_entry:
  assumes "view_ok space st log" "log_ok log" "wf_id space" "wf_key k" "last_point log k = Some e"
  shows "point_record_visible space st e = Inr (live log k \<noteq> None)" and "live log k \<noteq> None \<Longrightarrow> live log k = Some e"
proof -
  show "point_record_visible space st e = Inr (live log k \<noteq> None)" by (rule point_record_visible_view [OF assms])
  show "live log k = Some e" if "live log k \<noteq> None"
    using that live_eq [OF log_ok_valid(3) [OF assms(2)], of k] assms(5) by (auto split: if_splits)
qed

lemma live_last_point: "log_ok log \<Longrightarrow> live log k = Some e \<Longrightarrow> last_point log k = Some e"
  using live_eq [OF log_ok_valid(3), of log k] by (auto split: option.splits if_splits)

lemma get_view:
  assumes "view_ok space st log" "log_ok log" "wf_id space" "\<forall>k \<in> set keys. wf_key k"
  shows "get space st keys = Inr (map (live log) keys)"
  unfolding get_def
proof (rule rmap_total)
  fix k
  assume "k \<in> set keys"
  then have k: "wf_key k" using assms(4) by blast
  show "rbind (data_record space st k) (\<lambda>record.
         case record of
           None \<Rightarrow> Inr None
         | Some rec \<Rightarrow> rbind (point_record_visible space st rec) (\<lambda>visible. Inr (if visible then Some rec else None))) =
    Inr (live log k)"
  proof (cases "last_point log k")
    case None
    then show ?thesis
      using data_record_view [OF assms(1,2) k] live_eq [OF log_ok_valid(3) [OF assms(2)], of k] by simp
  next
    case (Some e)
    then show ?thesis
      using data_record_view [OF assms(1,2) k] visible_entry [OF assms(1-3) k Some] by (cases "live log k") simp_all
  qed
qed

subsection \<open>Scans of point data\<close>

definition point_keys :: "admitted list \<Rightarrow> key set" where
  "point_keys log = {k. last_point log k \<noteq> None}"

lemma point_keys_image: "point_keys log \<subseteq> (\<lambda>e. the (point_key (mutation_of e))) ` set log"
proof
  fix k
  assume "k \<in> point_keys log"
  then obtain e where "last_point log k = Some e" by (auto simp: point_keys_def)
  from last_point_Some [OF this] show "k \<in> (\<lambda>e. the (point_key (mutation_of e))) ` set log"
    by (intro image_eqI [of _ _ e]) auto
qed

lemma finite_point_keys [simp]: "finite (point_keys log)"
  by (rule finite_subset [OF point_keys_image]) simp

lemma wf_point_keys: "log_ok log \<Longrightarrow> k \<in> point_keys log \<Longrightarrow> wf_key k"
proof -
  assume log: "log_ok log" and "k \<in> point_keys log"
  then obtain e where "e \<in> set log" "point_key (mutation_of e) = Some k"
    using last_point_Some by (fastforce simp: point_keys_def)
  with log_ok_valid(2) [OF log] show "wf_key k" by (cases "mutation_of e") fastforce+
qed

lemma live_point_keys: "log_ok log \<Longrightarrow> live log k \<noteq> None \<Longrightarrow> k \<in> point_keys log"
  using live_last_point by (auto simp: point_keys_def)

definition data_cell :: "SpaceId \<Rightarrow> admitted list \<Rightarrow> key \<Rightarrow> bytes \<times> bytes" where
  "data_cell space log k = (data_key space k, data_bytes (the (last_point log k)))"

text \<open>The point records in a window of storage keys, in key order.\<close>

lemma data_window:
  assumes R: "data_repr space st bs" and le: "\<And>e. bound = Some e \<Longrightarrow> start \<le> e"
    and within: "\<And>s. wf_skey s \<Longrightarrow> start \<le> skey_bytes space s \<Longrightarrow> (\<forall>e. bound = Some e \<longrightarrow> skey_bytes space s < e) \<Longrightarrow> \<exists>k. s = KData k"
    and space: "\<And>k. start \<le> k \<Longrightarrow> (\<forall>e. bound = Some e \<longrightarrow> k < e) \<Longrightarrow> prefix (encode_components [space]) k"
  shows "MemoryStore_scan st start bound = Inr (map (data_cell space (entries_of bs))
    (sorted_list_of_set {k \<in> point_keys (entries_of bs). start \<le> data_key space k \<and> (\<forall>e. bound = Some e \<longrightarrow> data_key space k < e)}))"
proof -
  note D = data_reprD [OF R]
  let ?log = "entries_of bs"
  let ?K = "{k \<in> point_keys ?log. start \<le> data_key space k \<and> (\<forall>e. bound = Some e \<longrightarrow> data_key space k < e)}"
  let ?f = "\<lambda>k. data_key space k" and ?g = "\<lambda>k. data_bytes (the (last_point ?log k))"
  have K: "set (sorted_list_of_set ?K) = ?K" by (rule set_sorted_list_of_set) simp
  have "MemoryStore_scan st start bound = Inr (map (\<lambda>k. (?f k, ?g k)) (sorted_list_of_set ?K))"
  proof (rule mem.scan_enumerates [OF D(1) le])
    show "sorted_wrt (\<lambda>a b. ?f a < ?f b) (sorted_list_of_set ?K)"
      by (simp add: skey_bytes_eqs skey_bytes_less)
    show "MemoryStore_get st k = Some v \<and> start \<le> k \<and> (\<forall>e. bound = Some e \<longrightarrow> k < e) \<longleftrightarrow>
        (\<exists>x \<in> set (sorted_list_of_set ?K). k = ?f x \<and> v = ?g x)" for k v
    proof
      assume a: "MemoryStore_get st k = Some v \<and> start \<le> k \<and> (\<forall>e. bound = Some e \<longrightarrow> k < e)"
      then obtain s where s: "wf_skey s" "k = skey_bytes space s"
        using D(2) space unfolding keys_ok_def by blast
      with a within obtain x where x: "s = KData x" by blast
      have "last_point ?log x \<noteq> None \<and> v = ?g x"
        using a s x view_okD(1) [OF D(4), of x] by (cases "last_point ?log x") (auto simp: skey_bytes_eqs)
      with a s x show "\<exists>x \<in> set (sorted_list_of_set ?K). k = ?f x \<and> v = ?g x"
        unfolding K by (intro bexI [of _ x]) (auto simp: skey_bytes_eqs point_keys_def)
    next
      assume "\<exists>x \<in> set (sorted_list_of_set ?K). k = ?f x \<and> v = ?g x"
      then obtain x where x: "x \<in> ?K" "k = ?f x" "v = ?g x" unfolding K by blast
      then have "wf_key x" using wf_point_keys [OF D(5)] by blast
      with x view_okD(1) [OF D(4), of x] show "MemoryStore_get st k = Some v \<and> start \<le> k \<and> (\<forall>e. bound = Some e \<longrightarrow> k < e)"
        by (auto simp: point_keys_def)
    qed
  qed
  then show ?thesis by (simp add: data_cell_def)
qed

lemma decode_data_cell:
  assumes "log_ok log" "wf_id space" "k \<in> point_keys log"
  shows "user_key_from_data (fst (data_cell space log k)) = Some k"
    and "DataRecord_decode k (snd (data_cell space log k)) = last_point log k"
proof -
  have k: "wf_key k" by (rule wf_point_keys [OF assms(1,3)])
  then show "user_key_from_data (fst (data_cell space log k)) = Some k"
    by (simp add: data_cell_def user_key_from_data_key assms(2))
  obtain e where e: "last_point log k = Some e" using assms(3) by (auto simp: point_keys_def)
  then have "valid_stored e \<and> point_key (mutation_of e) = Some k"
    using last_point_Some [OF e] log_ok_valid(1) [OF assms(1)] by blast
  then show "DataRecord_decode k (snd (data_cell space log k)) = last_point log k"
    using e by (simp add: data_cell_def data.decode_encode)
qed

definition live_entries :: "admitted list \<Rightarrow> key list \<Rightarrow> admitted list" where
  "live_entries log ks = List.map_filter (live log) ks"

lemma live_entries_simps [simp]:
  "live_entries log [] = []"
  "live_entries log (k # ks) = (case live log k of None \<Rightarrow> live_entries log ks | Some e \<Rightarrow> e # live_entries log ks)"
  by (simp_all add: live_entries_def List.map_filter_simps split: option.split)

lemma visible_cell:
  assumes "view_ok space st log" "log_ok log" "wf_id space" "k \<in> point_keys log"
  obtains e where "last_point log k = Some e" "point_record_visible space st e = Inr (live log k \<noteq> None)"
    and "live log k \<noteq> None \<longrightarrow> live log k = Some e"
proof -
  obtain e where e: "last_point log k = Some e" using assms(4) by (auto simp: point_keys_def)
  with that visible_entry [OF assms(1-3) wf_point_keys [OF assms(2,4)] e] show ?thesis by blast
qed

lemma visible_entries_view:
  assumes "view_ok space st log" "log_ok log" "wf_id space" "set ks \<subseteq> point_keys log"
  shows "visible_entries space st (map (data_cell space log) ks) = Inr (live_entries log ks)"
  using assms(4)
proof (induction ks)
  case (Cons k ks)
  then have k: "k \<in> point_keys log" by simp
  obtain e where "last_point log k = Some e" "point_record_visible space st e = Inr (live log k \<noteq> None)"
    "live log k \<noteq> None \<longrightarrow> live log k = Some e" by (rule visible_cell [OF assms(1-3) k])
  with Cons decode_data_cell [OF assms(2,3) k] show ?case
    by (cases "data_cell space log k"; cases "live log k") auto
qed simp

lemma list_loop_view:
  assumes "view_ok space st log" "log_ok log" "wf_id space" "set ks \<subseteq> point_keys log"
    and "\<forall>n. limit = Some n \<longrightarrow> length entries \<le> n"
  shows "list_loop space st limit (map (data_cell space log) ks) entries =
    Inr (case limit of
           None \<Rightarrow> \<lparr>lr_entries = entries @ live_entries log ks, lr_truncated = False\<rparr>
         | Some n \<Rightarrow> \<lparr>lr_entries = take n (entries @ live_entries log ks),
             lr_truncated = (n < length entries + length (live_entries log ks))\<rparr>)"
  using assms(4,5)
proof (induction ks arbitrary: entries)
  case Nil
  then show ?case by (auto split: option.split)
next
  case (Cons k ks)
  then have k: "k \<in> point_keys log" by simp
  obtain e where e: "last_point log k = Some e" "point_record_visible space st e = Inr (live log k \<noteq> None)"
    "live log k \<noteq> None \<longrightarrow> live log k = Some e" by (rule visible_cell [OF assms(1-3) k])
  note dec = decode_data_cell [OF assms(2,3) k]
  obtain a b where ab: "data_cell space log k = (a, b)" by (cases "data_cell space log k")
  have step: "list_loop space st limit (map (data_cell space log) (k # ks)) entries =
      (if live log k = None then list_loop space st limit (map (data_cell space log) ks) entries
       else if (case limit of None \<Rightarrow> False | Some n \<Rightarrow> length entries \<ge> n)
       then Inr \<lparr>lr_entries = entries, lr_truncated = True\<rparr>
       else list_loop space st limit (map (data_cell space log) ks) (entries @ [e]))"
    using ab dec e by simp
  show ?case
  proof (cases "live log k")
    case None
    then have le: "live_entries log (k # ks) = live_entries log ks" by simp
    show ?thesis unfolding le using Cons step None by simp
  next
    case (Some x)
    then have x: "x = e" using e(3) by simp
    have le: "live_entries log (k # ks) = e # live_entries log ks" using Some x by simp
    show ?thesis
    proof (cases "case limit of None \<Rightarrow> False | Some n \<Rightarrow> length entries \<ge> n")
      case True
      then obtain n where n: "limit = Some n" "n \<le> length entries" by (auto split: option.splits)
      with Cons.prems(2) have "n = length entries" by auto
      with n Some x step show ?thesis by (simp add: le del: live_entries_simps)
    next
      case False
      then have "\<forall>n. limit = Some n \<longrightarrow> length (entries @ [e]) \<le> n" by auto
      with Cons.IH [of "entries @ [e]"] Cons.prems(1) False Some x step show ?thesis
        by (cases limit) (simp_all add: le del: live_entries_simps)
    qed
  qed
qed

subsection \<open>Snapshots and pages\<close>

lemma prefix_window: "p \<le> k \<and> (\<forall>e. prefix_successor p = Some e \<longrightarrow> k < e) \<longleftrightarrow> prefix p k"
  unfolding prefix_iff_below below_def by (auto split: option.split)

lemma live_keys_sorted: "log_ok log \<Longrightarrow> live_entries log (sorted_list_of_set {k \<in> point_keys log. P k}) =
    live_entries log (sorted_list_of_set {k. P k \<and> live log k \<noteq> None})"
proof -
  assume log: "log_ok log"
  have sub: "{k. P k \<and> live log k \<noteq> None} \<subseteq> point_keys log" using live_point_keys [OF log] by auto
  then have fin: "finite {k. P k \<and> live log k \<noteq> None}" by (rule finite_subset) simp
  have live: "live_entries log ks = live_entries log (filter (\<lambda>k. live log k \<noteq> None) ks)" for ks
    by (induction ks) (auto split: option.split)
  have "filter (\<lambda>k. live log k \<noteq> None) (sorted_list_of_set {k \<in> point_keys log. P k}) =
      sorted_list_of_set {k. P k \<and> live log k \<noteq> None}"
  proof (rule strict_sorted_unique)
    show "sorted_wrt (<) (filter (\<lambda>k. live log k \<noteq> None) (sorted_list_of_set {k \<in> point_keys log. P k}))"
      by (intro sorted_wrt_filter) simp
    show "sorted_wrt (<) (sorted_list_of_set {k. P k \<and> live log k \<noteq> None})" by simp
    have fin2: "finite {k \<in> point_keys log. P k}" by simp
    show "set (filter (\<lambda>k. live log k \<noteq> None) (sorted_list_of_set {k \<in> point_keys log. P k})) =
        set (sorted_list_of_set {k. P k \<and> live log k \<noteq> None})"
      unfolding set_filter set_sorted_list_of_set [OF fin] set_sorted_list_of_set [OF fin2] using sub by blast
  qed
  then show ?thesis using live [of "sorted_list_of_set {k \<in> point_keys log. P k}"] by (simp only:)
qed

lemma scan_data_prefix:
  assumes R: "data_repr space st bs" and rng: "wf_range rng"
    and p: "p = (case rng of Full \<Rightarrow> data_scan_all space | Prefix pre \<Rightarrow> data_key space pre)"
  shows "scan_prefix st p = Inr (map (data_cell space (entries_of bs))
    (sorted_list_of_set {k \<in> point_keys (entries_of bs). covers_key rng k}))"
proof -
  have pre: "prefix p (skey_bytes space s) \<longleftrightarrow> (\<exists>k. s = KData k \<and> covers_key rng k)" for s
    using p by (cases rng) (simp_all add: scan_prefixes Key_starts_with_def)
  have sp: "prefix (encode_components [space]) p"
    using p by (cases rng) (simp_all add: scan_prefix_eqs)
  have eq: "{k \<in> point_keys (entries_of bs). p \<le> data_key space k \<and> (\<forall>e. prefix_successor p = Some e \<longrightarrow> data_key space k < e)} =
      {k \<in> point_keys (entries_of bs). covers_key rng k}"
    unfolding prefix_window skey_bytes_eqs pre by blast
  show ?thesis
    unfolding scan_prefix_def eq [symmetric]
  proof (rule data_window [OF R])
    show "p \<le> e" if "prefix_successor p = Some e" for e
      using prefix_successor_above [OF that] by (rule less_imp_le)
    show "\<exists>k. s = KData k" if "p \<le> skey_bytes space s" "\<forall>e. prefix_successor p = Some e \<longrightarrow> skey_bytes space s < e" for s
      using that prefix_window [of p] pre by blast
    show "prefix (encode_components [space]) k" if "p \<le> k" "\<forall>e. prefix_successor p = Some e \<longrightarrow> k < e" for k
      using that prefix_window [of p] sp prefix_order.trans by blast
  qed
qed

lemma snapshot_view:
  assumes R: "data_repr space st bs" and space: "wf_id space" and rng: "wf_range rng"
  shows "snapshot space st rng =
    Inr (live_entries (entries_of bs) (sorted_list_of_set (live_keys (entries_of bs) rng)))"
proof -
  note D = data_reprD [OF R]
  let ?log = "entries_of bs"
  obtain count where c: "effective_live_count space st rng = Inr count" "unat count = card (live_keys ?log rng)"
    by (rule effective_live_count_view [OF D(4,5) space rng])
  let ?p = "case rng of Full \<Rightarrow> data_scan_all space | Prefix pre \<Rightarrow> data_key space pre"
  let ?ks = "sorted_list_of_set {k \<in> point_keys ?log. covers_key rng k}"
  have fin: "finite {k \<in> point_keys ?log. covers_key rng k}" by simp
  have sub: "set ?ks \<subseteq> point_keys ?log" unfolding set_sorted_list_of_set [OF fin] by blast
  have run: "rbind (scan_prefix st ?p) (visible_entries space st) = Inr (live_entries ?log ?ks)"
    using scan_data_prefix [OF R rng refl] visible_entries_view [OF D(4,5) space sub] by simp
  have ks: "live_entries ?log ?ks = live_entries ?log (sorted_list_of_set (live_keys ?log rng))"
    using live_keys_sorted [OF D(5), of "covers_key rng"] by (simp add: live_keys_def)
  show ?thesis
  proof (cases "count = 0")
    case True
    then have "live_keys ?log rng = {}" using c(2) by simp
    with True c(1) show ?thesis by (simp add: snapshot_def)
  next
    case False
    then show ?thesis unfolding snapshot_def c(1) rbind.simps using run ks by simp
  qed
qed

lemma snoc_zero_le: "(xs @ [0 :: u8] \<le> ys) \<longleftrightarrow> xs < ys"
proof (induction xs arbitrary: ys)
  case Nil
  then show ?case by (cases ys) (auto simp: Cons_le_Cons word_gt_0)
next
  case (Cons x xs)
  then show ?case by (cases ys) (auto simp: Cons_le_Cons)
qed

definition list_window :: "ListRequest \<Rightarrow> key \<Rightarrow> bool" where
  "list_window req k \<longleftrightarrow> prefix (lq_prefix req) k \<and> (\<forall>a. lq_start_after req = Some a \<longrightarrow> a < k)"

lemma data_key_less: "data_key space a < data_key space b \<longleftrightarrow> a < b"
  by (simp add: skey_bytes_eqs skey_bytes_less)

lemma data_key_le: "data_key space a \<le> data_key space b \<longleftrightarrow> a \<le> b"
  by (simp add: data_key_less linorder_not_less [symmetric])

lemma data_key_prefix: "prefix (data_key space p) (data_key space k) \<longleftrightarrow> prefix p k"
  using scan_prefixes(2) [of space p space "KData k"] by (simp add: skey_bytes_eqs)

lemma list_start_le: "list_start space req \<le> k \<longleftrightarrow>
    data_key space (lq_prefix req) \<le> k \<and> (\<forall>a. lq_start_after req = Some a \<longrightarrow> data_key space a < k)"
  by (cases "lq_start_after req") (auto simp: list_start_def snoc_zero_le)

lemma list_panics_iff:
  "(\<exists>e. prefix_successor (data_key space (lq_prefix req)) = Some e \<and> e < list_start space req) \<longleftrightarrow>
   (\<exists>a. lq_start_after req = Some a \<and> lq_prefix req < a \<and> \<not> prefix (lq_prefix req) a)"
proof -
  let ?p = "lq_prefix req" and ?base = "data_key space (lq_prefix req)"
  have base: "\<not> e \<le> ?base" if "prefix_successor ?base = Some e" for e
    using prefix_successor_above [OF that] by simp
  have "(\<exists>e. prefix_successor ?base = Some e \<and> e < list_start space req) \<longleftrightarrow>
      (\<exists>e a. prefix_successor ?base = Some e \<and> lq_start_after req = Some a \<and> \<not> data_key space a < e)"
    using base list_start_le [of space req] by (metis linorder_not_less less_imp_le not_less)
  also have "\<dots> \<longleftrightarrow> (\<exists>a. lq_start_after req = Some a \<and> ?p < a \<and> \<not> prefix ?p a)"
  proof
    assume "\<exists>e a. prefix_successor ?base = Some e \<and> lq_start_after req = Some a \<and> \<not> data_key space a < e"
    then obtain e a where a: "prefix_successor ?base = Some e" "lq_start_after req = Some a" "\<not> data_key space a < e" by blast
    then have "\<not> prefix ?base (data_key space a)" using prefix_window [of ?base "data_key space a"] by blast
    moreover have "?base < data_key space a" using a(1,3) prefix_successor_above [of ?base e] by auto
    ultimately show "\<exists>a. lq_start_after req = Some a \<and> ?p < a \<and> \<not> prefix ?p a"
      using a(2) by (auto simp: data_key_less data_key_prefix)
  next
    assume "\<exists>a. lq_start_after req = Some a \<and> ?p < a \<and> \<not> prefix ?p a"
    then obtain a where a: "lq_start_after req = Some a" "?p < a" "\<not> prefix ?p a" by blast
    then have "\<not> prefix ?base (data_key space a)" "?base \<le> data_key space a"
      by (auto simp: data_key_prefix data_key_le)
    then show "\<exists>e a. prefix_successor ?base = Some e \<and> lq_start_after req = Some a \<and> \<not> data_key space a < e"
      using a(1) prefix_window [of ?base "data_key space a"] by blast
  qed
  finally show ?thesis .
qed

lemma list_entries_view:
  assumes R: "data_repr space st bs" and space: "wf_id space"
    and ok: "\<not> (\<exists>a. lq_start_after req = Some a \<and> lq_prefix req < a \<and> \<not> prefix (lq_prefix req) a)"
    and L: "L = live_entries (entries_of bs) (sorted_list_of_set {k. list_window req k \<and> live (entries_of bs) k \<noteq> None})"
  shows "list_entries space st req = Inr (case lq_limit req of
      None \<Rightarrow> \<lparr>lr_entries = L, lr_truncated = False\<rparr>
    | Some n \<Rightarrow> \<lparr>lr_entries = take n L, lr_truncated = (n < length L)\<rparr>)"
proof -
  note D = data_reprD [OF R]
  let ?log = "entries_of bs" and ?start = "list_start space req" and ?base = "data_key space (lq_prefix req)"
  let ?bound = "prefix_successor ?base"
  have le: "?start \<le> e" if "?bound = Some e" for e
    using ok that list_panics_iff [of space req] by (metis linorder_not_less)
  have pre: "prefix ?base k \<longleftrightarrow> ?base \<le> k \<and> (\<forall>e. ?bound = Some e \<longrightarrow> k < e)" for k
    using prefix_window by blast
  have ge: "?base \<le> k" if "?start \<le> k" for k using that list_start_le by blast
  let ?K = "{k \<in> point_keys ?log. ?start \<le> data_key space k \<and> (\<forall>e. ?bound = Some e \<longrightarrow> data_key space k < e)}"
  have "?start \<le> data_key space k \<and> (\<forall>e. ?bound = Some e \<longrightarrow> data_key space k < e) \<longleftrightarrow> list_window req k" for k
    using pre [of "data_key space k"] data_key_prefix [of space "lq_prefix req" k]
    unfolding list_start_le list_window_def data_key_less by blast
  then have K: "?K = {k \<in> point_keys ?log. list_window req k}" by blast
  have scan: "MemoryStore_scan st ?start ?bound = Inr (map (data_cell space ?log) (sorted_list_of_set ?K))"
  proof (rule data_window [OF R le])
    show "\<exists>k. s = KData k" if "?start \<le> skey_bytes space s" "\<forall>e. ?bound = Some e \<longrightarrow> skey_bytes space s < e" for s
      using that ge pre [of "skey_bytes space s"] scan_prefixes(2) [of space "lq_prefix req" space s] by blast
    show "prefix (encode_components [space]) k" if "?start \<le> k" "\<forall>e. ?bound = Some e \<longrightarrow> k < e" for k
    proof -
      have "prefix (encode_components [space]) ?base" unfolding scan_prefix_eqs encode_components_prefix_iff by simp
      moreover have "prefix ?base k" using that ge pre by blast
      ultimately show ?thesis by (rule prefix_order.trans)
    qed
  qed
  let ?ks = "sorted_list_of_set {k \<in> point_keys ?log. list_window req k}"
  have fin: "finite {k \<in> point_keys ?log. list_window req k}" by simp
  have sub: "set ?ks \<subseteq> point_keys ?log" unfolding set_sorted_list_of_set [OF fin] by blast
  have ks: "live_entries ?log ?ks = L" unfolding L by (rule live_keys_sorted [OF D(5)])
  have "list_loop space st (lq_limit req) (map (data_cell space ?log) ?ks) [] =
      Inr (case lq_limit req of None \<Rightarrow> \<lparr>lr_entries = [] @ L, lr_truncated = False\<rparr>
        | Some n \<Rightarrow> \<lparr>lr_entries = take n ([] @ L), lr_truncated = (n < length ([] :: admitted list) + length L)\<rparr>)"
    using list_loop_view [OF D(4,5) space sub, of "lq_limit req" "[]"] unfolding ks by simp
  then show ?thesis unfolding list_entries_def scan rbind.simps K append_Nil list.size add_0 .
qed

lemma list_entries_panics:
  assumes "lq_start_after req = Some a" "lq_prefix req < a" "\<not> prefix (lq_prefix req) a"
  shows "list_entries space st req = Inl (Panic ''range start is greater than range end in BTreeMap'')"
proof -
  obtain e where "prefix_successor (data_key space (lq_prefix req)) = Some e" "e < list_start space req"
    using list_panics_iff [of space req] assms by blast
  then show ?thesis by (simp add: list_entries_def MemoryStore_scan_def)
qed

subsection \<open>Log reads\<close>

lemma order_inject: "ascending log \<Longrightarrow> a \<in> set log \<Longrightarrow> b \<in> set log \<Longrightarrow> order_of a = order_of b \<Longrightarrow> a = b"
proof -
  assume "ascending log" and ab: "a \<in> set log" "b \<in> set log" "order_of a = order_of b"
  then have "distinct (map order_of log)" by (simp add: ascending_def sorted_wrt_less_distinct)
  with ab show "a = b" by (auto simp: distinct_map dest: inj_onD)
qed

lemma log_cells_member:
  "(s, v) \<in> set (log_cells bs) \<longleftrightarrow>
    (\<exists>e \<in> set (entries_of bs). s = op_skey e \<and> v = op_bytes e) \<or>
    (\<exists>b \<in> set bs. s = KHeader (b_admission_seq b) \<and> v = AdmissionHeaderRecord_encode (header_of b))"
  by (auto simp: log_cells_def batch_cells_def entries_of_def)

lemma log_cells_iff:
  assumes ok: "batches_ok bs"
  shows "map_of (rev (log_cells bs)) s = Some v \<longleftrightarrow> (s, v) \<in> set (log_cells bs)"
proof -
  have asc: "ascending (entries_of bs)" using ok log_ok_valid(3) by (simp add: batches_ok_def)
  have seqs: "b = b'" if "b \<in> set bs" "b' \<in> set bs" "b_admission_seq b = b_admission_seq b'" for b b'
    using that ok unfolding batches_ok_def in_set_conv_nth by (metis add_right_cancel)
  have fn: "v = w" if "(s, v) \<in> set (log_cells bs)" "(s, w) \<in> set (log_cells bs)" for s v w
  proof -
    have "e = e'" if "e \<in> set (entries_of bs)" "e' \<in> set (entries_of bs)" "op_skey e = op_skey e'" for e e'
      using order_inject [OF asc that(1,2)] that(3) by (simp add: op_skey_def order_def)
    with that seqs show ?thesis unfolding log_cells_member by (auto simp: op_skey_def)
  qed
  show ?thesis
  proof
    show "map_of (rev (log_cells bs)) s = Some v \<Longrightarrow> (s, v) \<in> set (log_cells bs)"
      using map_of_SomeD by fastforce
    assume mem: "(s, v) \<in> set (log_cells bs)"
    then obtain w where w: "map_of (rev (log_cells bs)) s = Some w"
      by (metis map_of_eq_None_iff not_None_eq set_rev image_eqI fst_conv set_map)
    then have "(s, w) \<in> set (log_cells bs)" using map_of_SomeD by fastforce
    with mem fn w show "map_of (rev (log_cells bs)) s = Some v" by blast
  qed
qed

lemma stored_operation:
  assumes R: "data_repr space st bs" and i: "n < length bs" and b: "b = bs ! n"
    and t: "wf_target t"
  shows "sget space st (KOp (b_admission_seq b) i t) = Some v \<longleftrightarrow>
    (\<exists>j < length (b_entries b). op_skey (b_entries b ! j) = KOp (b_admission_seq b) i t \<and> v = op_bytes (b_entries b ! j))"
proof -
  note D = data_reprD [OF R]
  have "sget space st (KOp (b_admission_seq b) i t) = Some v \<longleftrightarrow> (KOp (b_admission_seq b) i t, v) \<in> set (log_cells bs)"
    using D(6) [of "KOp (b_admission_seq b) i t"] t log_cells_iff [OF D(3)] by (simp add: log_keys_def)
  also have "\<dots> \<longleftrightarrow> (\<exists>e \<in> set (entries_of bs). op_skey e = KOp (b_admission_seq b) i t \<and> v = op_bytes e)"
    unfolding log_cells_member by (simp add: eq_commute [of "KOp _ _ _"])
  also have "\<dots> \<longleftrightarrow> (\<exists>e \<in> set (b_entries b). op_skey e = KOp (b_admission_seq b) i t \<and> v = op_bytes e)"
  proof
    assume "\<exists>e \<in> set (entries_of bs). op_skey e = KOp (b_admission_seq b) i t \<and> v = op_bytes e"
    then obtain e where e: "e \<in> set (entries_of bs)" "op_skey e = KOp (b_admission_seq b) i t" "v = op_bytes e" by blast
    obtain m where m: "m < length bs" "e \<in> set (b_entries (bs ! m))" "unat (seq_of e) = m + 1"
      by (rule entries_of_in [OF D(3) e(1)])
    moreover have "unat (b_admission_seq b) = n + 1" using D(3) i b by (simp add: batches_ok_def)
    moreover have "seq_of e = b_admission_seq b" using e(2) by (simp add: op_skey_def)
    ultimately have "m = n" by simp
    with m e b show "\<exists>e \<in> set (b_entries b). op_skey e = KOp (b_admission_seq b) i t \<and> v = op_bytes e" by blast
  next
    assume "\<exists>e \<in> set (b_entries b). op_skey e = KOp (b_admission_seq b) i t \<and> v = op_bytes e"
    with i b show "\<exists>e \<in> set (entries_of bs). op_skey e = KOp (b_admission_seq b) i t \<and> v = op_bytes e"
      by (auto simp: entries_of_def intro!: bexI [of _ "bs ! n"])
  qed
  also have "\<dots> \<longleftrightarrow> (\<exists>j < length (b_entries b). op_skey (b_entries b ! j) = KOp (b_admission_seq b) i t \<and> v = op_bytes (b_entries b ! j))"
    by (metis in_set_conv_nth)
  finally show ?thesis .
qed

lemma stored_header:
  assumes R: "data_repr space st bs" and n: "n < length bs"
  shows "MemoryStore_get st (admission_header_key space (b_admission_seq (bs ! n))) =
    Some (AdmissionHeaderRecord_encode (header_of (bs ! n)))"
proof -
  note D = data_reprD [OF R]
  have "(KHeader (b_admission_seq (bs ! n)), AdmissionHeaderRecord_encode (header_of (bs ! n))) \<in> set (log_cells bs)"
    unfolding log_cells_member using n by auto
  then show ?thesis
    using D(6) [of "KHeader (b_admission_seq (bs ! n))"] log_cells_iff [OF D(3)]
    by (simp add: log_keys_def sget_def skey_bytes_eqs)
qed

lemma decode_operation:
  assumes log: "log_ok log" and e: "e \<in> set log"
  shows "(case admission_target (mutation_of e) of
      TPoint key \<Rightarrow> ok_or (Panic ''corrupt point admission operation'') (DataRecord_decode key (op_bytes e))
    | TRange rng \<Rightarrow> rbind (ok_or (Panic ''corrupt range admission operation'') (RangeDeleteRecord_decode rng (op_bytes e)))
        (\<lambda>rec. Inr (rd_entry rec))) = Inr e"
proof (cases "mutation_of e")
  case (DeleteRange r)
  have v: "valid_stored e" "wf_mutation (mutation_of e)" "seq_of e \<noteq> 0"
    using log_ok_valid [OF log] e by (simp_all add: ascending_def)
  then have one: "log_ok [e]" by (simp add: log_ok_def ascending_def vers_ascend_def)
  obtain rec where rec: "RangeDeleteRecord_new e = Inr rec" "tomb_ok ([] @ [e]) r rec" "rd_entry rec = e"
    by (rule tomb_ok_new [OF DeleteRange, of "[]"]) (use v in \<open>simp_all add: valid_stored_def wf_tag_def\<close>)
  have "valid_tombstone r rec" using tomb_ok_valid [OF one] rec(2) by simp
  moreover have "op_bytes e = tombstone_bytes rec"
    using DeleteRange rec(1) by (simp add: op_bytes_def tombstone_bytes_def)
  ultimately show ?thesis using DeleteRange rec(3) by (simp add: tombstone.decode_encode)
qed (use log_ok_valid(1) [OF log e] in \<open>simp_all add: op_bytes_def data.decode_encode\<close>)

lemma wf_admission_target: "wf_mutation m \<Longrightarrow> wf_target (admission_target m)"
  by (cases m) simp_all

lemma read_operations:
  assumes space: "wf_id space" and log: "log_ok log" and sub: "set (b_entries b) \<subseteq> set log" and dense: "dense_batch b"
    and m: "m \<le> length (b_entries b)"
  shows "rfold (read_operation (b_admission_seq b) (header_of b)) []
      (map (\<lambda>j. (skey_bytes space (op_skey (b_entries b ! j)), op_bytes (b_entries b ! j))) [0..<m]) =
    Inr (take m (b_entries b))"
  using m
proof (induction m)
  case (Suc m)
  let ?e = "b_entries b ! m"
  have len: "length (b_entries b) < 2 ^ 32" and d: "dense_entry b m ?e" using dense Suc.prems by (simp_all add: dense_batch_def)
  have e: "?e \<in> set log" using sub Suc.prems by auto
  have idx: "unat (of_nat m :: u32) = m" using len Suc.prems by (intro unat_u32) simp
  have key: "admission_op_parts (skey_bytes space (op_skey ?e)) =
      Some (b_admission_seq b, of_nat m, admission_target (mutation_of ?e))"
    using admission_op_parts_key [OF space wf_admission_target [OF log_ok_valid(2) [OF log e]]] d
    by (simp add: op_skey_def dense_entry_def)
  have "read_operation (b_admission_seq b) (header_of b) (take m (b_entries b)) (skey_bytes space (op_skey ?e), op_bytes ?e) =
      Inr (take m (b_entries b) @ [?e])"
    unfolding read_operation_def fst_conv snd_conv key ok_or.simps rbind.simps prod.case decode_operation [OF log e]
    using d idx Suc.prems by (simp add: dense_entry_def header_of_def order_def min_absorb2)
  with Suc show ?case by (simp add: rfold_append take_Suc_conv_app_nth)
qed simp

lemma read_batch_view:
  assumes R: "data_repr space st bs" and space: "wf_id space" and n: "n < length bs"
  shows "read_batch space st (b_admission_seq (bs ! n)) = Inr (bs ! n)"
proof -
  note D = data_reprD [OF R]
  let ?b = "bs ! n" and ?seq = "b_admission_seq (bs ! n)"
  have dense: "dense_batch ?b" and hd: "valid_header (header_of ?b)"
    using D(3) n by (simp_all add: batches_ok_def valid_header_def header_of_def)
  have sub: "set (b_entries ?b) \<subseteq> set (entries_of bs)" using nth_mem [OF n] by (auto simp: entries_of_def simp del: nth_mem)
  let ?f = "\<lambda>j. skey_bytes space (op_skey (b_entries ?b ! j))" and ?g = "\<lambda>j. op_bytes (b_entries ?b ! j)"
  let ?js = "[0..<length (b_entries ?b)]"
  have len: "length (b_entries ?b) < 2 ^ 32" using dense by (simp add: dense_batch_def)
  have key: "op_skey (b_entries ?b ! j) = KOp ?seq (of_nat j) (admission_target (mutation_of (b_entries ?b ! j)))"
    if "j < length (b_entries ?b)" for j
    using dense that by (simp add: dense_batch_def dense_entry_def op_skey_def)
  have wt: "wf_target (admission_target (mutation_of (b_entries ?b ! j)))" if "j < length (b_entries ?b)" for j
    by (rule wf_admission_target, rule log_ok_valid(2) [OF D(5)]) (use nth_mem [OF that] sub in blast)
  let ?p = "admission_op_scan space ?seq"
  have pre: "prefix (encode_components [space]) ?p" unfolding scan_prefix_eqs encode_components_prefix_iff by simp
  have scan: "scan_prefix st ?p = Inr (map (\<lambda>j. (?f j, ?g j)) ?js)"
    unfolding scan_prefix_def
  proof (rule mem.prefix_scan_enumerates [OF D(1)])
    show "sorted_wrt (\<lambda>a b. ?f a < ?f b) ?js"
      unfolding sorted_wrt_iff_nth_less
    proof (intro allI impI)
      fix i j
      assume ij: "i < j" "j < length ?js"
      then have "(of_nat i :: u32) < of_nat j" using len by (simp add: word_less_nat_alt unat_of_nat)
      then show "?f (?js ! i) < ?f (?js ! j)" using ij by (simp add: key skey_bytes_less)
    qed
    show "MemoryStore_get st k = Some v \<and> prefix ?p k \<longleftrightarrow> (\<exists>j \<in> set ?js. k = ?f j \<and> v = ?g j)" for k v
    proof
      assume a: "MemoryStore_get st k = Some v \<and> prefix ?p k"
      then obtain s where s: "wf_skey s" "k = skey_bytes space s"
        using D(2) prefix_order.trans [OF pre] unfolding keys_ok_def by blast
      with a obtain i t where t: "s = KOp ?seq i t" by (auto simp: scan_prefixes)
      with a s stored_operation [OF R n refl, of t i v] obtain j where
        "j < length (b_entries ?b)" "op_skey (b_entries ?b ! j) = s" "v = ?g j" by (auto simp: sget_def)
      with s show "\<exists>j \<in> set ?js. k = ?f j \<and> v = ?g j" by (intro bexI [of _ j]) auto
    next
      assume "\<exists>j \<in> set ?js. k = ?f j \<and> v = ?g j"
      then obtain j where j: "j < length (b_entries ?b)" "k = ?f j" "v = ?g j" by auto
      then show "MemoryStore_get st k = Some v \<and> prefix ?p k"
        using stored_operation [OF R n refl wt [OF j(1)], of "of_nat j" v] key [OF j(1)] by (auto simp: sget_def scan_prefixes)
    qed
  qed
  have "unat (of_nat (length (b_entries ?b)) :: u32) = length (b_entries ?b)" by (rule unat_u32 [OF len])
  then show ?thesis
    unfolding read_batch_def stored_header [OF R n] scan
    using read_operations [OF space D(5) sub dense order.refl] header.decode_encode [OF hd]
    by (simp add: header_of_def)
qed

lemma read_interval_view:
  assumes R: "data_repr space st bs" and space: "wf_id space"
    and b: "unat lo \<le> unat through" "unat through \<le> length bs" "unat lo + 1 < 2 ^ 64"
  shows "read_admission_interval space st lo through = Inr (take (unat through - unat lo) (drop (unat lo) bs))"
proof -
  note D = data_reprD [OF R]
  have s: "unat (sat_add64 lo 1) = unat lo + 1" using b(3) by (simp add: unat_sat_add64)
  have "rmap (read_batch space st) (map of_nat [unat lo + 1..<unat through + 1]) =
      Inr (map (\<lambda>w. bs ! (unat w - 1)) (map (of_nat :: nat \<Rightarrow> u64) [unat lo + 1..<unat through + 1]))"
  proof (rule rmap_total)
    fix w :: u64
    assume "w \<in> set (map of_nat [unat lo + 1..<unat through + 1])"
    then obtain m where m: "w = of_nat m" "unat lo + 1 \<le> m" "m < unat through + 1" by auto
    then have lt: "m - 1 < length bs" "m < 2 ^ 64" using b(2) u64_less [of through] by (auto simp del: u64_less)
    then have "unat (b_admission_seq (bs ! (m - 1))) = m" using D(3) m(2) by (simp add: batches_ok_def)
    moreover have um: "unat w = m" using m(1) lt(2) by (simp add: unat_of_nat)
    ultimately have "b_admission_seq (bs ! (m - 1)) = w" by (simp add: word_unat_eq_iff)
    with read_batch_view [OF R space lt(1)] um show "read_batch space st w = Inr (bs ! (unat w - 1))" by simp
  qed
  also have "map (\<lambda>w. bs ! (unat w - 1)) (map (of_nat :: nat \<Rightarrow> u64) [unat lo + 1..<unat through + 1]) =
      take (unat through - unat lo) (drop (unat lo) bs)"
  proof (rule nth_equalityI)
    show "length (map (\<lambda>w. bs ! (unat w - 1)) (map (of_nat :: nat \<Rightarrow> u64) [unat lo + 1..<unat through + 1])) =
        length (take (unat through - unat lo) (drop (unat lo) bs))" using b by (simp del: upt_Suc)
    fix i
    assume "i < length (map (\<lambda>w. bs ! (unat w - 1)) (map (of_nat :: nat \<Rightarrow> u64) [unat lo + 1..<unat through + 1]))"
    then have i: "i < unat through - unat lo" by (simp del: upt_Suc)
    have "unat (of_nat (unat lo + 1 + i) :: u64) = unat lo + 1 + i"
      using i u64_less [of through] by (simp add: unat_of_nat del: u64_less of_nat_add of_nat_Suc)
    then have "unat (1 + (lo + of_nat i) :: u64) = Suc (unat lo + i)" by (simp add: ac_simps)
    with i b(2) show "map (\<lambda>w. bs ! (unat w - 1)) (map (of_nat :: nat \<Rightarrow> u64) [unat lo + 1..<unat through + 1]) ! i =
        take (unat through - unat lo) (drop (unat lo) bs) ! i"
      by (simp add: add.commute del: upt_Suc)
  qed
  finally show ?thesis unfolding read_admission_interval_def s .
qed

lemma dense_slice:
  assumes "batches_ok bs" "lo + n \<le> length bs" "lo + n < 2 ^ 64" "unat a = lo" "unat through = lo + n"
  shows "dense_response \<lparr>ps_after = a, ps_through = through, ps_batches = take n (drop lo bs)\<rparr>"
  using assms by (auto simp: dense_response_def batches_ok_def)

lemma pull_view:
  assumes R: "data_repr space st bs" and space: "wf_id space" and small: "length bs + 1 < 2 ^ 64"
    and n: "n = (case pq_max_batches req of None \<Rightarrow> length bs - unat (pq_after req) | Some m \<Rightarrow> min m (length bs - unat (pq_after req)))"
  shows "pull space st req =
    (if length bs < unat (pq_after req) then Inl (Kernel (AdmissionCursorAhead (pq_after req) (of_nat (length bs))))
     else Inr \<lparr>ps_after = pq_after req, ps_through = pq_after req + of_nat n, ps_batches = take n (drop (unat (pq_after req)) bs)\<rparr>)"
proof -
  note D = data_reprD [OF R]
  let ?a = "pq_after req"
  obtain c where c: "counters space st = Inr c" "admission_high_water c = of_nat (length bs)" using D(8) by force
  have hw: "unat (of_nat (length bs) :: u64) = length bs" using small by (simp add: unat_of_nat)
  have gt: "?a > of_nat (length bs) \<longleftrightarrow> length bs < unat ?a" by (simp add: word_less_nat_alt hw)
  let ?limit = "case pq_max_batches req of None \<Rightarrow> - 1 | Some m \<Rightarrow> if m < 2 ^ 64 then of_nat m else (- 1 :: u64)"
  show ?thesis
  proof (cases "length bs < unat ?a")
    case True
    then show ?thesis using c gt by (simp add: pull_def)
  next
    case False
    have av: "unat (sat_sub64 (of_nat (length bs)) ?a) = length bs - unat ?a" by (simp add: unat_sat_sub64 hw)
    have max: "unat (- 1 :: u64) = 2 ^ 64 - 1" by (simp add: unsigned_minus_1_eq_mask mask_eq_exp_minus_1)
    have "unat (min (sat_sub64 (of_nat (length bs)) ?a) ?limit) = n"
    proof (cases "pq_max_batches req")
      case None
      then show ?thesis using n av small max by (simp add: min_def word_le_nat_alt)
    next
      case (Some m)
      then show ?thesis using n av small max by (auto simp: min_def word_le_nat_alt unat_of_nat)
    qed
    from this [symmetric] have lim: "min (sat_sub64 (of_nat (length bs)) ?a) ?limit = of_nat n" by simp
    have nb: "unat ?a + n \<le> length bs" using n False by (auto split: option.splits)
    have th: "unat (?a + of_nat n) = unat ?a + n" using nb small by (intro of_nat_add_u64) simp
    have "read_admission_interval space st ?a (?a + of_nat n) = Inr (take n (drop (unat ?a) bs))"
      using read_interval_view [OF R space, of ?a "?a + of_nat n"] th nb small False by simp
    moreover have "validate_dense \<lparr>ps_after = ?a, ps_through = ?a + of_nat n, ps_batches = take n (drop (unat ?a) bs)\<rparr> = Inr ()"
      unfolding validate_dense_iff by (rule dense_slice [OF D(3)]) (use nb th small in simp_all)
    ultimately show ?thesis
      using False gt c lim by (simp add: pull_def Let_def not_less)
  qed
qed

definition relevant_after :: "Range \<Rightarrow> AdmissionSeq \<Rightarrow> admitted list \<Rightarrow> admitted list" where
  "relevant_after rng since log = filter (\<lambda>e. mutation_relevant rng (mutation_of e) \<and> since < seq_of e) log"

lemma relevant_after_drop:
  assumes ok: "batches_ok bs"
  shows "relevant_after rng since (entries_of bs) =
    concat (map (\<lambda>b. filter (\<lambda>e. mutation_relevant rng (mutation_of e)) (b_entries b)) (drop (unat since) bs))"
proof -
  let ?n = "unat since"
  have seq: "unat (seq_of e) = i + 1" if "i < length bs" "e \<in> set (b_entries (bs ! i))" for i e
    using that ok by (auto simp: batches_ok_def dense_batch_def dense_entry_def in_set_conv_nth)
  have old: "\<not> since < seq_of e" if "e \<in> set (entries_of (take ?n bs))" for e
  proof -
    from that obtain b where b: "b \<in> set (take ?n bs)" "e \<in> set (b_entries b)" by (auto simp: entries_of_def)
    from b(1) obtain i where "i < ?n" "i < length bs" "b = bs ! i" by (auto simp: in_set_conv_nth)
    with b(2) seq show ?thesis by (fastforce simp: word_less_nat_alt)
  qed
  have new: "since < seq_of e" if "e \<in> set (entries_of (drop ?n bs))" for e
  proof -
    from that obtain b where b: "b \<in> set (drop ?n bs)" "e \<in> set (b_entries b)" by (auto simp: entries_of_def)
    from b(1) obtain i where "i < length bs - ?n" "b = bs ! (?n + i)" by (auto simp: in_set_conv_nth)
    with b(2) seq [of "?n + i" e] show ?thesis by (simp add: word_less_nat_alt)
  qed
  have "entries_of bs = entries_of (take ?n bs) @ entries_of (drop ?n bs)"
    by (simp add: entries_of_def flip: concat_append map_append)
  then have "relevant_after rng since (entries_of bs) =
      relevant_after rng since (entries_of (take ?n bs)) @ relevant_after rng since (entries_of (drop ?n bs))"
    by (simp add: relevant_after_def)
  also have "relevant_after rng since (entries_of (take ?n bs)) = []"
    using old by (simp add: relevant_after_def)
  also have "relevant_after rng since (entries_of (drop ?n bs)) = filter (\<lambda>e. mutation_relevant rng (mutation_of e)) (entries_of (drop ?n bs))"
    unfolding relevant_after_def by (rule filter_cong [OF refl]) (use new in simp)
  finally show ?thesis by (simp add: entries_of_def filter_concat comp_def)
qed

lemma delta_view:
  assumes R: "data_repr space st bs" and space: "wf_id space" and rng: "wf_range rng" and small: "length bs + 1 < 2 ^ 64"
  shows "delta space st rng since (of_nat (length bs)) = Inr (relevant_after rng since (entries_of bs))"
proof -
  note D = data_reprD [OF R]
  let ?E = "{e \<in> set (entries_of bs). mutation_relevant rng (mutation_of e)}"
  have hw: "unat (of_nat (length bs) :: u64) = length bs" using small by (simp add: unat_of_nat)
  obtain eh where eh: "effective_history space st rng = Inr eh" and h: "heads_repr (eh_history eh) (dev_max ?E)"
    by (rule effective_history_view [OF D(4,5) space rng])
  have mx: "HistoricalHeads_max_admission_seq (eh_history eh) \<le> since \<longleftrightarrow> (\<forall>e \<in> ?E. seq_of e \<le> since)"
    unfolding heads_max [OF h, simplified] by (subst Max_le_iff) auto
  show ?thesis
  proof (cases "\<forall>e \<in> ?E. seq_of e \<le> since")
    case True
    then have "relevant_after rng since (entries_of bs) = []"
      by (auto simp: relevant_after_def filter_empty_conv not_less)
    with True mx eh show ?thesis by (simp add: delta_def)
  next
    case False
    then obtain e where e: "e \<in> set (entries_of bs)" "since < seq_of e" by (auto simp: not_le)
    have "unat (seq_of e) \<le> length bs" by (rule entries_of_in [OF D(3) e(1)]) simp
    with e(2) have lt: "unat since < length bs" by (simp add: word_less_nat_alt)
    have "read_admission_interval space st since (of_nat (length bs)) = Inr (drop (unat since) bs)"
      using read_interval_view [OF R space, of since "of_nat (length bs)"] lt hw small by simp
    moreover have "\<not> HistoricalHeads_max_admission_seq (eh_history eh) \<le> since" unfolding mx by (rule False)
    ultimately show ?thesis using eh by (simp add: delta_def relevant_after_drop [OF D(3)])
  qed
qed

definition spec_cut :: "admitted list \<Rightarrow> RangeCursor \<Rightarrow> RangeCut" where
  "spec_cut log cursor = (case rc_since cursor of
     None \<Rightarrow> Snapshot (live_entries log (sorted_list_of_set (live_keys log (rc_range cursor))))
   | Some since \<Rightarrow> Delta (relevant_after (rc_range cursor) since log))"

lemma read_at_view:
  assumes R: "data_repr space st bs" and space: "wf_id space" and small: "length bs + 1 < 2 ^ 64"
    and rngs: "\<forall>cursor \<in> set ranges. wf_range (rc_range cursor)"
  shows "read_at space st ranges = Inr \<lparr>rat_at = of_nat (length bs), rat_ranges = map (spec_cut (entries_of bs)) ranges\<rparr>"
proof -
  obtain c where c: "counters space st = Inr c" "admission_high_water c = of_nat (length bs)"
    using data_reprD(8) [OF R] by force
  have "rmap (\<lambda>cursor. case rc_since cursor of
           None \<Rightarrow> rbind (snapshot space st (rc_range cursor)) (\<lambda>entries. Inr (Snapshot entries))
         | Some since \<Rightarrow> rbind (delta space st (rc_range cursor) since (of_nat (length bs))) (\<lambda>entries. Inr (Delta entries))) ranges =
      Inr (map (spec_cut (entries_of bs)) ranges)"
  proof (rule rmap_total)
    fix cursor
    assume "cursor \<in> set ranges"
    then have w: "wf_range (rc_range cursor)" using rngs by blast
    show "(case rc_since cursor of
           None \<Rightarrow> rbind (snapshot space st (rc_range cursor)) (\<lambda>entries. Inr (Snapshot entries))
         | Some since \<Rightarrow> rbind (delta space st (rc_range cursor) since (of_nat (length bs))) (\<lambda>entries. Inr (Delta entries))) =
      Inr (spec_cut (entries_of bs) cursor)"
      using snapshot_view [OF R space w] delta_view [OF R space w small] by (simp add: spec_cut_def split: option.split)
  qed
  from this [folded c(2)] show ?thesis unfolding read_at_def Let_def c(1) by (simp add: c(2))
qed

end
