(* ===== verification/Reach.thy ===== *)
theory Reach
  imports Space
begin

text \<open>
  Reachable servers.  The abstract state of a space is its admission log (a list of admitted
  batches) and its lease table; \<open>space_spec\<close> is the abstract machine of the nine verbs, \<open>space_ok\<close>
  relates it to the store, and \<open>server_reach\<close> closes the empty server under registration and calls
  with non-decreasing clock readings.
\<close>

subsection \<open>The abstract machine\<close>

text \<open>Requests built from well-formed identifiers, keys and ranges, as the Rust types guarantee.\<close>

fun wf_command :: "Command \<Rightarrow> bool" where
  "wf_command (Acquire req) \<longleftrightarrow> wf_acquire req"
| "wf_command (Renew req) \<longleftrightarrow> wf_stamp (rn_requested_at req)"
| "wf_command (Release req) \<longleftrightarrow> True"
| "wf_command (ListLeases device) \<longleftrightarrow> True"
| "wf_command (Admit req) \<longleftrightarrow> wf_request req"
| "wf_command (Pull req) \<longleftrightarrow> True"
| "wf_command (Get keys) \<longleftrightarrow> (\<forall>k \<in> set keys. wf_key k)"
| "wf_command (List req) \<longleftrightarrow> True"
| "wf_command (ReadAt ranges) \<longleftrightarrow> (\<forall>cursor \<in> set ranges. wf_range (rc_range cursor))"

text \<open>How far a command can move the counters of its space.\<close>

fun command_volume :: "Command \<Rightarrow> nat" where
  "command_volume (Acquire req) = length (aq_specs req)"
| "command_volume (Admit req) = length (ar_batches req) + length (request_entries req)"
| "command_volume _ = 0"

definition spec_pull :: "AdmittedBatch list \<Rightarrow> PullRequest \<Rightarrow> Error + PullResponse" where
  "spec_pull bs req =
     (let n = (case pq_max_batches req of None \<Rightarrow> length bs - unat (pq_after req)
         | Some m \<Rightarrow> min m (length bs - unat (pq_after req)))
      in if length bs < unat (pq_after req) then Inl (Kernel (AdmissionCursorAhead (pq_after req) (of_nat (length bs))))
         else Inr \<lparr>ps_after = pq_after req, ps_through = pq_after req + of_nat n,
              ps_batches = take n (drop (unat (pq_after req)) bs)\<rparr>)"

definition beyond_prefix :: "ListRequest \<Rightarrow> bool" where
  "beyond_prefix req \<longleftrightarrow> (\<exists>a. lq_start_after req = Some a \<and> lq_prefix req < a \<and> \<not> prefix (lq_prefix req) a)"

definition spec_list :: "admitted list \<Rightarrow> ListRequest \<Rightarrow> ListResponse" where
  "spec_list log req =
     (let L = live_entries log (sorted_list_of_set {k. list_window req k \<and> live log k \<noteq> None})
      in case lq_limit req of
           None \<Rightarrow> \<lparr>lr_entries = L, lr_truncated = False\<rparr>
         | Some n \<Rightarrow> \<lparr>lr_entries = take n L, lr_truncated = (n < length L)\<rparr>)"

text \<open>One verb at time \<open>now\<close>: the result and the next log and table.\<close>

inductive space_spec ::
  "(bytes \<Rightarrow> bytes) \<Rightarrow> SpaceId \<Rightarrow> Timestamp \<Rightarrow> Command \<Rightarrow> AdmittedBatch list \<Rightarrow> (LeaseId \<rightharpoonup> LeaseRecord) \<Rightarrow>
   Error + Reply \<Rightarrow> AdmittedBatch list \<Rightarrow> (LeaseId \<rightharpoonup> LeaseRecord) \<Rightarrow> bool"
  for sha256 i now where
  granted: "\<forall>spec \<in> set (aq_specs req). blocking now T spec = {} \<Longrightarrow> acquire_self_overlap (aq_specs req) = None \<Longrightarrow>
     purged now T T1 \<Longrightarrow> c = \<lparr>next_lease_id = n, admission_high_water = of_nat (length bs)\<rparr> \<Longrightarrow> fresh_ids n T \<Longrightarrow>
     recs = granted_records now req c (aq_specs req) \<Longrightarrow>
     space_spec sha256 i now (Acquire req) bs T (Inr (Acquired (map public_lease recs))) bs (granted_table recs T1)"
| blocked: "spec \<in> set (aq_specs req) \<Longrightarrow> blocking now T spec \<noteq> {} \<Longrightarrow>
     \<forall>rec \<in> blocking now T spec. \<not> is_live rec (now + w) \<Longrightarrow> purged now T T' \<Longrightarrow>
     space_spec sha256 i now (Acquire req) bs T (Inl (Kernel (Contended (ls_prefix spec) (Some (from_millis w))))) bs T'"
| self_blocked: "\<forall>spec \<in> set (aq_specs req). blocking now T spec = {} \<Longrightarrow> acquire_self_overlap (aq_specs req) = Some p \<Longrightarrow>
     purged now T T' \<Longrightarrow> space_spec sha256 i now (Acquire req) bs T (Inl (Kernel (Contended p None))) bs T'"
| renewed: "resp = \<lparr>rr_granted = map (\<lambda>lid. \<lparr>rg_id = lid, rg_granted_at = now, rg_ttl = lr_ttl (the (T lid)),
        rg_contended = (lid \<in> demand)\<rparr>) (filter (renewable now (rn_device req) T) (rn_leases req)),
      rr_invalid = filter (\<lambda>lid. \<not> renewable now (rn_device req) T lid) (rn_leases req)\<rparr> \<Longrightarrow>
     space_spec sha256 i now (Renew req) bs T (Inr (Renewed resp)) bs (renewed_table now req T)"
| released: "space_spec sha256 i now (Release req) bs T (Inr Released) bs (released_table now req T)"
| listed: "space_spec sha256 i now (ListLeases device) bs T
     (Inr (LeasesListed (map public_lease (filter (\<lambda>rec. is_live rec now \<and> lr_device rec = device)
         (map (the \<circ> T) (sorted_list_of_set (dom T))))))) bs (live_table now T)"
| admitted: "spec_admit sha256 i now T bs req = (res, bs') \<Longrightarrow>
     space_spec sha256 i now (Admit req) bs T (ok_map Admitted res) bs' T"
| pulled: "space_spec sha256 i now (Pull req) bs T (ok_map Pulled (spec_pull bs req)) bs T"
| got: "space_spec sha256 i now (Get keys) bs T (Inr (Got (map (live (entries_of bs)) keys))) bs T"
| paged: "\<not> beyond_prefix req \<Longrightarrow> space_spec sha256 i now (List req) bs T (Inr (Listed (spec_list (entries_of bs) req))) bs T"
| list_panic: "beyond_prefix req \<Longrightarrow> space_spec sha256 i now (List req) bs T
     (Inl (Panic ''range start is greater than range end in BTreeMap'')) bs T"
| cut: "space_spec sha256 i now (ReadAt ranges) bs T
     (Inr (ReadDone \<lparr>rat_at = of_nat (length bs), rat_ranges = map (spec_cut (entries_of bs)) ranges\<rparr>)) bs T"

inductive_cases space_spec_admit: "space_spec sha256 i now (Admit req) bs T res bs' T'"
inductive_cases space_spec_acquire: "space_spec sha256 i now (Acquire req) bs T res bs' T'"

subsection \<open>The representation of a space\<close>

text \<open>Every device's batches are admitted in the order of their device sequence numbers.\<close>

definition dev_ascend :: "AdmittedBatch list \<Rightarrow> bool" where
  "dev_ascend bs \<longleftrightarrow> sorted_wrt (\<lambda>a b. b_device a = b_device b \<longrightarrow> b_device_seq a < b_device_seq b) bs"

lemma dev_ascend_last:
  assumes "dev_ascend bs" "b \<in> set bs"
  shows "b_device_seq b \<le> fst (device_state bs (b_device b))"
  using assms
proof (induction bs rule: rev_induct)
  case (snoc x bs)
  then show ?case by (auto simp: dev_ascend_def device_state_def sorted_wrt_append)
qed simp

lemma check_device_seqs_sorted:
  "check_device_seqs n fb batches = Inr m \<Longrightarrow>
     sorted_wrt (<) (map ab_device_seq batches) \<and> (\<forall>b \<in> set batches. n < ab_device_seq b)"
proof (induction n fb batches rule: check_device_seqs.induct)
  case (2 n fb b bs)
  then have "n < ab_device_seq b" "sorted_wrt (<) (map ab_device_seq bs)" "\<forall>x \<in> set bs. ab_device_seq b < ab_device_seq x"
    by (auto split: if_splits)
  then show ?case by (auto intro: less_trans)
qed simp

lemma spec_admit_dev_ascend:
  assumes "dev_ascend bs" "spec_admit sha256 i now T bs req = (res, bs')"
  shows "dev_ascend bs'"
proof -
  obtain n ck where ds: "device_state bs (ar_device req) = (n, ck)" by fastforce
  have "dev_ascend bs1" if seqs: "check_device_seqs n True (ar_batches req) = Inr m"
    and run: "rfold (spec_batch sha256 i req ck (entries_of bs)) (ck, bs) (ar_batches req) = Inr (ck', bs1)" for m ck' bs1
  proof -
    from spec_loop_new [OF run] obtain new where new: "bs1 = bs @ new" "\<forall>b \<in> set new. b_device b = ar_device req"
      "map b_device_seq new = map ab_device_seq (ar_batches req)" by blast
    note S = check_device_seqs_sorted [OF seqs]
    have "sorted_wrt (<) (map b_device_seq new)" using S new(3) by simp
    then have "sorted_wrt (\<lambda>a b. b_device a = b_device b \<longrightarrow> b_device_seq a < b_device_seq b) new"
      unfolding sorted_wrt_map by (rule sorted_wrt_mono_rel [rotated]) simp
    moreover have "\<forall>s \<in> b_device_seq ` set new. n < s" using S arg_cong [OF new(3), of set] by simp
    then have "b_device_seq a < b_device_seq b" if "a \<in> set bs" "b \<in> set new" "b_device a = b_device b" for a b
      using dev_ascend_last [OF assms(1) that(1)] that(2,3) new(2) ds by (auto intro: order_le_less_trans)
    ultimately show ?thesis using assms(1) unfolding dev_ascend_def new(1) sorted_wrt_append by blast
  qed
  then show ?thesis using assms
    by (auto simp: spec_admit_def ds split: if_splits sum.splits prod.splits)
qed

definition space_ok ::
  "nat \<Rightarrow> Timestamp \<Rightarrow> SpaceId \<Rightarrow> MemoryStore \<Rightarrow> AdmittedBatch list \<Rightarrow> (LeaseId \<rightharpoonup> LeaseRecord) \<Rightarrow> bool" where
  "space_ok n now i st bs T \<longleftrightarrow> data_repr i st bs \<and> lease_ctx (LeaseManager_new i) st T \<and> exclusive now T \<and>
     (\<exists>c. counters i st = Inr c \<and> fresh_ids (next_lease_id c) T \<and> unat (next_lease_id c) \<le> n) \<and>
     length bs \<le> n \<and> length (entries_of bs) \<le> n \<and> dev_ascend bs"

lemma space_okD:
  assumes "space_ok n now i st bs T"
  shows "data_repr i st bs" "lease_ctx (LeaseManager_new i) st T" "exclusive now T" "length bs \<le> n"
    "length (entries_of bs) \<le> n"
    and "\<exists>c. counters i st = Inr c \<and> fresh_ids (next_lease_id c) T \<and> unat (next_lease_id c) \<le> n"
    and "dev_ascend bs"
  using assms by (auto simp: space_ok_def)

lemma data_repr_empty: "data_repr i [] []"
proof -
  have e: "sget i [] s = None" for s by (simp add: sget_def MemoryStore_get_def)
  have "view_ok i [] []"
    unfolding view_ok_def by (auto simp: e agg_ok_empty last_point_def last_range_def)
  then show ?thesis
    by (auto simp: data_repr_def e keys_ok_def MemoryStore_get_def batches_ok_def log_ok_def vers_ascend_def log_cells_def counters_empty
        CountersRecord_default_def device_state_def device_pair_def intro: exI [of _ None])
qed

lemma data_repr_cong:
  assumes "data_repr i st bs" "bt_wf st'" "keys_ok i st'"
    and same: "\<forall>s. wf_skey s \<and> s \<notin> insert KCounters lease_keys \<longrightarrow> sget i st' s = sget i st s"
    and c: "\<exists>n. counters i st' = Inr \<lparr>next_lease_id = n, admission_high_water = of_nat (length bs)\<rparr>"
  shows "data_repr i st' bs"
proof -
  note D = data_reprD [OF assms(1)]
  have k: "sget i st' (KData k) = sget i st (KData k)" if "wf_key k" for k using same that by (simp add: lease_keys_def)
  have r: "sget i st' (KRangeDelete r) = sget i st (KRangeDelete r)" if "wf_range r" for r
    using same that by (simp add: lease_keys_def)
  have n: "sget i st' (node_key n) = sget i st (node_key n)" if "wf_range n" for n
    using same that by (cases n) (simp_all add: lease_keys_def)
  have l: "sget i st' s = sget i st s" if "s \<in> log_keys" "wf_skey s" for s
    using same that log_key_kinds [OF that(1)] by blast
  have d: "sget i st' (KDevice d) = sget i st (KDevice d)" if "wf_id d" for d
    using same that by (simp add: lease_keys_def)
  have "view_ok i st' (entries_of bs)"
    using D(4) unfolding view_ok_def by (simp add: k r n cong: option.case_cong)
  with assms(1-3) c l d show ?thesis unfolding data_repr_def by simp
qed

lemma counters_cong: "sget i st' KCounters = sget i st KCounters \<Longrightarrow> counters i st' = counters i st"
  by (simp add: counters_def sget_def skey_bytes_eqs)

text \<open>A step of another space changes nothing here.\<close>

lemma space_ok_frame:
  assumes S: "space_ok n now i st bs T" and w: "batch_within j K ops" "j \<noteq> i"
  shows "space_ok n now i (MemoryStore_apply ops st) bs T"
proof -
  note D = space_okD [OF S]
  have wf: "bt_wf st" "keys_ok i st" using data_reprD(1,2) [OF D(1)] .
  have same: "sget i (MemoryStore_apply ops st) s = sget i st s" if "wf_skey s" for s
    by (rule sget_frame [OF wf(1) w(1) that]) (use w(2) in blast)
  have c: "counters i (MemoryStore_apply ops st) = counters i st" by (rule counters_cong) (simp add: same)
  have "data_repr i (MemoryStore_apply ops st) bs"
    by (rule data_repr_cong [OF D(1)]) (use wf keys_ok_apply [OF wf w(1)] same c data_reprD(8) [OF D(1)] in auto)
  moreover have "lease_repr i (MemoryStore_apply ops st) T"
    using D(2) same unfolding lease_ctx_def lease_repr_def by (simp add: LeaseManager_new_def)
  ultimately show ?thesis
    using D c keys_ok_apply [OF wf w(1)] unfolding space_ok_def lease_ctx_def by (simp add: LeaseManager_new_def)
qed

lemma space_ok_later: "space_ok n now i st bs T \<Longrightarrow> n \<le> m \<Longrightarrow> now \<le> later \<Longrightarrow> space_ok m later i st bs T"
  unfolding space_ok_def using exclusive_later by (meson le_trans)

text \<open>A lease verb keeps the data plane.\<close>

lemma space_ok_lease_step:
  assumes S: "space_ok n now i st bs T" and w: "batch_within i (insert KCounters lease_keys) ops"
    and "lease_ctx (LeaseManager_new i) (MemoryStore_apply ops st) T'" "exclusive now T'"
    and "counters i st = Inr c" "counters i (MemoryStore_apply ops st) = Inr (c\<lparr>next_lease_id := m\<rparr>)"
    and "fresh_ids m T'" "unat m \<le> n"
  shows "space_ok n now i (MemoryStore_apply ops st) bs T'"
proof -
  note D = space_okD [OF S]
  have wf: "bt_wf st" "keys_ok i st" using data_reprD(1,2) [OF D(1)] .
  have "data_repr i (MemoryStore_apply ops st) bs"
  proof (rule data_repr_cong [OF D(1)])
    show "\<forall>s. wf_skey s \<and> s \<notin> insert KCounters lease_keys \<longrightarrow> sget i (MemoryStore_apply ops st) s = sget i st s"
      using sget_frame [OF wf(1) w] by blast
  qed (use wf keys_ok_apply [OF wf w] data_reprD(8) [OF D(1)] assms(5,6) in auto)
  with assms D show ?thesis unfolding space_ok_def by auto
qed

subsection \<open>Verbs refine the abstract machine\<close>

lemma spec_entries_stamps:
  "spec_entries device device_seq seq log es ies = Inr es' \<Longrightarrow> es' = es @ map (stamp seq) ies"
proof (induction ies arbitrary: es)
  case (Cons ie ies)
  from Cons.prems obtain e where e: "spec_entry device device_seq seq (log @ es) ie = Inr e"
    and rest: "spec_entries device device_seq seq log (es @ [e]) ies = Inr es'"
    by (auto simp: spec_entries_def rbind_Inr_iff)
  have "e = stamp seq ie" using e by (auto simp: spec_entry_def Let_def split: if_splits sum.splits)
  with Cons.IH [OF rest] show ?case by simp
qed (simp add: spec_entries_def)

lemma spec_loop_entries:
  assumes "rfold (spec_batch sha256 space req current log) (ck, bs) batches = Inr (ck', bs')"
  shows "map (map ae_device_entry \<circ> b_entries) bs' = map (map ae_device_entry \<circ> b_entries) bs @ map ab_entries batches"
  using assms
proof (induction batches arbitrary: ck bs)
  case (Cons b batches)
  from Cons.prems obtain acc where acc: "spec_batch sha256 space req current log (ck, bs) b = Inr acc"
    and rest: "rfold (spec_batch sha256 space req current log) acc batches = Inr (ck', bs')"
    by (auto simp: rbind_Inr_iff)
  from acc obtain es nb where es: "spec_entries (ar_device req) (ab_device_seq b) (of_nat (length bs) + 1) (entries_of bs) []
      (enumerate 0 (ab_entries b)) = Inr es" and nb: "snd acc = bs @ [nb]" "b_entries nb = es"
    unfolding spec_batch_def Let_def by (auto simp: rbind_Inr_iff split: if_splits)
  have "map ae_device_entry es = ab_entries b"
    using spec_entries_stamps [OF es] by (simp add: stamp_def comp_def)
  with Cons.IH [of "fst acc" "snd acc"] rest nb show ?case by (cases acc) simp
qed simp

lemma spec_admit_growth:
  assumes "spec_admit sha256 i now T bs req = (res, bs')"
  shows "bs' = bs \<or> (\<exists>new. bs' = bs @ new \<and> map (map ae_device_entry \<circ> b_entries) new = map ab_entries (ar_batches req))"
proof -
  have "\<exists>new. bs1 = bs @ new \<and> map (map ae_device_entry \<circ> b_entries) new = map ab_entries (ar_batches req)"
    if "rfold (spec_batch sha256 i req current (entries_of bs)) (current, bs) (ar_batches req) = Inr (ck, bs1)" for current ck bs1
    using spec_loop_new [OF that] spec_loop_entries [OF that] by auto
  then show ?thesis using assms
    by (auto simp: spec_admit_def split: prod.splits if_splits sum.splits)
qed

lemma spec_admit_lengths:
  assumes "spec_admit sha256 i now T bs req = (res, bs')"
  shows "length bs' \<le> length bs + length (ar_batches req)"
    and "length (entries_of bs') \<le> length (entries_of bs) + length (request_entries req)"
proof -
  have "length (entries_of new) = length (request_entries req) \<and> length new = length (ar_batches req)"
    if m: "map (map ae_device_entry \<circ> b_entries) new = map ab_entries (ar_batches req)" for new
  proof
    have "length (concat (map (map ae_device_entry \<circ> b_entries) new)) = length (request_entries req)"
      unfolding m request_entries_def ..
    then show "length (entries_of new) = length (request_entries req)"
      by (simp add: entries_of_def length_concat comp_def)
    show "length new = length (ar_batches req)" using arg_cong [OF m, of length] by simp
  qed
  with spec_admit_growth [OF assms] show "length bs' \<le> length bs + length (ar_batches req)"
    "length (entries_of bs') \<le> length (entries_of bs) + length (request_entries req)" by auto
qed

lemma u64_of_unat: "unat w = m \<Longrightarrow> w = of_nat m" for w :: u64
  by (drule sym) simp

lemma check_device_seqs_Inl: "check_device_seqs n fb batches = Inl err \<Longrightarrow> \<exists>e. err = Kernel e"
  by (induction n fb batches rule: check_device_seqs.induct) (auto split: if_splits)

lemma spec_entries_Inl: "spec_entries device device_seq seq log es ies = Inl err \<Longrightarrow> \<exists>e. err = Kernel e"
proof (induction ies arbitrary: es)
  case (Cons ie ies)
  show ?case
  proof (cases "spec_entry device device_seq seq (log @ es) ie")
    case (Inl e)
    then show ?thesis using Cons.prems by (auto simp: spec_entries_def spec_entry_def Let_def split: if_splits sum.splits)
  next
    case (Inr e)
    then show ?thesis using Cons by (simp add: spec_entries_def)
  qed
qed (simp add: spec_entries_def)

lemma spec_batch_Inl:
  assumes "spec_batch sha256 space req current log acc b = Inl early"
  shows "(\<exists>e. early = Inl (Kernel e)) \<or> (\<exists>e. early = Inr (failed_response (length (ar_batches req)) e current))"
  using assms spec_entries_Inl unfolding spec_batch_def Let_def
  by (cases "spec_entries (ar_device req) (ab_device_seq b) (of_nat (length (snd acc)) + 1) (entries_of (snd acc)) []
      (enumerate 0 (ab_entries b))") (auto split: if_splits)

lemma spec_loop_Inl:
  assumes "rfold (spec_batch sha256 space req current log) acc batches = Inl early"
  shows "batches \<noteq> [] \<and> ((\<exists>e. early = Inl (Kernel e)) \<or> (\<exists>e. early = Inr (failed_response (length (ar_batches req)) e current)))"
  using assms
proof (induction batches arbitrary: acc)
  case (Cons b batches)
  then show ?case
    by (cases "spec_batch sha256 space req current log acc b") (use spec_batch_Inl in auto)
qed simp

lemma reservation_Inl: "reservation now device T req = Inl err \<Longrightarrow> \<exists>e. err = Kernel e"
  by (auto simp: reservation_def split: option.splits)

text \<open>The three kinds of outcome: rejected, failed by a range assertion, applied.\<close>

lemma spec_admit_outcome:
  assumes "spec_admit sha256 i now T bs req = (r, bs')"
  shows "bs' = bs \<and> ((\<exists>err. r = Inl (Kernel err)) \<or> (\<exists>resp err. r = Inr resp \<and> ar_batches req \<noteq> [] \<and>
      resp_results resp = replicate (length (ar_batches req)) (Failed err))) \<or>
    (\<exists>new resp. r = Inr resp \<and> bs' = bs @ new \<and> resp_results resp = map (Applied \<circ> b_admission_seq) new \<and>
      map (map ae_device_entry \<circ> b_entries) new = map ab_entries (ar_batches req) \<and>
      map b_device_seq new = map ab_device_seq (ar_batches req) \<and> (\<forall>b \<in> set new. b_device b = ar_device req))"
proof -
  obtain n ck where ds: "device_state bs (ar_device req) = (n, ck)" by fastforce
  note S = assms [unfolded spec_admit_def ds prod.case]
  show ?thesis
  proof (cases "ar_expected_checksum req = ck \<and> (\<exists>m. check_device_seqs n True (ar_batches req) = Inr m) \<and>
      reservation now (ar_device req) T req = Inr ()")
    case False
    then have "(\<exists>err. r = Inl (Kernel err)) \<and> bs' = bs"
      using S check_device_seqs_Inl [of n True "ar_batches req"] reservation_Inl [of now "ar_device req" T req]
      by (cases "check_device_seqs n True (ar_batches req)"; cases "reservation now (ar_device req) T req")
        (auto split: if_splits)
    then show ?thesis by blast
  next
    case True
    let ?loop = "rfold (spec_batch sha256 i req ck (entries_of bs)) (ck, bs) (ar_batches req)"
    show ?thesis
    proof (cases ?loop)
      case (Inl early)
      with True S spec_loop_Inl [OF Inl] show ?thesis
        by (auto simp: failed_response_def map_replicate_const)
    next
      case (Inr acc)
      then obtain ck' bs1 where run: "?loop = Inr (ck', bs1)" by (cases acc) simp
      from spec_loop_new [OF run] spec_loop_entries [OF run] obtain new where new: "bs1 = bs @ new"
        "map (map ae_device_entry \<circ> b_entries) new = map ab_entries (ar_batches req)"
        "map b_device_seq new = map ab_device_seq (ar_batches req)" "\<forall>b \<in> set new. b_device b = ar_device req" by auto
      have "r = Inr \<lparr>resp_checksum = ck', resp_results = map (Applied \<circ> b_admission_seq) new\<rparr>" "bs' = bs @ new"
        using True S run new(1) by auto
      with new show ?thesis 
        by (intro disjI2 exI [of _ new] exI [of _ "\<lparr>resp_checksum = ck', resp_results = map (Applied \<circ> b_admission_seq) new\<rparr>"]) simp
    qed
  qed
qed

definition machine_of :: "SpaceId \<Rightarrow> Space \<Rightarrow> bool" where
  "machine_of i sp \<longleftrightarrow> sp_id sp = i \<and> lm_space (sp_leases sp) = i"

lemma machine_of_new [simp]: "machine_of i (Space_new i)"
  by (simp add: machine_of_def Space_new_def LeaseManager_new_def)

text \<open>What one dispatched command establishes.\<close>

definition refined_step ::
  "(bytes \<Rightarrow> bytes) \<Rightarrow> nat \<Rightarrow> Timestamp \<Rightarrow> SpaceId \<Rightarrow> Command \<Rightarrow> Space \<Rightarrow> MemoryStore \<Rightarrow> AdmittedBatch list \<Rightarrow>
   (LeaseId \<rightharpoonup> LeaseRecord) \<Rightarrow> bool" where
  "refined_step sha256 n now i cmd sp st bs T \<longleftrightarrow>
     (\<exists>res sp' ops bs' T'. dispatch sha256 now cmd sp st = (res, sp', MemoryStore_apply ops st) \<and> machine_of i sp' \<and>
        batch_within i UNIV ops \<and> space_spec sha256 i now cmd bs T res bs' T' \<and>
        space_ok (n + command_volume cmd) now i (MemoryStore_apply ops st) bs' T')"

lemma refined_stepI:
  assumes "dispatch sha256 now cmd sp st = (res, sp', MemoryStore_apply ops st)" "machine_of i sp'"
    "batch_within i K ops" "space_spec sha256 i now cmd bs T res bs' T'"
    "space_ok (n + command_volume cmd) now i (MemoryStore_apply ops st) bs' T'"
  shows "refined_step sha256 n now i cmd sp st bs T"
  unfolding refined_step_def using assms batch_within_mono [OF assms(3), of UNIV] by blast

lemma admit_step:
  assumes S: "space_ok n now i st bs T" and m: "machine_of i sp" and w: "wf_id i" "wf_request req"
    and sha: "\<forall>x. length (sha256 x) = 32" and small: "n + command_volume (Admit req) + 1 < 2 ^ 64"
  shows "refined_step sha256 n now i (Admit req) sp st bs T"
proof -
  note D = space_okD [OF S]
  obtain res bs' where spec: "spec_admit sha256 i now T bs req = (res, bs')" by fastforce
  have b: "within_bounds bs req" using small D(4,5) by (simp add: within_bounds_def)
  have L: "lease_ctx (sp_leases sp) st T" "lm_space (sp_leases sp) = i"
    using D(2) m lease_ctx_cong [of "sp_leases sp" "LeaseManager_new i"] by (simp_all add: machine_of_def LeaseManager_new_def)
  from D(6) obtain c where c: "counters i st = Inr c" "fresh_ids (next_lease_id c) T" "unat (next_lease_id c) \<le> n" by blast
  show ?thesis
  proof (rule admit_outcome [OF D(1) L w sha b spec])
    fix ops
    assume o: "admit sha256 i (sp_leases sp) st now req = (res, MemoryStore_apply ops st)" "batch_within i (- lease_keys) ops"
      "data_repr i (MemoryStore_apply ops st) bs'"
      and oc: "\<And>c. counters i st = Inr c \<Longrightarrow>
        counters i (MemoryStore_apply ops st) = Inr (c\<lparr>admission_high_water := of_nat (length bs')\<rparr>)"
    have "lease_ctx (LeaseManager_new i) (MemoryStore_apply ops st) T"
      using lease_ctx_frame [OF D(2)] o(2) by (simp add: LeaseManager_new_def)
    then have "space_ok (n + command_volume (Admit req)) now i (MemoryStore_apply ops st) bs' T"
      using o(3) D(3-5) oc [OF c(1)] c(2,3) spec_admit_lengths [OF spec]
        spec_admit_dev_ascend [OF D(7) spec] unfolding space_ok_def by simp
    then show ?thesis
      by (intro refined_stepI [OF _ m o(2) space_spec.admitted [OF spec]])
        (use o(1) m in \<open>simp_all add: Space_admit_def machine_of_def\<close>)
  qed
qed

lemma lease_ctx_machine:
  assumes "machine_of i sp"
  shows "lease_ctx (sp_leases sp) st T \<longleftrightarrow> lease_ctx (LeaseManager_new i) st T"
  using assms lease_ctx_cong [of "sp_leases sp" "LeaseManager_new i"] by (simp add: machine_of_def LeaseManager_new_def)

lemma granted_fresh:
  assumes "fresh_ids (next_lease_id c) T" "unat (next_lease_id c) + length specs < 2 ^ 64"
  shows "fresh_ids (next_lease_id c + of_nat (length specs)) (granted_table (granted_records now req c specs) T)"
  unfolding fresh_ids_def
proof
  fix lid
  assume "lid \<in> dom (granted_table (granted_records now req c specs) T)"
  then obtain rec where "granted_table (granted_records now req c specs) T lid = Some rec" by blast
  from granted_table_Some [OF this] show "lid < next_lease_id c + of_nat (length specs)"
  proof
    assume "\<exists>k < length (granted_records now req c specs). lid = lr_id (granted_records now req c specs ! k) \<and>
        rec = norm_lease (granted_records now req c specs ! k)"
    then obtain k where "k < length specs" "lid = lr_id (granted_records now req c specs ! k)" by auto
    then show ?thesis using granted_ids [OF assms(2), of k now req] assms(2) by (simp add: word_less_nat_alt of_nat_add_u64)
  next
    assume "T lid = Some rec"
    then have "lid < next_lease_id c" using assms(1) by (auto simp: fresh_ids_def)
    then show ?thesis using assms(2) by (simp add: word_less_nat_alt of_nat_add_u64)
  qed
qed

lemma acquire_step:
  assumes S: "space_ok n now i st bs T" and m: "machine_of i sp" and w: "wf_acquire req"
    and small: "n + command_volume (Acquire req) + 1 < 2 ^ 64"
  shows "refined_step sha256 n now i (Acquire req) sp st bs T"
proof -
  note D = space_okD [OF S]
  from D(6) obtain c where c: "counters i st = Inr c" "fresh_ids (next_lease_id c) T" "unat (next_lease_id c) \<le> n" by blast
  have hw: "c = \<lparr>next_lease_id = next_lease_id c, admission_high_water = of_nat (length bs)\<rparr>"
    using c(1) data_reprD(8) [OF D(1)] by (cases c) auto
  obtain res mgr' st' where run: "LeaseManager_acquire (sp_leases sp) st now req = (res, mgr', st')" by (metis prod_cases3)
  have L: "lease_ctx (sp_leases sp) st T" "lm_space (sp_leases sp) = i"
    using D(2) m lease_ctx_machine by (auto simp: machine_of_def)
  have sm: "unat (next_lease_id c) + length (aq_specs req) < 2 ^ 64" using small c(3) by simp
  have S': "space_ok (n + length (aq_specs req)) now i st bs T" by (rule space_ok_later [OF S]) simp_all
  let ?recs = "granted_records now req c (aq_specs req)"
  obtain T1 where p: "purged now T T1"
    and out: "(\<forall>spec \<in> set (aq_specs req). blocking now T spec = {}) \<and> acquire_self_overlap (aq_specs req) = None \<and>
        mgr' = sp_leases sp \<and> res = Inr (map public_lease ?recs) \<and> lease_ctx (sp_leases sp) st' (granted_table ?recs T1) \<and>
        exclusive now (granted_table ?recs T1) \<and>
        counters i st' = Inr (c\<lparr>next_lease_id := next_lease_id c + of_nat (length (aq_specs req))\<rparr>) \<or>
      lm_space mgr' = i \<and> lease_ctx (sp_leases sp) st' T1 \<and> counters i st' = Inr c \<and>
        ((\<exists>spec \<in> set (aq_specs req). \<exists>w. blocking now T spec \<noteq> {} \<and>
            res = Inl (Kernel (Contended (ls_prefix spec) (Some (from_millis w)))) \<and>
            (\<forall>rec \<in> blocking now T spec. \<not> is_live rec (now + w) \<and> lr_id rec \<in> lm_demand mgr')) \<or>
         (\<exists>p. (\<forall>spec \<in> set (aq_specs req). blocking now T spec = {}) \<and> mgr' = sp_leases sp \<and>
            acquire_self_overlap (aq_specs req) = Some p \<and> res = Inl (Kernel (Contended p None))))"
    and ops: "\<exists>ops. st' = MemoryStore_apply ops st \<and> batch_within i (lease_keys \<union> {KCounters}) ops"
    by (rule acquire_outcome [OF L(1) w _ c(2) D(3) sm run]) (use c(1) L(2) in simp_all)
  from ops obtain ops where st': "st' = MemoryStore_apply ops st" and win: "batch_within i (insert KCounters lease_keys) ops" by auto
  have run': "dispatch sha256 now (Acquire req) sp st = (ok_map Acquired res, sp\<lparr>sp_leases := mgr'\<rparr>, MemoryStore_apply ops st)"
    using run st' by (simp add: Space_acquire_def)
  note ctx = lease_ctx_machine [OF m] and step = space_ok_lease_step [OF S' win _ _ c(1)]
  from out show ?thesis
  proof
    assume g: "(\<forall>spec \<in> set (aq_specs req). blocking now T spec = {}) \<and> acquire_self_overlap (aq_specs req) = None \<and>
        mgr' = sp_leases sp \<and> res = Inr (map public_lease ?recs) \<and> lease_ctx (sp_leases sp) st' (granted_table ?recs T1) \<and>
        exclusive now (granted_table ?recs T1) \<and>
        counters i st' = Inr (c\<lparr>next_lease_id := next_lease_id c + of_nat (length (aq_specs req))\<rparr>)"
    have "space_ok (n + length (aq_specs req)) now i (MemoryStore_apply ops st) bs (granted_table ?recs T1)"
      by (rule step [of _ "next_lease_id c + of_nat (length (aq_specs req))"])
        (use g ctx st' granted_fresh [OF purged_fresh [OF p c(2)] sm] c(3) sm in \<open>simp_all add: of_nat_add_u64\<close>)
    moreover have "space_spec sha256 i now (Acquire req) bs T (Inr (Acquired (map public_lease ?recs))) bs (granted_table ?recs T1)"
      by (rule space_spec.granted [OF _ _ p hw c(2) refl]) (use g in simp_all)
    ultimately show ?thesis
      by (intro refined_stepI [OF run' _ win]) (use g m in \<open>simp_all add: machine_of_def\<close>)
  next
    assume f: "lm_space mgr' = i \<and> lease_ctx (sp_leases sp) st' T1 \<and> counters i st' = Inr c \<and>
        ((\<exists>spec \<in> set (aq_specs req). \<exists>w. blocking now T spec \<noteq> {} \<and>
            res = Inl (Kernel (Contended (ls_prefix spec) (Some (from_millis w)))) \<and>
            (\<forall>rec \<in> blocking now T spec. \<not> is_live rec (now + w) \<and> lr_id rec \<in> lm_demand mgr')) \<or>
         (\<exists>p. (\<forall>spec \<in> set (aq_specs req). blocking now T spec = {}) \<and> mgr' = sp_leases sp \<and>
            acquire_self_overlap (aq_specs req) = Some p \<and> res = Inl (Kernel (Contended p None))))"
    have ok: "space_ok (n + length (aq_specs req)) now i (MemoryStore_apply ops st) bs T1"
      by (rule step [of _ "next_lease_id c"])
        (use f ctx st' purged_fresh [OF p c(2)] purged_exclusive [OF p D(3)] c(3) in simp_all)
    from f consider (other) spec w where "spec \<in> set (aq_specs req)" "blocking now T spec \<noteq> {}"
        "res = Inl (Kernel (Contended (ls_prefix spec) (Some (from_millis w))))" "\<forall>rec \<in> blocking now T spec. \<not> is_live rec (now + w)"
      | (self) q where "\<forall>spec \<in> set (aq_specs req). blocking now T spec = {}" "acquire_self_overlap (aq_specs req) = Some q"
        "res = Inl (Kernel (Contended q None))" by blast
    then have "space_spec sha256 i now (Acquire req) bs T (ok_map Acquired res) bs T1"
      by cases (use space_spec.blocked [OF _ _ _ p] space_spec.self_blocked [OF _ _ p] in simp_all)
    then show ?thesis
      by (intro refined_stepI [OF run' _ win]) (use f m ok in \<open>simp_all add: machine_of_def\<close>)
  qed
qed

text \<open>The verbs that only move lease records.\<close>

lemma lease_only_step:
  assumes S: "space_ok n now i st bs T" and m: "machine_of i sp"
    and "lease_ctx (sp_leases sp) (MemoryStore_apply ops st) T'" "batch_within i lease_keys ops" "exclusive now T'"
    and "\<And>k. fresh_ids k T \<Longrightarrow> fresh_ids k T'"
  shows "space_ok n now i (MemoryStore_apply ops st) bs T'"
proof -
  note D = space_okD [OF S]
  from D(6) obtain c where c: "counters i st = Inr c" "fresh_ids (next_lease_id c) T" "unat (next_lease_id c) \<le> n" by blast
  have "sget i (MemoryStore_apply ops st) KCounters = sget i st KCounters"
    by (rule sget_frame [OF data_reprD(1) [OF D(1)] assms(4)]) simp_all
  from counters_cong [OF this] have "counters i (MemoryStore_apply ops st) = Inr (c\<lparr>next_lease_id := next_lease_id c\<rparr>)"
    using c(1) by simp
  with assms c show ?thesis
    by (intro space_ok_lease_step [OF S batch_within_mono [OF assms(4)]]) (auto simp: lease_ctx_machine)
qed

lemma fresh_ids_submap: "fresh_ids k T \<Longrightarrow> (\<And>lid rec. T' lid = Some rec \<Longrightarrow> T lid = Some rec) \<Longrightarrow> fresh_ids k T'"
  by (fastforce simp: fresh_ids_def)

lemma released_fresh: "fresh_ids k T \<Longrightarrow> fresh_ids k (released_table now req T)"
  by (erule fresh_ids_submap) (rule released_Some)

lemma live_table_fresh: "fresh_ids k T \<Longrightarrow> fresh_ids k (live_table now T)"
  by (erule fresh_ids_submap) (rule live_table_Some)

lemma renew_step:
  assumes S: "space_ok n now i st bs T" and m: "machine_of i sp" and w: "wf_stamp (rn_requested_at req)"
  shows "refined_step sha256 n now i (Renew req) sp st bs T"
proof -
  have L: "lease_ctx (sp_leases sp) st T" "lm_space (sp_leases sp) = i"
    using space_okD(2) [OF S] m lease_ctx_machine by (auto simp: machine_of_def)
  show ?thesis
  proof (rule renew_outcome [OF L(1) w, of now])
    fix ops
    assume o: "LeaseManager_renew (sp_leases sp) st now req =
      (Inr \<lparr>rr_granted = map (\<lambda>lid. \<lparr>rg_id = lid, rg_granted_at = now, rg_ttl = lr_ttl (the (T lid)),
              rg_contended = (lid \<in> lm_demand (sp_leases sp))\<rparr>) (filter (renewable now (rn_device req) T) (rn_leases req)),
            rr_invalid = filter (\<lambda>lid. \<not> renewable now (rn_device req) T lid) (rn_leases req)\<rparr>,
       sp_leases sp, MemoryStore_apply ops st)" "lease_ctx (sp_leases sp) (MemoryStore_apply ops st) (renewed_table now req T)"
      "batch_within (lm_space (sp_leases sp)) lease_keys ops"
    have "space_ok n now i (MemoryStore_apply ops st) bs (renewed_table now req T)"
      by (rule lease_only_step [OF S m o(2)])
        (use o(3) L(2) renewed_exclusive [OF space_okD(3) [OF S]] renewed_fresh in simp_all)
    then show ?thesis
      by (intro refined_stepI [OF _ m o(3) [unfolded L(2)] space_spec.renewed [where demand = "lm_demand (sp_leases sp)", OF refl]])
        (use o(1) m in \<open>simp_all add: Space_renew_def machine_of_def\<close>)
  qed
qed

lemma release_step:
  assumes S: "space_ok n now i st bs T" and m: "machine_of i sp"
  shows "refined_step sha256 n now i (Release req) sp st bs T"
proof -
  have L: "lease_ctx (sp_leases sp) st T" "lm_space (sp_leases sp) = i"
    using space_okD(2) [OF S] m lease_ctx_machine by (auto simp: machine_of_def)
  show ?thesis
  proof (rule release_outcome [OF L(1), of now req])
    fix ops demand
    assume o: "LeaseManager_release (sp_leases sp) st now req = (Inr (), (sp_leases sp)\<lparr>lm_demand := demand\<rparr>, MemoryStore_apply ops st)"
      "lease_ctx (sp_leases sp) (MemoryStore_apply ops st) (released_table now req T)"
      "batch_within (lm_space (sp_leases sp)) lease_keys ops"
    have "space_ok n now i (MemoryStore_apply ops st) bs (released_table now req T)"
      by (rule lease_only_step [OF S m o(2)])
        (use o(3) L(2) released_exclusive [OF space_okD(3) [OF S]] released_fresh in simp_all)
    then show ?thesis
      by (intro refined_stepI [where sp' = "sp\<lparr>sp_leases := (sp_leases sp)\<lparr>lm_demand := demand\<rparr>\<rparr>", OF _ _ o(3) [unfolded L(2)] space_spec.released])
        (use o(1) m in \<open>simp_all add: Space_release_def machine_of_def\<close>)
  qed
qed

lemma list_leases_step:
  assumes S: "space_ok n now i st bs T" and m: "machine_of i sp"
  shows "refined_step sha256 n now i (ListLeases device) sp st bs T"
proof -
  have L: "lease_ctx (sp_leases sp) st T" "lm_space (sp_leases sp) = i"
    using space_okD(2) [OF S] m lease_ctx_machine by (auto simp: machine_of_def)
  show ?thesis
  proof (rule list_leases_outcome [OF L(1), of now device])
    fix ops
    assume o: "LeaseManager_list_leases (sp_leases sp) st now device =
      (Inr (map public_lease (filter (\<lambda>rec. is_live rec now \<and> lr_device rec = device)
         (map (the \<circ> T) (sorted_list_of_set (dom T))))), sp_leases sp, MemoryStore_apply ops st)"
      "lease_ctx (sp_leases sp) (MemoryStore_apply ops st) (live_table now T)"
      "batch_within (lm_space (sp_leases sp)) lease_keys ops"
    have "space_ok n now i (MemoryStore_apply ops st) bs (live_table now T)"
      by (rule lease_only_step [OF S m o(2)])
        (use o(3) L(2) live_table_exclusive [OF space_okD(3) [OF S]] live_table_fresh in simp_all)
    then show ?thesis
      by (intro refined_stepI [OF _ m o(3) [unfolded L(2)] space_spec.listed])
        (use o(1) m in \<open>simp_all add: Space_list_leases_def machine_of_def\<close>)
  qed
qed

text \<open>The reads leave the store alone.\<close>

lemma read_step:
  assumes S: "space_ok n now i st bs T" and m: "machine_of i sp"
    and "dispatch sha256 now cmd sp st = (res, sp, st)" "space_spec sha256 i now cmd bs T res bs T"
  shows "refined_step sha256 n now i cmd sp st bs T"
  using space_ok_later [OF S le_add1 order_refl, of "command_volume cmd"] assms(2-)
  by (intro refined_stepI [of _ _ _ _ _ _ sp "[]" _ UNIV]) (simp_all add: MemoryStore_apply_def)

theorem dispatch_refines:
  assumes S: "space_ok n now i st bs T" and m: "machine_of i sp" and w: "wf_id i" "wf_command cmd"
    and sha: "\<forall>x. length (sha256 x) = 32" and small: "n + command_volume cmd + 1 < 2 ^ 64"
  shows "refined_step sha256 n now i cmd sp st bs T"
proof -
  note D = space_okD [OF S]
  have b: "length bs + 1 < 2 ^ 64" using D(4) small by simp
  have sp: "sp_id sp = i" using m by (simp add: machine_of_def)
  show ?thesis
  proof (cases cmd)
    case (Acquire req)
    then show ?thesis using acquire_step [OF S m] w small by simp
  next
    case (Renew req)
    then show ?thesis using renew_step [OF S m] w by simp
  next
    case (Release req)
    then show ?thesis using release_step [OF S m] by simp
  next
    case (ListLeases device)
    then show ?thesis using list_leases_step [OF S m] by simp
  next
    case (Admit req)
    then show ?thesis using admit_step [OF S m w(1) _ sha] w small by simp
  next
    case (Pull req)
    have "pull i st req = spec_pull bs req"
      using pull_view [OF D(1) w(1) b refl, of req] by (simp add: spec_pull_def Let_def)
    with Pull sp space_spec.pulled show ?thesis by (intro read_step [OF S m]) (auto simp: Space_pull_def)
  next
    case (Get keys)
    then have "get i st keys = Inr (map (live (entries_of bs)) keys)"
      using get_view [OF data_reprD(4,5) [OF D(1)] w(1)] w(2) by simp
    with Get sp space_spec.got show ?thesis by (intro read_step [OF S m]) (auto simp: Space_get_def)
  next
    case (List req)
    show ?thesis
    proof (cases "beyond_prefix req")
      case True
      then have "list_entries i st req = Inl (Panic ''range start is greater than range end in BTreeMap'')"
        using list_entries_panics by (auto simp: beyond_prefix_def)
      with True List sp space_spec.list_panic show ?thesis by (intro read_step [OF S m]) (auto simp: Space_list_def)
    next
      case False
      then have "list_entries i st req = Inr (spec_list (entries_of bs) req)"
        using list_entries_view [OF D(1) w(1) _ refl, of req] unfolding beyond_prefix_def spec_list_def Let_def by blast
      with False List sp space_spec.paged show ?thesis by (intro read_step [OF S m]) (auto simp: Space_list_def)
    qed
  next
    case (ReadAt ranges)
    then have "read_at i st ranges = Inr \<lparr>rat_at = of_nat (length bs), rat_ranges = map (spec_cut (entries_of bs)) ranges\<rparr>"
      using read_at_view [OF D(1) w(1) b] w(2) by simp
    with ReadAt sp space_spec.cut show ?thesis by (intro read_step [OF S m]) (auto simp: Space_read_at_def)
  qed
qed

end
