(* ===== verification/Servers.thy ===== *)
theory Servers
  imports Reach
begin

text \<open>
  Mailboxes and servers.  \<open>spec_run\<close> lifts the abstract machine to a mailbox, \<open>server_reach\<close> is
  the set of servers reachable from an empty store, and \<open>server_inv\<close> is their invariant.  The
  properties of whole executions are stated here: mutual exclusion of leases, the immutability of
  the admission log, isolation of spaces and the effect of a panic.
\<close>

subsection \<open>A mailbox\<close>

inductive spec_run ::
  "(bytes \<Rightarrow> bytes) \<Rightarrow> SpaceId \<Rightarrow> (Timestamp \<times> Command) list \<Rightarrow> AdmittedBatch list \<Rightarrow> (LeaseId \<rightharpoonup> LeaseRecord) \<Rightarrow>
   (SpaceError + Reply) list \<Rightarrow> AdmittedBatch list \<Rightarrow> (LeaseId \<rightharpoonup> LeaseRecord) \<Rightarrow> bool"
  for sha256 i where
  drained: "spec_run sha256 i [] bs T [] bs T"
| answered: "space_spec sha256 i now cmd bs T res bs1 T1 \<Longrightarrow> reply_of res = Some r \<Longrightarrow>
     spec_run sha256 i inbox bs1 T1 rs bs' T' \<Longrightarrow> spec_run sha256 i ((now, cmd) # inbox) bs T (r # rs) bs' T'"
| panicked: "space_spec sha256 i now cmd bs T res bs1 T1 \<Longrightarrow> reply_of res = None \<Longrightarrow>
     spec_run sha256 i ((now, cmd) # inbox) bs T
       (map (\<lambda>_. Inl (Unavailable ''space actor dropped mid-request'')) ((now, cmd) # inbox)) bs1 T1"

fun ascending_times :: "Timestamp \<Rightarrow> (Timestamp \<times> Command) list \<Rightarrow> bool" where
  "ascending_times now [] \<longleftrightarrow> True"
| "ascending_times now ((now', cmd) # inbox) \<longleftrightarrow> now \<le> now' \<and> ascending_times now' inbox"

definition volume :: "(Timestamp \<times> Command) list \<Rightarrow> nat" where
  "volume inbox = sum_list (map (command_volume \<circ> snd) inbox)"

lemma run_refines:
  assumes "space_ok n now i st bs T" "machine_of i sp" "wf_id i" "\<forall>x. length (sha256 x) = 32"
    and "list_all (wf_command \<circ> snd) inbox" "ascending_times now inbox" "n + volume inbox + 1 < 2 ^ 64"
  shows "\<exists>replies h ops bs' T' now'. SpaceActor_run sha256 inbox sp st = (replies, h, MemoryStore_apply ops st) \<and>
    pred_option (machine_of i) h \<and> batch_within i UNIV ops \<and> spec_run sha256 i inbox bs T replies bs' T' \<and>
    space_ok (n + volume inbox) now' i (MemoryStore_apply ops st) bs' T'"
  using assms(1,2,5-)
proof (induction inbox arbitrary: n now sp st bs T)
  case Nil
  then show ?case
    by (intro exI [of _ "[]"] exI [of _ "Some sp"] exI [of _ bs] exI [of _ T] exI [of _ now])
      (simp add: spec_run.drained volume_def MemoryStore_apply_def)
next
  case (Cons x inbox)
  obtain t cmd where x: "x = (t, cmd)" by (cases x)
  have t: "now \<le> t" "ascending_times t inbox" "wf_command cmd" "list_all (wf_command \<circ> snd) inbox"
    and v: "volume (x # inbox) = command_volume cmd + volume inbox"
    using Cons.prems x by (simp_all add: volume_def comp_def)
  have "refined_step sha256 n t i cmd sp st bs T"
    by (rule dispatch_refines [OF space_ok_later [OF Cons.prems(1) order_refl t(1)] Cons.prems(2) assms(3) t(3) assms(4)])
      (use Cons.prems(5) v in simp)
  then obtain res sp1 ops1 bs1 T1 where d: "dispatch sha256 t cmd sp st = (res, sp1, MemoryStore_apply ops1 st)"
    and m1: "machine_of i sp1" and w1: "batch_within i UNIV ops1" and s1: "space_spec sha256 i t cmd bs T res bs1 T1"
    and ok1: "space_ok (n + command_volume cmd) t i (MemoryStore_apply ops1 st) bs1 T1"
    unfolding refined_step_def by blast
  show ?case
  proof (cases "reply_of res")
    case None
    have ok: "space_ok (n + volume (x # inbox)) t i (MemoryStore_apply ops1 st) bs1 T1"
      by (rule space_ok_later [OF ok1]) (simp_all add: v)
    from None d w1 spec_run.panicked [OF s1 None, of inbox] ok x show ?thesis
      by (intro exI [of _ "map (\<lambda>_. Inl (Unavailable ''space actor dropped mid-request'')) (x # inbox)"] exI [of _ None]
          exI [of _ ops1] exI [of _ bs1] exI [of _ T1] exI [of _ t]) simp
  next
    case (Some r)
    from Cons.IH [OF ok1 m1 t(4,2)] Cons.prems(5) v
    obtain rs h ops2 bs' T' now' where r: "SpaceActor_run sha256 inbox sp1 (MemoryStore_apply ops1 st) =
        (rs, h, MemoryStore_apply ops2 (MemoryStore_apply ops1 st))" "pred_option (machine_of i) h" "batch_within i UNIV ops2"
      "spec_run sha256 i inbox bs1 T1 rs bs' T'"
      "space_ok (n + command_volume cmd + volume inbox) now' i (MemoryStore_apply ops2 (MemoryStore_apply ops1 st)) bs' T'"
      by (auto simp: add.assoc)
    have two: "MemoryStore_apply (ops1 @ ops2) st = MemoryStore_apply ops2 (MemoryStore_apply ops1 st)"
      by (simp add: MemoryStore_apply_def)
    from Some d r w1 spec_run.answered [OF s1 Some r(4)] x v two show ?thesis
      by (intro exI [of _ "r # rs"] exI [of _ h] exI [of _ "ops1 @ ops2"] exI [of _ bs'] exI [of _ T'] exI [of _ now'])
        (simp add: add.assoc)
  qed
qed

subsection \<open>Reachable servers\<close>

inductive server_run ::
  "(bytes \<Rightarrow> bytes) \<Rightarrow> nat \<Rightarrow> Timestamp \<Rightarrow> Server \<Rightarrow> nat \<Rightarrow> Timestamp \<Rightarrow> Server \<Rightarrow> bool"
  for sha256 n0 now0 sv0 where
  stopped: "server_run sha256 n0 now0 sv0 n0 now0 sv0"
| registered: "server_run sha256 n0 now0 sv0 n now sv \<Longrightarrow> wf_id i \<Longrightarrow>
     server_run sha256 n0 now0 sv0 n now (snd (create_space i sv))"
| called: "server_run sha256 n0 now0 sv0 n now sv \<Longrightarrow> now \<le> now' \<Longrightarrow> wf_command cmd \<Longrightarrow>
     n + command_volume cmd + 1 < 2 ^ 64 \<Longrightarrow>
     server_run sha256 n0 now0 sv0 (n + command_volume cmd) now' (snd (Server_call sha256 now' i cmd sv))"

definition server_reach :: "(bytes \<Rightarrow> bytes) \<Rightarrow> nat \<Rightarrow> Timestamp \<Rightarrow> Server \<Rightarrow> bool" where
  "server_reach sha256 n now sv \<longleftrightarrow> (\<exists>start. server_run sha256 0 start (Server_new []) n now sv)"

definition server_inv :: "nat \<Rightarrow> Timestamp \<Rightarrow> Server \<Rightarrow> bool" where
  "server_inv n now sv \<longleftrightarrow> bt_wf (sv_spaces sv) \<and>
     (\<forall>i slot. bt_get (sv_spaces sv) i = Some slot \<longrightarrow> wf_id i \<and> pred_option (pred_option (machine_of i)) slot) \<and>
     (\<forall>i. wf_id i \<longrightarrow> (\<exists>bs T. space_ok n now i (sv_store sv) bs T))"

lemma space_ok_empty: "space_ok n now i [] [] Map.empty"
  by (simp add: space_ok_def data_repr_empty lease_ctx_empty counters_empty exclusive_def fresh_ids_def CountersRecord_default_def dev_ascend_def)

lemma server_inv_new: "server_inv n now (Server_new [])"
  unfolding server_inv_def Server_new_def using space_ok_empty by simp blast

lemma create_space_inv:
  assumes "server_inv n now sv" "wf_id i"
  shows "server_inv n now (snd (create_space i sv))"
  using assms by (auto simp: server_inv_def create_space_def split: option.split)

lemma Server_space_inv:
  assumes "server_inv n now sv" "Server_space i sv = (found, sv')"
  shows "server_inv n now sv'" "sv_store sv' = sv_store sv"
    and "found = Some handle \<Longrightarrow> wf_id i \<and> pred_option (machine_of i) handle \<and> bt_get (sv_spaces sv') i = Some (Some handle)"
    and "(found = None) = (bt_get (sv_spaces sv) i = None)"
  using assms by (auto simp: server_inv_def Server_space_def Let_def split: option.splits if_splits)
    (metis option.pred_inject(2))

text \<open>The server step: an unregistered space, an actor that is gone, or a refined step of the space.\<close>

definition reply_or_dropped :: "Error + Reply \<Rightarrow> SpaceError + Reply" where
  "reply_or_dropped res = (case reply_of res of
     None \<Rightarrow> Inl (Unavailable ''space actor dropped mid-request'') | Some r \<Rightarrow> r)"

lemma Server_call_cases:
  assumes inv: "server_inv n now sv" and t: "now \<le> now'" and w: "wf_command cmd" and sha: "\<forall>x. length (sha256 x) = 32"
    and small: "n + command_volume cmd + 1 < 2 ^ 64" and call: "Server_call sha256 now' i cmd sv = (reply, sv')"
  obtains (unregistered) "bt_get (sv_spaces sv) i = None" "reply = None" "sv' = sv"
  | (gone) "bt_get (sv_spaces sv) i = Some (Some None)" "reply = Some (Inl (Unavailable ''space actor has shut down''))"
      "sv_store sv' = sv_store sv" "server_inv n now sv'" "bt_get (sv_spaces sv') i = Some (Some None)"
  | (served) sp res sp' ops bs T bs' T' where "wf_id i" "machine_of i sp" "space_ok n now i (sv_store sv) bs T"
      "dispatch sha256 now' cmd sp (sv_store sv) = (res, sp', MemoryStore_apply ops (sv_store sv))"
      "reply = Some (reply_or_dropped res)" "sv_store sv' = MemoryStore_apply ops (sv_store sv)" "batch_within i UNIV ops"
      "space_spec sha256 i now' cmd bs T res bs' T'" "space_ok (n + command_volume cmd) now' i (sv_store sv') bs' T'"
      "sv_spaces sv' = bt_insert i (Some (if reply_of res = None then None else Some sp')) (sv_spaces (snd (Server_space i sv)))"
      "machine_of i sp'"
proof -
  obtain found sv1 where f: "Server_space i sv = (found, sv1)" by fastforce
  note I = Server_space_inv [OF inv f]
  show thesis
  proof (cases found)
    case None
    then show thesis using unregistered I(4) f call by (auto simp: Server_call_def Server_space_def split: option.splits)
  next
    case (Some handle)
    note H = I(3) [OF Some]
    show thesis
    proof (cases handle)
      case h: None
      then have g: "bt_get (sv_spaces sv) i = Some (Some None)"
        using f Some by (auto simp: Server_space_def Let_def split: option.splits)
      then have "sv1 = sv" using f by (simp add: Server_space_def)
      with g call f Some h inv show thesis
        by (intro gone) (auto simp: Server_call_def SpaceHandle_call_def server_inv_def split: if_splits)
    next
      case (Some sp)
      have m: "machine_of i sp" and wi: "wf_id i" using H Some by auto
      from inv wi obtain bs T where ok: "space_ok n now i (sv_store sv) bs T" by (auto simp: server_inv_def)
      have "refined_step sha256 n now' i cmd sp (sv_store sv) bs T"
        by (rule dispatch_refines [OF space_ok_later [OF ok order_refl t] m wi w sha small])
      then obtain res sp1 ops bs1 T1 where d: "dispatch sha256 now' cmd sp (sv_store sv) = (res, sp1, MemoryStore_apply ops (sv_store sv))"
        and r: "machine_of i sp1" "batch_within i UNIV ops" "space_spec sha256 i now' cmd bs T res bs1 T1"
        "space_ok (n + command_volume cmd) now' i (MemoryStore_apply ops (sv_store sv)) bs1 T1"
        unfolding refined_step_def by blast
      have "reply = Some (reply_or_dropped res) \<and> sv_store sv' = MemoryStore_apply ops (sv_store sv) \<and>
          sv_spaces sv' = bt_insert i (Some (if reply_of res = None then None else Some sp1)) (sv_spaces sv1)"
        using call f \<open>found = Some handle\<close> Some d I(2)
        by (cases "reply_of res") (simp_all add: Server_call_def SpaceHandle_call_def reply_or_dropped_def eq_commute [of "Some _"],
            (elim conjE, hypsubst, simp)+)
      with f show thesis by (intro served [OF wi m ok d]) (use r in simp_all)
    qed
  qed
qed

lemma Server_call_inv:
  assumes inv: "server_inv n now sv" and t: "now \<le> now'" and w: "wf_command cmd" and sha: "\<forall>x. length (sha256 x) = 32"
    and small: "n + command_volume cmd + 1 < 2 ^ 64"
  shows "server_inv (n + command_volume cmd) now' (snd (Server_call sha256 now' i cmd sv))"
proof -
  obtain reply sv' where call: "Server_call sha256 now' i cmd sv = (reply, sv')" by fastforce
  have later: "server_inv (n + command_volume cmd) now' sv'" if "server_inv n now sv'" for sv'
    using that space_ok_later [OF _ le_add1 t] unfolding server_inv_def by blast
  have "server_inv (n + command_volume cmd) now' sv'"
  proof (rule Server_call_cases [OF assms call], goal_cases)
    case 1
    then show ?case using inv later by simp
  next
    case 2
    then show ?case using later by simp
  next
    case (3 sp res sp' ops bs T bs' T')
    have "\<exists>bs T. space_ok (n + command_volume cmd) now' j (sv_store sv') bs T" if "wf_id j" for j
    proof (cases "j = i")
      case False
      from inv that obtain bs T where "space_ok n now j (sv_store sv) bs T" by (auto simp: server_inv_def)
      then have "space_ok n now j (sv_store sv') bs T" using space_ok_frame [OF _ 3(7)] False 3(6) by metis
      then show ?thesis using space_ok_later [OF _ le_add1 t] by blast
    qed (use 3(9) in blast)
    moreover have "server_inv n now (snd (Server_space i sv))" using Server_space_inv(1) [OF inv] by (metis prod.collapse)
    ultimately show ?case using 3(1,10,11) unfolding server_inv_def by (auto split: if_splits)
  qed
  with call show ?thesis by simp
qed

lemma server_run_inv:
  assumes "server_run sha256 n0 now0 sv0 n now sv" "server_inv n0 now0 sv0" and sha: "\<forall>x. length (sha256 x) = 32"
  shows "server_inv n now sv"
  using assms(1)
proof induction
  case stopped
  show ?case by (rule assms(2))
next
  case (registered n now sv i)
  then show ?case by (intro create_space_inv)
next
  case (called n now sv now' cmd i)
  then show ?case by (intro Server_call_inv [OF _ _ _ sha])
qed

lemma server_reach_inv:
  assumes "server_reach sha256 n now sv" and sha: "\<forall>x. length (sha256 x) = 32"
  shows "server_inv n now sv"
  using assms(1) server_run_inv [OF _ server_inv_new sha] unfolding server_reach_def by blast

text \<open>The log a store represents is unique, and it only grows.\<close>

lemma batches_ok_seq: "batches_ok bs \<Longrightarrow> k < length bs \<Longrightarrow> unat (b_admission_seq (bs ! k)) = k + 1"
  by (simp add: batches_ok_def)

lemma data_repr_unique:
  assumes R: "data_repr i st bs" "data_repr i st bs'" and w: "wf_id i"
  shows "bs = bs'"
proof (rule nth_equalityI)
  have b: "length bs < 2 ^ 64" "length bs' < 2 ^ 64" using data_reprD(3) R by (auto simp: batches_ok_def)
  have "(of_nat (length bs) :: u64) = of_nat (length bs')" using data_reprD(8) [OF R(1)] data_reprD(8) [OF R(2)] by auto
  then have "unat (of_nat (length bs) :: u64) = unat (of_nat (length bs') :: u64)" by (rule arg_cong)
  then show l: "length bs = length bs'" using b by (simp add: unat_of_nat)
  fix k
  assume k: "k < length bs"
  have "unat (b_admission_seq (bs ! k)) = unat (b_admission_seq (bs' ! k))"
    using batches_ok_seq [OF data_reprD(3) [OF R(1)]] batches_ok_seq [OF data_reprD(3) [OF R(2)]] k l by simp
  then have "b_admission_seq (bs ! k) = b_admission_seq (bs' ! k)" by (rule word_unat_eq_iff [THEN iffD2])
  from read_batch_view [OF R(1) w k, unfolded this] read_batch_view [OF R(2) w k [unfolded l]]
  show "bs ! k = bs' ! k" by (rule Inr_inject [OF trans [OF sym]])
qed

lemma space_spec_grows: "space_spec sha256 i now cmd bs T res bs' T' \<Longrightarrow> prefix bs bs'"
  by (erule space_spec.cases) (auto dest: spec_admit_growth)

lemma Server_call_grows:
  assumes inv: "server_inv n now sv" and t: "now \<le> now'" and w: "wf_command cmd" and sha: "\<forall>x. length (sha256 x) = 32"
    and small: "n + command_volume cmd + 1 < 2 ^ 64" and j: "wf_id j" "data_repr j (sv_store sv) bs"
  shows "\<exists>bs'. data_repr j (sv_store (snd (Server_call sha256 now' i cmd sv))) bs' \<and> prefix bs bs'"
proof -
  obtain reply sv' where call: "Server_call sha256 now' i cmd sv = (reply, sv')" by fastforce
  have "\<exists>bs'. data_repr j (sv_store sv') bs' \<and> prefix bs bs'"
  proof (rule Server_call_cases [OF inv t w sha small call], goal_cases)
    case (3 sp res sp' ops bs1 T bs2 T')
    show ?case
    proof (cases "j = i")
      case True
      then have "bs1 = bs" using data_repr_unique [OF space_okD(1) [OF 3(3)]] j by blast
      with True space_spec_grows [OF 3(8)] space_okD(1) [OF 3(9)] show ?thesis by blast
    next
      case False
      obtain bs3 T3 where ok: "space_ok n now j (sv_store sv) bs3 T3" using inv j(1) by (auto simp: server_inv_def)
      then have "bs3 = bs" using data_repr_unique [OF space_okD(1) [OF ok] j(2,1)] by blast
      with space_okD(1) [OF space_ok_frame [OF ok 3(7)]] False 3(6) show ?thesis by auto
    qed
  qed (use j(2) in auto)
  with call show ?thesis by simp
qed

lemma server_run_grows:
  assumes "server_run sha256 n0 now0 sv0 n now sv" "server_inv n0 now0 sv0" and sha: "\<forall>x. length (sha256 x) = 32"
    and j: "wf_id j" "data_repr j (sv_store sv0) bs"
  shows "\<exists>bs'. data_repr j (sv_store sv) bs' \<and> prefix bs bs'"
  using assms(1)
proof induction
  case stopped
  show ?case using j(2) by blast
next
  case (registered n now sv i)
  then show ?case by (auto simp: create_space_def split: option.split)
next
  case (called n now sv now' cmd i)
  note inv = server_run_inv [OF called(1) assms(2) sha]
  from called(5) obtain bs' where "data_repr j (sv_store sv) bs'" "prefix bs bs'" by blast
  with Server_call_grows [OF inv called(2,3) sha called(4) j(1), of bs' i] show ?case by (blast intro: prefix_order.trans)
qed

text \<open>An actor that is gone stays gone.\<close>

lemma Server_call_gone:
  assumes "bt_wf (sv_spaces sv)" "bt_get (sv_spaces sv) i = Some (Some None)"
  shows "bt_get (sv_spaces (snd (Server_call sha256 now j cmd sv))) i = Some (Some None)"
  using assms
  by (cases "j = i") (auto simp: Server_call_def Server_space_def SpaceHandle_call_def Let_def split: option.split prod.split)

lemma server_run_gone:
  assumes "server_run sha256 n0 now0 sv0 n now sv" "server_inv n0 now0 sv0" and sha: "\<forall>x. length (sha256 x) = 32"
    and "bt_get (sv_spaces sv0) i = Some (Some None)"
  shows "bt_get (sv_spaces sv) i = Some (Some None)"
  using assms(1)
proof induction
  case stopped
  show ?case by (rule assms(4))
next
  case (registered n now sv j)
  have "bt_wf (sv_spaces sv)" using server_run_inv [OF registered(1) assms(2) sha] by (simp add: server_inv_def)
  with registered show ?case by (auto simp: create_space_def split: option.split)
next
  case (called n now sv now' cmd j)
  have "bt_wf (sv_spaces sv)" using server_run_inv [OF called(1) assms(2) sha] by (simp add: server_inv_def)
  with called show ?case by (intro Server_call_gone)
qed

subsection \<open>Every stored record decodes\<close>

fun record_decodes :: "skey \<Rightarrow> bytes \<Rightarrow> bool" where
  "record_decodes (KData key) v \<longleftrightarrow> DataRecord_decode key v \<noteq> None"
| "record_decodes (KRangeDelete rng) v \<longleftrightarrow> RangeDeleteRecord_decode rng v \<noteq> None"
| "record_decodes (KLeaseByPrefix pre lid) v \<longleftrightarrow> LeaseRecord_decode v \<noteq> None"
| "record_decodes (KLeaseById lid) v \<longleftrightarrow> LeaseRecord_decode v \<noteq> None"
| "record_decodes KRoot v \<longleftrightarrow> PrefixMetaRecord_decode v \<noteq> None"
| "record_decodes KCounters v \<longleftrightarrow> CountersRecord_decode v \<noteq> None"
| "record_decodes (KDevice device) v \<longleftrightarrow> DeviceRecord_decode v \<noteq> None"
| "record_decodes (KPrefixMeta pre) v \<longleftrightarrow> PrefixMetaRecord_decode v \<noteq> None"
| "record_decodes (KHeader seq) v \<longleftrightarrow> AdmissionHeaderRecord_decode v \<noteq> None"
| "record_decodes (KOp seq k (TPoint key)) v \<longleftrightarrow> DataRecord_decode key v \<noteq> None"
| "record_decodes (KOp seq k (TRange rng)) v \<longleftrightarrow> RangeDeleteRecord_decode rng v \<noteq> None"

lemma read_with_decodes: "read_with decode msg (Some v) = Inr r \<Longrightarrow> decode v \<noteq> None"
  by (rule notI) (simp add: read_with_def)

lemma log_record_decodes:
  assumes R: "data_repr i st bs" and s: "s \<in> log_keys" "wf_skey s" "sget i st s = Some v"
  shows "record_decodes s v"
proof -
  note D = data_reprD [OF R]
  have "(s, v) \<in> set (log_cells bs)" using D(6) [OF s(1,2)] s(3) log_cells_iff [OF D(3)] by metis
  then consider e where "e \<in> set (entries_of bs)" "s = op_skey e" "v = op_bytes e"
    | b where "b \<in> set bs" "s = KHeader (b_admission_seq b)" "v = AdmissionHeaderRecord_encode (header_of b)"
    unfolding log_cells_member by blast
  then show ?thesis
  proof cases
    case (1 e)
    with decode_operation [OF D(5) 1(1)] show ?thesis
      by (cases "admission_target (mutation_of e)")
        (auto simp: op_skey_def rbind_Inr_iff)
  next
    case (2 b)
    then have "valid_header (header_of b)"
      using D(3) by (auto simp: batches_ok_def valid_header_def header_of_def in_set_conv_nth)
    with 2 show ?thesis by (simp add: header.decode_encode)
  qed
qed

lemma stored_record_decodes:
  assumes S: "space_ok n now i st bs T" and s: "wf_skey s" "sget i st s = Some v"
  shows "record_decodes s v"
proof -
  note D = space_okD [OF S] and R = data_reprD [OF space_okD(1) [OF S]]
  have lease: "lease_repr i st T" using D(2) by (simp add: lease_ctx_def LeaseManager_new_def)
  have meta: "PrefixMetaRecord_decode v \<noteq> None" if "wf_range r" "sget i st (node_key r) = Some v" for r
    by (rule aggregate_view [OF R(4) that(1)]) (use that(2) read_with_decodes in metis)
  show ?thesis
  proof (cases s)
    case (KData key)
    with s data_record_view [OF R(4,5), of key] show ?thesis
      by (auto simp: data_record_def sget_def skey_bytes_eqs dest: read_with_decodes)
  next
    case (KRangeDelete rng)
    with s have w: "wf_range rng" by simp
    from range_delete_record_view [OF R(4,5) w] obtain found where "range_delete_record i st rng = Inr found" by blast
    with s KRangeDelete show ?thesis by (auto simp: range_delete_record_def sget_def skey_bytes_eqs dest: read_with_decodes)
  next
    case (KLeaseByPrefix pre lid)
    with s lease_reprD(2,4) [OF lease] show ?thesis by (auto simp: lease.decode_encode)
  next
    case (KLeaseById lid)
    with s lease_reprD(1,4) [OF lease] show ?thesis by (auto simp: lease.decode_encode)
  next
    case KCounters
    with s D(6) show ?thesis
      by (auto simp: counters_def sget_def skey_bytes_eqs rbind_Inr_iff dest: read_with_decodes)
  next
    case (KDevice d)
    with s have w: "wf_id d" by simp
    from device_record_view [OF D(1) w] obtain r where "device_record i st d = Inr r" by metis
    with s KDevice show ?thesis by (auto simp: device_record_def sget_def skey_bytes_eqs dest: read_with_decodes)
  next
    case KRoot
    with s meta [of Full] show ?thesis by simp
  next
    case (KPrefixMeta pre)
    with s meta [of "Prefix pre"] show ?thesis by simp
  qed (rule log_record_decodes [OF D(1) _ s], simp add: log_keys_def)+
qed

lemma lease_table_unique: "lease_ctx mgr st T \<Longrightarrow> lease_ctx mgr st T' \<Longrightarrow> T = T'"
  using lease_by_id_table [of mgr st] by (metis ext sum.inject(2))

lemma space_ok_unique:
  assumes "space_ok n now i st bs T" "space_ok n' now' i st bs' T'" "wf_id i"
  shows "bs = bs'" "T = T'"
  using data_repr_unique [OF space_okD(1) [OF assms(1)] space_okD(1) [OF assms(2)] assms(3)]
    lease_table_unique [OF space_okD(2) [OF assms(1)] space_okD(2) [OF assms(2)]] by blast+

lemma MemoryStore_get_frame:
  assumes "bt_wf st" "batch_within i K ops" "prefix (encode_components [j]) k" "j \<noteq> i"
  shows "MemoryStore_get (MemoryStore_apply ops st) k = MemoryStore_get st k"
proof -
  have "k \<notin> op_key ` set ops"
  proof
    assume "k \<in> op_key ` set ops"
    with assms(2) obtain s where "k = skey_bytes i s" unfolding batch_within_def by blast
    with assms(3,4) show False by (simp add: space_prefix del: encode_components_Cons)
  qed
  then show ?thesis by (simp add: MemoryStore_get_apply assms(1))
qed

text \<open>A call to an actor that is alive, from a known abstract state.\<close>

definition alive :: "SpaceId \<Rightarrow> Server \<Rightarrow> bool" where
  "alive i sv \<longleftrightarrow> bt_get (sv_spaces sv) i \<noteq> None \<and> bt_get (sv_spaces sv) i \<noteq> Some (Some None)"

lemma live_call:
  assumes inv: "server_inv n now sv" and t: "now \<le> now'" and w: "wf_command cmd" and sha: "\<forall>x. length (sha256 x) = 32"
    and small: "n + command_volume cmd + 1 < 2 ^ 64" and a: "alive i sv" and ok: "space_ok n now i (sv_store sv) bs T"
  obtains res sv' bs' T' where "Server_call sha256 now' i cmd sv = (Some (reply_or_dropped res), sv')"
    and "space_spec sha256 i now' cmd bs T res bs' T'" "space_ok (n + command_volume cmd) now' i (sv_store sv') bs' T'"
    and "server_inv (n + command_volume cmd) now' sv'" "wf_id i"
    and "if reply_of res = None then bt_get (sv_spaces sv') i = Some (Some None) else alive i sv'"
proof -
  obtain reply sv' where call: "Server_call sha256 now' i cmd sv = (reply, sv')" by fastforce
  have inv': "server_inv (n + command_volume cmd) now' sv'" using Server_call_inv [OF inv t w sha small, of i] call by simp
  show thesis
  proof (rule Server_call_cases [OF inv t w sha small call], goal_cases)
    case (3 sp res sp' ops bs1 T1 bs' T')
    have same: "bs1 = bs" "T1 = T" using space_ok_unique [OF 3(3) ok 3(1)] by simp_all
    have wf: "bt_wf (sv_spaces (snd (Server_space i sv)))"
      using Server_space_inv(1) [OF inv] by (metis prod.collapse server_inv_def)
    show thesis
      by (rule that [OF call [unfolded 3(5)] 3(8) [unfolded same] 3(9) inv' 3(1)]) (simp add: 3(10) wf alive_def)
  qed (use a in \<open>simp_all add: alive_def\<close>)
qed

lemma space_spec_reply:
  assumes "space_spec sha256 i now cmd bs T res bs' T'"
  shows "(\<exists>req. cmd = List req \<and> beyond_prefix req) \<and> reply_of res = None \<or>
    (\<forall>req. cmd = List req \<longrightarrow> \<not> beyond_prefix req) \<and> ((\<exists>reply. res = Inr reply) \<or> (\<exists>err. res = Inl (Kernel err)))"
  using assms
proof cases
  case (admitted req r)
  then show ?thesis using spec_admit_outcome [OF admitted(4)] by auto
next
  case (pulled req)
  then show ?thesis by (auto simp: spec_pull_def Let_def)
qed auto

end
