(* ===== verification/DataPlane.thy ===== *)
theory DataPlane
  imports Servers
begin

text \<open>
  The properties of the data plane, stated over \<open>admit\<close>, \<open>get\<close>, \<open>list\<close>, \<open>read_at\<close> and \<open>pull\<close> under
  the representation relation \<open>data_repr\<close>, which every reachable store satisfies.  The example at the
  start, one device that writes two keys, instantiates the hypotheses in the witnesses.
\<close>

subsection \<open>An example\<close>

definition demo_sha :: "bytes \<Rightarrow> bytes" where
  "demo_sha _ = replicate 32 0"

definition demo_space :: SpaceId where
  "demo_space = replicate 16 1"

definition demo_device :: DeviceId where
  "demo_device = replicate 16 2"

definition demo_entry :: "DeviceSeq \<Rightarrow> OpaqueValue Mutation \<Rightarrow> entry" where
  "demo_entry s m = \<lparr>de_mutation = m, de_tag = \<lparr>dt_device = demo_device, dt_device_seq = s, dt_ver = s, dt_cipher_epoch = 0\<rparr>,
     de_seal = \<lparr>scheme = AeadV1, nonce = replicate SEAL_NONCE_LEN 0, aead = replicate SEAL_AEAD_TAG_LEN 0, payload = []\<rparr>\<rparr>"

definition demo_request :: AdmissionRequest where
  "demo_request = \<lparr>ar_device = demo_device, ar_expected_checksum = DeviceChecksum_EMPTY, ar_evidence = [],
     ar_batches = [\<lparr>ab_device_seq = 1, ab_range_asserts = [], 
       ab_entries = [demo_entry 1 (Set [[7], [1]] [42]), demo_entry 1 (Set [[7], [2]] [43])]\<rparr>]\<rparr>"

definition demo_first :: admitted where
  "demo_first = \<lparr>ae_device_entry = demo_entry 1 (Set [[7], [1]] [42]), ae_admission = \<lparr>at_admission_seq = 1, at_op_index = 0\<rparr>\<rparr>"

definition demo_second :: admitted where
  "demo_second = \<lparr>ae_device_entry = demo_entry 1 (Set [[7], [2]] [43]), ae_admission = \<lparr>at_admission_seq = 1, at_op_index = 1\<rparr>\<rparr>"

definition demo_batch :: AdmittedBatch where
  "demo_batch = \<lparr>b_admission_seq = 1, b_device = demo_device, b_device_seq = 1, b_checksum = replicate 32 0,
     b_entries = [demo_first, demo_second]\<rparr>"

definition demo_store :: MemoryStore where
  "demo_store = snd (admit demo_sha demo_space (LeaseManager_new demo_space) [] 5 demo_request)"

lemma demo_live: "live (b_entries demo_batch) = [[[7], [1]] \<mapsto> demo_first, [[7], [2]] \<mapsto> demo_second]"
  by (simp add: live_def demo_batch_def replay_def demo_first_def demo_second_def demo_entry_def)

lemma demo_sha_length: "\<forall>x. length (demo_sha x) = 32"
  by (simp add: demo_sha_def)

lemma demo_wf [simp]: "wf_id demo_space" "wf_id demo_device" "wf_key [[7], [1]]" "wf_key [[7], [2]]"
  by (simp_all add: wf_id_def demo_space_def demo_device_def wf_key_def wf_component_def key_limits)

lemma demo_request_wf: "wf_request demo_request" "within_bounds [] demo_request"
  by (simp_all add: wf_request_def demo_request_def wf_client_batch_def demo_entry_def wf_entry_def wf_tag_def wf_seal_def
      within_bounds_def request_entries_def)

lemma demo_spec:
  "spec_admit demo_sha demo_space now Map.empty [] demo_request =
     (Inr \<lparr>resp_checksum = replicate 32 0, resp_results = [Applied 1]\<rparr>, [demo_batch])"
proof -
  have "reservation now demo_device Map.empty demo_request = Inr ()"
    by (simp add: reservation_def demo_request_def request_entries_def demo_entry_def foreign_live_def List.map_filter_simps)
  moreover have "spec_batch demo_sha demo_space demo_request DeviceChecksum_EMPTY [] (DeviceChecksum_EMPTY, [])
      \<lparr>ab_device_seq = 1, ab_range_asserts = [],
        ab_entries = [demo_entry 1 (Set [[7], [1]] [42]), demo_entry 1 (Set [[7], [2]] [43])]\<rparr> =
      Inr (replicate 32 0, [demo_batch])"
    by (simp add: spec_batch_def spec_failures_def spec_entries_def spec_entry_def rivals_def demo_entry_def demo_request_def
        validate_payload_def stamp_def demo_batch_def demo_first_def demo_second_def AdmissionBatch_checksum_def demo_sha_def Let_def
       )
  ultimately show ?thesis
    by (simp add: spec_admit_def device_state_def demo_request_def demo_batch_def)
qed

lemma demo_admits:
  "admit demo_sha demo_space (LeaseManager_new demo_space) [] 5 demo_request =
     (Inr \<lparr>resp_checksum = replicate 32 0, resp_results = [Applied 1]\<rparr>, demo_store)"
  "data_repr demo_space demo_store [demo_batch]" "lease_ctx (LeaseManager_new demo_space) demo_store Map.empty"
proof -
  have l: "lm_space (LeaseManager_new demo_space) = demo_space" by (simp add: LeaseManager_new_def)
  obtain ops where "admit demo_sha demo_space (LeaseManager_new demo_space) [] 5 demo_request =
      (Inr \<lparr>resp_checksum = replicate 32 0, resp_results = [Applied 1]\<rparr>, MemoryStore_apply ops [])"
    "data_repr demo_space (MemoryStore_apply ops []) [demo_batch]" "batch_within demo_space (- lease_keys) ops"
    by (rule admit_outcome [OF data_repr_empty lease_ctx_empty l demo_wf(1) demo_request_wf(1) demo_sha_length
          demo_request_wf(2) demo_spec]) blast
  with lease_ctx_frame [OF lease_ctx_empty] l
  show "admit demo_sha demo_space (LeaseManager_new demo_space) [] 5 demo_request =
     (Inr \<lparr>resp_checksum = replicate 32 0, resp_results = [Applied 1]\<rparr>, demo_store)"
  "data_repr demo_space demo_store [demo_batch]" "lease_ctx (LeaseManager_new demo_space) demo_store Map.empty"
    by (simp_all add: demo_store_def)
qed

subsection \<open>Admission\<close>

text \<open>C2: admission implements its specification on the log of admitted batches: whatever the request,
  the reply of \<open>admit\<close> is the reply of \<open>spec_admit\<close> (every rejection with its exact payload, and no
  panic), the store afterwards represents the specification's log, and the lease table is untouched.\<close>

theorem admit_implements_its_specification:
  assumes "data_repr space st bs" "lease_ctx mgr st T" "lm_space mgr = space" "wf_id space" "wf_request req"
    and "\<forall>x. length (sha256 x) = 32" "within_bounds bs req"
  shows "\<exists>st'. admit sha256 space mgr st now req = (fst (spec_admit sha256 space now T bs req), st') \<and>
    data_repr space st' (snd (spec_admit sha256 space now T bs req)) \<and> lease_ctx mgr st' T"
proof -
  obtain res bs' where spec: "spec_admit sha256 space now T bs req = (res, bs')" by fastforce
  show ?thesis
    by (rule admit_outcome [OF assms(1-7) spec]) (use spec lease_ctx_frame [OF assms(2)] assms(3) in auto)
qed

text \<open>The witness: the example request on an empty store is admitted as the batch with sequence number 1.\<close>

theorem admit_implements_its_specification_witness:
  "fst (admit demo_sha demo_space (LeaseManager_new demo_space) [] 5 demo_request) =
     Inr \<lparr>resp_checksum = replicate 32 0, resp_results = [Applied 1]\<rparr>"
proof -
  have l: "lm_space (LeaseManager_new demo_space) = demo_space" by (simp add: LeaseManager_new_def)
  from admit_implements_its_specification [OF data_repr_empty lease_ctx_empty l demo_wf(1) demo_request_wf(1)
      demo_sha_length demo_request_wf(2), of 5]
  show ?thesis by (auto simp: demo_spec)
qed

text \<open>C4: admission is all-or-nothing.  Either the store is unchanged (the reply is a rejection, or the
  same failure for every batch), or every batch of the request was applied: the log grew by exactly
  the submitted entries, batch by batch, under the device's sequence numbers and the next admission
  sequence numbers, which are also the reported results.\<close>

theorem admission_is_all_or_nothing:
  assumes "data_repr space st bs" "lease_ctx mgr st T" "lm_space mgr = space" "wf_id space" "wf_request req"
    and "\<forall>x. length (sha256 x) = 32" "within_bounds bs req" "admit sha256 space mgr st now req = (res, st')"
  shows "st' = st \<and> ((\<exists>err. res = Inl (Kernel err)) \<or>
      (\<exists>resp err. res = Inr resp \<and> resp_results resp = replicate (length (ar_batches req)) (Failed err))) \<or>
    (\<exists>resp new. res = Inr resp \<and> data_repr space st' (bs @ new) \<and>
       map (map ae_device_entry \<circ> b_entries) new = map ab_entries (ar_batches req) \<and>
       map b_device_seq new = map ab_device_seq (ar_batches req) \<and> (\<forall>b \<in> set new. b_device b = ar_device req) \<and>
       resp_results resp = map (\<lambda>k. Applied (of_nat (length bs + k + 1))) [0..<length (ar_batches req)])"
proof -
  obtain r bs' where spec: "spec_admit sha256 space now T bs req = (r, bs')" by fastforce
  show ?thesis
  proof (rule admit_outcome [OF assms(1-7) spec])
    fix ops
    assume o: "admit sha256 space mgr st now req = (r, MemoryStore_apply ops st)" "data_repr space (MemoryStore_apply ops st) bs'"
      and same: "\<not> (\<exists>resp. r = Inr resp \<and> (\<forall>x \<in> set (resp_results resp). \<exists>seq. x = Applied seq)) \<Longrightarrow> ops = []"
    have rs: "r = res" "st' = MemoryStore_apply ops st" using o(1) assms(8) by simp_all
    from spec_admit_outcome [OF spec] show ?thesis
    proof
      assume f: "bs' = bs \<and> ((\<exists>err. r = Inl (Kernel err)) \<or> (\<exists>resp err. r = Inr resp \<and> ar_batches req \<noteq> [] \<and>
          resp_results resp = replicate (length (ar_batches req)) (Failed err)))"
      then have "ops = []" by (intro same) auto
      with f rs show ?thesis by (auto simp: MemoryStore_apply_def)
    next
      assume "\<exists>new resp. r = Inr resp \<and> bs' = bs @ new \<and> resp_results resp = map (Applied \<circ> b_admission_seq) new \<and>
          map (map ae_device_entry \<circ> b_entries) new = map ab_entries (ar_batches req) \<and>
          map b_device_seq new = map ab_device_seq (ar_batches req) \<and> (\<forall>b \<in> set new. b_device b = ar_device req)"
      then obtain new resp where new: "r = Inr resp" "bs' = bs @ new" "resp_results resp = map (Applied \<circ> b_admission_seq) new"
          "map (map ae_device_entry \<circ> b_entries) new = map ab_entries (ar_batches req)"
          "map b_device_seq new = map ab_device_seq (ar_batches req)" "\<forall>b \<in> set new. b_device b = ar_device req" by blast
      have "b_admission_seq (new ! k) = of_nat (length bs + k + 1)" if "k < length new" for k
        using batches_ok_seq [OF data_reprD(3) [OF o(2)], of "length bs + k"] that new(2)
        by (intro u64_of_unat) (simp add: nth_append)
      then have "resp_results resp = map (\<lambda>k. Applied (of_nat (length bs + k + 1))) [0..<length (ar_batches req)]"
        using new(3) arg_cong [OF new(5), of length] by (auto intro!: nth_equalityI)
      with new rs o(2) show ?thesis by blast
    qed
  qed
qed

text \<open>The witness: the example request is applied and its entry is the new log.\<close>

theorem admission_is_all_or_nothing_witness:
  "\<exists>new. data_repr demo_space demo_store new \<and> map (map ae_device_entry \<circ> b_entries) new =
     [[demo_entry 1 (Set [[7], [1]] [42]), demo_entry 1 (Set [[7], [2]] [43])]]"
proof -
  have l: "lm_space (LeaseManager_new demo_space) = demo_space" by (simp add: LeaseManager_new_def)
  from admission_is_all_or_nothing [OF data_repr_empty lease_ctx_empty l demo_wf(1) demo_request_wf(1)
      demo_sha_length demo_request_wf(2) demo_admits(1)]
  show ?thesis by (auto simp: demo_request_def)
qed

subsection \<open>Reads\<close>

lemma live_entries_all: "\<forall>k \<in> set ks. live log k \<noteq> None \<Longrightarrow> live_entries log ks = map (the \<circ> live log) ks"
  by (induction ks) auto

lemma live_keys_list:
  "set (sorted_list_of_set (live_keys log rng)) = live_keys log rng"
  "live_entries log (sorted_list_of_set (live_keys log rng)) = map (the \<circ> live log) (sorted_list_of_set (live_keys log rng))"
  using finite_live_keys [of log rng] by (simp_all add: live_entries_all live_keys_def)

text \<open>C7: reads agree with replaying the admission log from the empty map (set inserts, delete removes, a
  range deletion removes every covered key): \<open>get\<close> returns the replayed entry of every requested key,
  and a snapshot returns the replayed entries of the range in key order, although the store only
  keeps the last write per key, the range tombstones and the aggregates.\<close>

theorem reads_return_the_replayed_log:
  assumes "data_repr space st bs" "wf_id space" "\<forall>k \<in> set keys. wf_key k" "wf_range rng"
    and "state = fold replay (entries_of bs) Map.empty"
  shows "get space st keys = Inr (map state keys) \<and>
    snapshot space st rng = Inr (map (the \<circ> state) (sorted_list_of_set {k. covers_key rng k \<and> state k \<noteq> None}))"
proof -
  have state: "state = live (entries_of bs)" by (simp add: assms(5) live_def)
  show ?thesis
    using get_view [OF data_reprD(4,5) [OF assms(1)] assms(2,3)] snapshot_view [OF assms(1,2,4)]
    unfolding state live_keys_list(2) by (simp add: live_keys_def)
qed

text \<open>The witness: the example store holds two keys.\<close>

theorem reads_return_the_replayed_log_witness:
  "get demo_space demo_store [[[7], [1]]] = Inr [Some demo_first] \<and>
   snapshot demo_space demo_store Full = Inr [demo_first, demo_second]"
proof -
  have s: "fold replay (entries_of [demo_batch]) Map.empty = [[[7], [1]] \<mapsto> demo_first, [[7], [2]] \<mapsto> demo_second]"
    by (simp add: demo_batch_def entries_of_def replay_def demo_first_def demo_second_def demo_entry_def)
  have k: "{k. covers_key Full k \<and> [[[7], [1]] \<mapsto> demo_first, [[7], [2]] \<mapsto> demo_second] k \<noteq> None} = {[[7], [1]], [[7], [2]]}" by auto
  from reads_return_the_replayed_log [OF demo_admits(2) demo_wf(1), of "[[[7], [1]]]" Full, OF _ _ s [symmetric]] k
  show ?thesis by simp
qed

lemma overlaps_common_key: "covers_key a k \<Longrightarrow> covers_key b k \<Longrightarrow> overlaps a b"
  using covers_key_comparable by (auto simp: overlaps_def)

lemma restrict_fold_replay:
  "fold replay (filter (\<lambda>e. mutation_relevant rng (mutation_of e)) es) (m |` {k. covers_key rng k}) =
   fold replay es m |` {k. covers_key rng k}"
proof (induction es arbitrary: m)
  case (Cons e es)
  have "(if mutation_relevant rng (mutation_of e) then replay e (m |` {k. covers_key rng k}) else m |` {k. covers_key rng k}) =
      replay e m |` {k. covers_key rng k}"
    using overlaps_common_key [of rng]
    by (cases "mutation_of e") (auto simp: replay_def restrict_map_def fun_eq_iff)
  then show ?case using Cons.IH [of "replay e m"] by (simp split: if_splits)
qed simp

text \<open>C20: a delta brings a snapshot up to date: replaying the entries that \<open>delta\<close> returns since an
  earlier admission sequence number over the range's state at that number gives exactly the range's
  state now; nothing relevant is missing and nothing irrelevant interferes.\<close>

theorem delta_brings_a_snapshot_up_to_date:
  assumes "data_repr space st (old @ new)" "wf_id space" "wf_range rng" "length (old @ new) + 1 < 2 ^ 64"
    and "R = {k. covers_key rng k}"
  shows "\<exists>es. delta space st rng (of_nat (length old)) (of_nat (length (old @ new))) = Inr es \<and>
    fold replay es (live (entries_of old) |` R) = live (entries_of (old @ new)) |` R"
proof -
  note ok = data_reprD(3) [OF assms(1)]
  have n: "unat (of_nat (length old) :: u64) = length old" using assms(4) by (simp add: unat_of_nat)
  have "relevant_after rng (of_nat (length old)) (entries_of (old @ new)) =
      filter (\<lambda>e. mutation_relevant rng (mutation_of e)) (entries_of new)"
    unfolding relevant_after_drop [OF ok] n by (simp add: entries_of_def filter_concat comp_def)
  moreover have "live (entries_of (old @ new)) = fold replay (entries_of new) (live (entries_of old))" by (simp add: live_def)
  ultimately show ?thesis
    using delta_view [OF assms(1-4)] restrict_fold_replay by (simp add: assms(5))
qed

text \<open>The witness: from the empty log to the example log.\<close>

theorem delta_brings_a_snapshot_up_to_date_witness:
  "\<exists>es. delta demo_space demo_store Full 0 1 = Inr es \<and> fold replay es Map.empty = [[[7], [1]] \<mapsto> demo_first, [[7], [2]] \<mapsto> demo_second]"
proof -
  have "data_repr demo_space demo_store ([] @ [demo_batch])" using demo_admits(2) by simp
  from delta_brings_a_snapshot_up_to_date [OF this demo_wf(1), of Full, OF _ _ refl] show ?thesis
    by (simp add: live_def demo_batch_def replay_def demo_first_def demo_second_def demo_entry_def)
qed

text \<open>C21: a pull returns exactly the next admitted batches: a cursor beyond the high water is rejected
  with both numbers; otherwise the reply holds every batch after the cursor, cut to the requested
  number of batches when there is one and to nothing else; its end is the next cursor, so a client
  that follows the cursor reads the whole log.\<close>

theorem pull_returns_the_next_batches:
  assumes "data_repr space st bs" "wf_id space" "length bs + 1 < 2 ^ 64" "lo = unat (pq_after req)"
    and "page = (case pq_max_batches req of None \<Rightarrow> drop lo bs | Some m \<Rightarrow> take m (drop lo bs))"
  shows "pull space st req =
      (if length bs < lo then Inl (Kernel (AdmissionCursorAhead (pq_after req) (of_nat (length bs))))
       else Inr \<lparr>ps_after = pq_after req, ps_through = of_nat (lo + length page), ps_batches = page\<rparr>) \<and>
    validate_dense \<lparr>ps_after = pq_after req, ps_through = of_nat (lo + length page), ps_batches = page\<rparr> = Inr ()"
proof -
  define n where "n = (case pq_max_batches req of None \<Rightarrow> length bs - lo | Some m \<Rightarrow> min m (length bs - lo))"
  have page: "page = take n (drop lo bs)" "length page = n"
    by (auto simp: assms(5) n_def min_def split: option.split)
  note P = pull_view [OF assms(1-3) n_def [unfolded assms(4)], folded assms(4)]
  have th: "of_nat (lo + n) = pq_after req + of_nat n" by (simp add: assms(4))
  have "validate_dense \<lparr>ps_after = pq_after req, ps_through = pq_after req + of_nat n, ps_batches = take n (drop lo bs)\<rparr> = Inr ()"
  proof (cases "lo \<le> length bs")
    case True
    then have nb: "lo + n \<le> length bs" by (auto simp: n_def split: option.split)
    then have "unat (pq_after req + of_nat n) = lo + n"
      using of_nat_add_u64 [of "pq_after req" n] assms(3,4) by simp
    with nb show ?thesis
      unfolding validate_dense_iff by (intro dense_slice [OF data_reprD(3) [OF assms(1)]]) (use assms(3,4) in simp_all)
  next
    case False
    then have "n = 0" by (auto simp: n_def split: option.split)
    then show ?thesis by (simp add: validate_dense_iff dense_response_def)
  qed
  then show ?thesis using P unfolding page(2) th unfolding page(1) by simp
qed

text \<open>The witness: the example log is one batch long, and a request for no batch returns none.\<close>

theorem pull_returns_the_next_batches_witness:
  "pull demo_space demo_store \<lparr>pq_after = 0, pq_max_batches = None\<rparr> = Inr \<lparr>ps_after = 0, ps_through = 1, ps_batches = [demo_batch]\<rparr> \<and>
   pull demo_space demo_store \<lparr>pq_after = 0, pq_max_batches = Some 0\<rparr> = Inr \<lparr>ps_after = 0, ps_through = 0, ps_batches = []\<rparr>"
proof -
  have b: "length [demo_batch] + 1 < 2 ^ 64" by simp
  from pull_returns_the_next_batches [OF demo_admits(2) demo_wf(1) b refl refl, of "\<lparr>pq_after = 0, pq_max_batches = None\<rparr>"]
    pull_returns_the_next_batches [OF demo_admits(2) demo_wf(1) b refl refl, of "\<lparr>pq_after = 0, pq_max_batches = Some 0\<rparr>"]
  show ?thesis by simp
qed

subsection \<open>Listing\<close>

lemma filter_above_nth:
  assumes "sorted_wrt (<) (ks :: 'a :: linorder list)" "n < length ks"
  shows "filter (\<lambda>k. ks ! n < k) ks = drop (Suc n) ks"
proof -
  have "ks = take (Suc n) ks @ drop (Suc n) ks" by simp
  then have "filter (\<lambda>k. ks ! n < k) ks =
      filter (\<lambda>k. ks ! n < k) (take (Suc n) ks) @ filter (\<lambda>k. ks ! n < k) (drop (Suc n) ks)"
    using filter_append [of "\<lambda>k. ks ! n < k" "take (Suc n) ks" "drop (Suc n) ks"] by simp
  also have "filter (\<lambda>k. ks ! n < k) (take (Suc n) ks) = []"
  proof -
    have "\<not> ks ! n < ks ! i" if "i \<le> n" for i
      using assms that sorted_wrt_nth_less [OF assms(1), of i n] by (cases "i = n") auto
    then show ?thesis using assms(2) by (auto simp: filter_empty_conv in_set_conv_nth)
  qed
  also have "filter (\<lambda>k. ks ! n < k) (drop (Suc n) ks) = drop (Suc n) ks"
    using assms sorted_wrt_nth_less [OF assms(1), of n] by (auto simp: filter_id_conv in_set_conv_nth)
  finally show ?thesis by simp
qed

lemma listing_keys:
  fixes log req
  defines "W \<equiv> {k. list_window req k \<and> live log k \<noteq> None}"
  shows "finite W" "sorted_wrt (<) (sorted_list_of_set W)" "set (sorted_list_of_set W) = W"
    "live_entries log (sorted_list_of_set W) = map (the \<circ> live log) (sorted_list_of_set W)"
proof -
  have "W \<subseteq> live_keys log Full" by (auto simp: W_def live_keys_def)
  then show f: "finite W" using finite_live_keys finite_subset by blast
  then show s: "set (sorted_list_of_set W) = W" by simp
  show "sorted_wrt (<) (sorted_list_of_set W)" by (rule strict_sorted_list_of_set)
  show "live_entries log (sorted_list_of_set W) = map (the \<circ> live log) (sorted_list_of_set W)"
    by (rule live_entries_all) (use s W_def in blast)
qed

text \<open>C22: paging is exact.  When a page is truncated it holds exactly as many entries as the limit
  allows, and continuing after the key of its last entry lists precisely the rest: the page and the
  continuation concatenate to the unlimited listing, with no entry lost or repeated at the cut.\<close>

theorem list_pages_concatenate:
  assumes R: "data_repr space st bs" and space: "wf_id space" and ok: "\<not> beyond_prefix req"
    and lim: "lq_limit req = Some n" "0 < n" and page: "list_entries space st req = Inr page" "lr_truncated page"
  shows "\<exists>k rest. length (lr_entries page) = n \<and> entry_key (last (lr_entries page)) = Inr k \<and>
    list_entries space st (req\<lparr>lq_start_after := Some k, lq_limit := None\<rparr>) = Inr \<lparr>lr_entries = rest, lr_truncated = False\<rparr> \<and>
    list_entries space st (req\<lparr>lq_limit := None\<rparr>) = Inr \<lparr>lr_entries = lr_entries page @ rest, lr_truncated = False\<rparr>"
proof -
  let ?log = "entries_of bs" and ?next = "\<lambda>k. req\<lparr>lq_start_after := Some k, lq_limit := None\<rparr>"
  let ?W = "\<lambda>r. {k. list_window r k \<and> live ?log k \<noteq> None}"
  define ks where "ks = sorted_list_of_set (?W req)"
  note K = listing_keys [where log = ?log and req = req, folded ks_def]
  have view: "list_entries space st r = Inr (spec_list ?log r)" if "\<not> beyond_prefix r" for r
    using list_entries_view [OF R space _ refl, of r] that unfolding beyond_prefix_def spec_list_def Let_def by blast
  have n: "n < length ks" and p: "lr_entries page = map (the \<circ> live ?log) (take n ks)"
    using page lim(1) view [OF ok] K(4) by (auto simp: spec_list_def take_map ks_def)
  let ?k = "ks ! (n - 1)"
  have k: "?k \<in> ?W req" using K(3) n lim(2) by (metis nth_mem less_imp_diff_less)
  then obtain e where e: "live ?log ?k = Some e" by blast
  have last: "last (lr_entries page) = e" using p n lim(2) e by (subst last_conv_nth) auto
  have key: "entry_key e = Inr ?k" using live_Some [OF e] by (auto simp: entry_key_def AdmittedEntry_point_key_def)
  have "?W (?next ?k) = set (filter (\<lambda>x. ?k < x) ks)"
    using k K(3) by (auto simp: list_window_def)
  moreover have "sorted_list_of_set (set (filter (\<lambda>x. ?k < x) ks)) = filter (\<lambda>x. ?k < x) ks"
    by (rule sorted_list_of_set.idem_if_sorted_distinct)
      (use K(2) in \<open>auto simp: strict_sorted_iff intro: sorted_wrt_filter\<close>)
  ultimately have "sorted_list_of_set (?W (?next ?k)) = filter (\<lambda>x. ?k < x) ks" by (rule arg_cong [THEN trans])
  also have "\<dots> = drop n ks" using filter_above_nth [OF K(2), of "n - 1"] n lim(2) by simp
  finally have rest: "list_entries space st (?next ?k) =
      Inr \<lparr>lr_entries = map (the \<circ> live ?log) (drop n ks), lr_truncated = False\<rparr>"
    using view [of "?next ?k"] k listing_keys(4) [where log = ?log and req = "?next ?k"]
    by (auto simp: spec_list_def beyond_prefix_def list_window_def)
  have "list_window (req\<lparr>lq_limit := None\<rparr>) = list_window req" by (simp add: list_window_def fun_eq_iff)
  then have "list_entries space st (req\<lparr>lq_limit := None\<rparr>) =
      Inr \<lparr>lr_entries = map (the \<circ> live ?log) (take n ks @ drop n ks), lr_truncated = False\<rparr>"
    using view [of "req\<lparr>lq_limit := None\<rparr>"] ok K(4) by (simp add: spec_list_def beyond_prefix_def ks_def)
  then show ?thesis
    using rest last key p n by (intro exI [of _ ?k] exI [of _ "map (the \<circ> live ?log) (drop n ks)"]) (simp flip: map_append)
qed

text \<open>The witness: the first of two one-entry pages of the example store.\<close>

theorem list_pages_concatenate_witness:
  "\<exists>k rest. list_entries demo_space demo_store \<lparr>lq_prefix = [[7]], lq_start_after = Some k, lq_limit = None\<rparr> =
       Inr \<lparr>lr_entries = rest, lr_truncated = False\<rparr> \<and>
     list_entries demo_space demo_store \<lparr>lq_prefix = [[7]], lq_start_after = None, lq_limit = None\<rparr> =
       Inr \<lparr>lr_entries = demo_first # rest, lr_truncated = False\<rparr>"
proof -
  let ?req = "\<lparr>lq_prefix = [[7]], lq_start_after = None, lq_limit = Some 1\<rparr>"
  have W: "{k. list_window ?req k \<and> live (entries_of [demo_batch]) k \<noteq> None} = {[[7], [1]], [[7], [2]]}"
    by (auto simp: list_window_def demo_live)
  have ok: "\<not> beyond_prefix ?req" by (simp add: beyond_prefix_def)
  have "list_entries demo_space demo_store ?req = Inr \<lparr>lr_entries = [demo_first], lr_truncated = True\<rparr>"
    using list_entries_view [OF demo_admits(2) demo_wf(1) ok [unfolded beyond_prefix_def] refl] unfolding W
    by (simp add: demo_live)
  from list_pages_concatenate [OF demo_admits(2) demo_wf(1) ok _ _ this] show ?thesis by auto
qed

subsection \<open>Aggregates\<close>

text \<open>C23: range assertions are exact: an assertion fails if and only if some operation of another device
  that touches the prefix (a point below it, or a deletion overlapping it, including one of an
  ancestor) was admitted after the asserted sequence number, and the reported number is the newest
  such admission.\<close>

theorem range_assertions_are_exact:
  assumes "data_repr space st bs" "wf_id space" "\<forall>a \<in> set (ab_range_asserts b). wf_key (ra_prefix a)"
    and "foreign = (\<lambda>p. seq_of ` {e \<in> set (entries_of bs). mutation_relevant (Prefix p) (mutation_of e) \<and> device_of e \<noteq> device})"
  shows "range_assert_failures space st device b = Inr
    (map (\<lambda>a. \<lparr>rf_prefix = ra_prefix a, rf_upto = ra_upto a, rf_actual = Max (foreign (ra_prefix a))\<rparr>)
      (filter (\<lambda>a. \<exists>s \<in> foreign (ra_prefix a). ra_upto a < s) (ab_range_asserts b)))"
proof -
  have fm: "foreign_max (entries_of bs) device p = Max (insert 0 (foreign p))" for p
    by (simp add: foreign_max_def assms(4))
  have fin: "finite (foreign p)" for p by (simp add: assms(4))
  have iff: "foreign_max (entries_of bs) device (ra_prefix a) > ra_upto a \<longleftrightarrow> (\<exists>s \<in> foreign (ra_prefix a). ra_upto a < s)" for a
    unfolding fm using fin by (subst Max_gr_iff) auto
  have max: "foreign_max (entries_of bs) device p = Max (foreign p)" if "foreign p \<noteq> {}" for p
    unfolding fm using fin that by (simp add: Max_insert)
  show ?thesis
    unfolding range_assert_failures_view [OF data_reprD(4,5) [OF assms(1)] assms(2,3)] spec_failures_def iff
    using max by (auto intro!: map_cong)
qed

text \<open>The witness: for another device the example writes fail the assertion that nothing was admitted
  below \<open>[7]\<close>.\<close>

theorem range_assertions_are_exact_witness:
  "range_assert_failures demo_space demo_store (replicate 16 3)
     \<lparr>ab_device_seq = 1, ab_range_asserts = [\<lparr>ra_prefix = [[7]], ra_upto = 0\<rparr>], ab_entries = []\<rparr> =
   Inr [\<lparr>rf_prefix = [[7]], rf_upto = 0, rf_actual = 1\<rparr>]"
proof -
  let ?P = "\<lambda>e. mutation_relevant (Prefix [[7]]) (mutation_of e) \<and> device_of e \<noteq> replicate 16 3"
  have "?P demo_first" "?P demo_second" "seq_of demo_first = 1" "seq_of demo_second = 1"
    by (simp_all add: demo_first_def demo_second_def demo_entry_def demo_device_def Key_starts_with_def numeral_eq_Suc)
  then have f: "seq_of ` {e \<in> set (entries_of [demo_batch]). ?P e} = {1}"
    by (force simp: demo_batch_def simp del: mutation_relevant.simps)
  have w: "wf_key [[7]]" by (simp add: wf_key_def wf_component_def key_limits)
  obtain F where F: "F = (\<lambda>p. seq_of ` {e \<in> set (entries_of [demo_batch]). mutation_relevant (Prefix p) (mutation_of e) \<and>
      device_of e \<noteq> replicate 16 3})" by blast
  from range_assertions_are_exact [OF demo_admits(2) demo_wf(1) _ F, of
      "\<lparr>ab_device_seq = 1, ab_range_asserts = [\<lparr>ra_prefix = [[7]], ra_upto = 0\<rparr>], ab_entries = []\<rparr>"] w
  show ?thesis using f [folded fun_cong [OF F, of "[[7]]"]] by simp
qed

end
