(* ===== verification/Executions.thy ===== *)
theory Executions
  imports DataPlane
begin

text \<open>
  The properties of whole executions: of every server reachable from an empty store by registering
  spaces and calling verbs, with clock readings that do not go backward and fewer than \<open>2 ^ 64\<close>
  leases, batches and entries in total.
\<close>

subsection \<open>An example\<close>

definition demo_server :: Server where
  "demo_server = snd (create_space demo_space (Server_new []))"

lemma demo_reach: "server_reach demo_sha 0 0 demo_server"
  unfolding server_reach_def demo_server_def
  by (rule exI [of _ 0], rule server_run.registered [OF server_run.stopped demo_wf(1)])

lemma demo_slot: "bt_get (sv_spaces demo_server) demo_space = Some None"
  by (simp add: demo_server_def create_space_def Server_new_def bt_get_Cons)

lemma demo_command: "wf_command (Admit demo_request)" "0 + command_volume (Admit demo_request) + 1 < 2 ^ 64"
  using demo_request_wf by (simp_all add: demo_request_def request_entries_def)

lemma demo_alive: "alive demo_space demo_server"
  using demo_slot by (simp add: alive_def)

lemma demo_empty: "space_ok 0 0 demo_space (sv_store demo_server) [] Map.empty"
  using space_ok_empty by (simp add: demo_server_def create_space_def Server_new_def)

subsection \<open>Refinement\<close>

text \<open>C1: every call to a live space is one step of the abstract machine on the space's admission log and
  lease table: the reply is the abstract reply, and the new store represents the abstract machine's
  next log and table.\<close>

theorem every_call_refines_the_abstract_machine:
  assumes "server_reach sha256 n now sv" "\<forall>x. length (sha256 x) = 32" "now \<le> now'" "wf_command cmd"
    and "n + command_volume cmd + 1 < 2 ^ 64" "alive i sv" "space_ok n now i (sv_store sv) bs T"
  shows "\<exists>res sv' bs' T'. Server_call sha256 now' i cmd sv = (Some (reply_or_dropped res), sv') \<and>
    space_spec sha256 i now' cmd bs T res bs' T' \<and> space_ok (n + command_volume cmd) now' i (sv_store sv') bs' T'"
  by (rule live_call [OF server_reach_inv [OF assms(1,2)] assms(3,4,2,5-7)]) blast

text \<open>The witness: the example request to a freshly registered space.\<close>

theorem every_call_refines_the_abstract_machine_witness:
  "fst (Server_call demo_sha 5 demo_space (Admit demo_request) demo_server) =
     Some (Inr (Admitted \<lparr>resp_checksum = replicate 32 0, resp_results = [Applied 1]\<rparr>))"
proof -
  from every_call_refines_the_abstract_machine [OF demo_reach demo_sha_length _ demo_command demo_alive demo_empty, of 5]
  obtain res sv' bs' T' where call: "Server_call demo_sha 5 demo_space (Admit demo_request) demo_server = (Some (reply_or_dropped res), sv')"
    and spec: "space_spec demo_sha demo_space 5 (Admit demo_request) [] Map.empty res bs' T'" by auto
  from spec demo_spec have "res = Inr (Admitted \<lparr>resp_checksum = replicate 32 0, resp_results = [Applied 1]\<rparr>)"
    by (auto elim!: space_spec_admit)
  with call show ?thesis by (simp add: reply_or_dropped_def)
qed

subsection \<open>Leases\<close>

lemma map_filter_mem: "x \<in> set xs \<Longrightarrow> f x = Some y \<Longrightarrow> y \<in> set (List.map_filter f xs)"
  by (force simp: map_filter_def)

lemma reservation_rejects:
  assumes "rec \<in> foreign_live now device T" "entry \<in> set (request_entries req)"
    and "mutation_relevant (Prefix (lr_prefix rec)) (de_mutation entry)"
  shows "\<exists>err. reservation now device T req = Inl err"
proof -
  note mem = map_filter_mem [OF assms(2), of "\<lambda>entry. point_key (de_mutation entry)"]
    map_filter_mem [OF assms(2), of "\<lambda>entry. mutation_range (de_mutation entry)"]
  show ?thesis
    using assms(1,3) mem by (cases "de_mutation entry") (auto simp: reservation_def find_None_iff split: option.split)
qed

lemma admit_rejected:
  assumes m: "machine_of i sp" and S: "space_ok n now i st bs T" and w: "wf_id i" "wf_request req"
    and sha: "\<forall>x. length (sha256 x) = 32" and small: "n + command_volume (Admit req) + 1 < 2 ^ 64"
    and spec: "spec_admit sha256 i t T bs req = (r, bs')" "r = Inl err"
  shows "admit sha256 i (sp_leases sp) st t req = (r, st)"
proof -
  note D = space_okD [OF S]
  have b: "within_bounds bs req" using small D(4,5) by (simp add: within_bounds_def)
  have L: "lease_ctx (sp_leases sp) st T" "lm_space (sp_leases sp) = i"
    using D(2) m lease_ctx_machine by (auto simp: machine_of_def)
  show ?thesis
  proof (rule admit_outcome [OF D(1) L w sha b spec(1)])
    fix ops
    assume "admit sha256 i (sp_leases sp) st t req = (r, MemoryStore_apply ops st)"
      and "\<not> (\<exists>resp. r = Inr resp \<and> (\<forall>x \<in> set (resp_results resp). \<exists>seq. x = Applied seq)) \<Longrightarrow> ops = []"
    with spec(2) show ?thesis by (simp add: MemoryStore_apply_def)
  qed
qed

lemma listed_lease:
  assumes inv: "server_inv n now sv" and sha: "\<forall>x. length (sha256 x) = 32" and t: "now \<le> t" and small: "n + 1 < 2 ^ 64"
    and call: "Server_call sha256 t i (ListLeases d) sv = (Some (Inr (LeasesListed ls)), sv')"
  obtains bs T where "wf_id i" "space_ok n now i (sv_store sv) bs T" "space_ok n t i (sv_store sv') bs (live_table t T)"
    and "server_inv n t sv'" "alive i sv'"
    and "\<And>l. l \<in> set ls \<Longrightarrow> \<exists>lid rec. T lid = Some rec \<and> is_live rec t \<and> lr_device rec = d \<and> lr_id rec = lid \<and> l = public_lease rec"
proof -
  have inv': "server_inv n t sv'" using Server_call_inv [OF inv t _ sha, of "ListLeases d" i] small call by simp
  show thesis
  proof (rule Server_call_cases [OF inv t _ sha _ call], goal_cases)
    case (5 sp res sp' ops bs T bs' T')
    from 5(8) have T': "T' = live_table t T" "bs' = bs" and res: "res = Inr (LeasesListed (map public_lease
        (filter (\<lambda>rec. is_live rec t \<and> lr_device rec = d) (map (the \<circ> T) (sorted_list_of_set (dom T))))))"
      by (auto elim: space_spec.cases)
    have lease: "lease_repr i (sv_store sv) T" using space_okD(2) [OF 5(3)] by (simp add: lease_ctx_def LeaseManager_new_def)
    have "ls = map public_lease (filter (\<lambda>rec. is_live rec t \<and> lr_device rec = d) (map (the \<circ> T) (sorted_list_of_set (dom T))))"
      using 5(5) res by (simp add: reply_or_dropped_def)
    then have ls: "\<exists>lid rec. T lid = Some rec \<and> is_live rec t \<and> lr_device rec = d \<and> lr_id rec = lid \<and> l = public_lease rec"
      if "l \<in> set ls" for l
      using that lease_reprD(3) [OF lease] by fastforce
    have "bt_wf (sv_spaces (snd (Server_space i sv)))"
      using Server_space_inv(1) [OF inv] by (metis prod.collapse server_inv_def)
    then have "alive i sv'" using 5(10) res by (simp add: alive_def)
    with 5(1,3,9) T' inv' ls show thesis by (intro that) simp_all
  qed (use small in simp_all)
qed

text \<open>C3: leases are mutually exclusive: two different leases that the server lists at the same instant
  for whatever devices, with one prefix below the other, are both read leases.\<close>

theorem listed_leases_are_compatible:
  assumes "server_reach sha256 n now sv" "\<forall>x. length (sha256 x) = 32" "now \<le> t" "n + 1 < 2 ^ 64"
    and "Server_call sha256 t i (ListLeases d) sv = (Some (Inr (LeasesListed ls)), sv')" "l \<in> set ls"
    and "Server_call sha256 t i (ListLeases d') sv' = (Some (Inr (LeasesListed ls')), sv'')" "l' \<in> set ls'"
    and "l_id l \<noteq> l_id l'" "prefix (l_prefix l) (l_prefix l') \<or> prefix (l_prefix l') (l_prefix l)"
  shows "l_mode l = Read \<and> l_mode l' = Read"
proof -
  obtain bs T where A: "wf_id i" "space_ok n t i (sv_store sv') bs (live_table t T)" "server_inv n t sv'"
    "\<And>l. l \<in> set ls \<Longrightarrow> \<exists>lid rec. T lid = Some rec \<and> is_live rec t \<and> lr_device rec = d \<and> lr_id rec = lid \<and> l = public_lease rec"
    by (rule listed_lease [OF server_reach_inv [OF assms(1,2)] assms(2-5)]) blast
  obtain bs' T' where B: "space_ok n t i (sv_store sv') bs' T'"
    "\<And>l. l \<in> set ls' \<Longrightarrow> \<exists>lid rec. T' lid = Some rec \<and> is_live rec t \<and> lr_device rec = d' \<and> lr_id rec = lid \<and> l = public_lease rec"
    by (rule listed_lease [OF A(3) assms(2) order_refl assms(4,7)]) blast
  have T': "T' = live_table t T" by (rule space_ok_unique(2) [OF B(1) A(2,1)])
  from A(4) [OF assms(6)] obtain a where a: "T (lr_id a) = Some a" "is_live a t" "l = public_lease a" by blast
  from B(2) [OF assms(8)] obtain b where b: "T' (lr_id b) = Some b" "is_live b t" "l' = public_lease b" by blast
  have "T' (lr_id a) = Some a" using a by (simp add: T' live_table_def)
  with space_okD(3) [OF B(1)] a b assms(9,10) have "compatible_with (lr_mode a) (lr_mode b)"
    unfolding exclusive_def key_overlap_def by (force simp: public_lease_def)
  with a(3) b(3) show ?thesis by (simp add: public_lease_def compatible_with_iff)
qed

definition demo_acquire :: AcquireRequest where
  "demo_acquire = \<lparr>aq_device = demo_device, aq_requested_at = HybridTimestamp_ZERO,
     aq_specs = [\<lparr>ls_prefix = [[7]], ls_mode = Read, ls_ttl = 1000000000\<rparr>, \<lparr>ls_prefix = [[7], [1]], ls_mode = Read, ls_ttl = 1000000000\<rparr>]\<rparr>"

definition demo_records :: "LeaseId \<Rightarrow> LeaseRecord list" where
  "demo_records k = granted_records 5 demo_acquire \<lparr>next_lease_id = k, admission_high_water = 0\<rparr> (aq_specs demo_acquire)"

lemma server_reach_called:
  assumes "server_reach sha256 n now sv" "now \<le> now'" "wf_command cmd" "n + command_volume cmd + 1 < 2 ^ 64"
    and "Server_call sha256 now' i cmd sv = (reply, sv')"
  shows "server_reach sha256 (n + command_volume cmd) now' sv'"
  using assms server_run.called [OF _ assms(2-4), of sha256 _ _ _ sv i] unfolding server_reach_def by auto

lemma purged_empty: "purged now Map.empty T \<Longrightarrow> T = Map.empty"
  by (auto simp: purged_def)

lemma demo_leases:
  obtains sv k where "server_reach demo_sha 2 5 sv" "alive demo_space sv"
    and "space_ok 2 5 demo_space (sv_store sv) [] (granted_table (demo_records k) Map.empty)"
proof -
  have w: "wf_command (Acquire demo_acquire)" "0 + command_volume (Acquire demo_acquire) + 1 < 2 ^ 64" "(0::Timestamp) \<le> 5"
    by (simp_all add: demo_acquire_def wf_acquire_def wf_stamp_def HybridTimestamp_ZERO_def Lineage_NONE_def wf_key_def
        wf_component_def key_limits)
  have v: "0 + command_volume (Acquire demo_acquire) = 2" by (simp add: demo_acquire_def)
  obtain res sv bs T where call: "Server_call demo_sha 5 demo_space (Acquire demo_acquire) demo_server = (Some (reply_or_dropped res), sv)"
    and spec: "space_spec demo_sha demo_space 5 (Acquire demo_acquire) [] Map.empty res bs T"
    and ok: "space_ok (0 + command_volume (Acquire demo_acquire)) 5 demo_space (sv_store sv) bs T"
    and al: "if reply_of res = None then bt_get (sv_spaces sv) demo_space = Some (Some None) else alive demo_space sv"
    by (rule live_call [OF server_reach_inv [OF demo_reach demo_sha_length] w(3,1) demo_sha_length w(2) demo_alive demo_empty])
  have reach: "server_reach demo_sha 2 5 sv"
    using server_reach_called [OF demo_reach w(3,1,2) call] v by simp
  have "acquire_self_overlap (aq_specs demo_acquire) = None"
    by (simp add: demo_acquire_def Key_starts_with_def)
  with spec obtain k leases where "res = Inr (Acquired leases)" "bs = []" "T = granted_table (demo_records k) Map.empty"
    by (auto elim!: space_spec_acquire simp: demo_records_def blocking_def dest!: purged_empty)
  with al ok v reach show thesis by (intro that [of sv k]) simp_all
qed

lemma demo_listed:
  assumes ok: "server_inv 2 5 sv" "alive demo_space sv" "space_ok 2 5 demo_space (sv_store sv) bs T"
  obtains sv' where "Server_call demo_sha 5 demo_space (ListLeases d) sv =
      (Some (Inr (LeasesListed (map public_lease (filter (\<lambda>rec. is_live rec 5 \<and> lr_device rec = d)
         (map (the \<circ> T) (sorted_list_of_set (dom T))))))), sv')"
    and "server_inv 2 5 sv'" "alive demo_space sv'" "space_ok 2 5 demo_space (sv_store sv') bs (live_table 5 T)"
proof -
  have w: "wf_command (ListLeases d)" "2 + command_volume (ListLeases d) + 1 < 2 ^ 64" by simp_all
  show thesis
  proof (rule live_call [OF ok(1) order_refl w(1) demo_sha_length w(2) ok(2,3)])
    fix res sv' bs' T'
    assume c: "Server_call demo_sha 5 demo_space (ListLeases d) sv = (Some (reply_or_dropped res), sv')"
      "space_ok (2 + command_volume (ListLeases d)) 5 demo_space (sv_store sv') bs' T'"
      "server_inv (2 + command_volume (ListLeases d)) 5 sv'"
      "if reply_of res = None then bt_get (sv_spaces sv') demo_space = Some (Some None) else alive demo_space sv'"
      and spec: "space_spec demo_sha demo_space 5 (ListLeases d) bs T res bs' T'"
    from spec have "T' = live_table 5 T" "bs' = bs" "res = Inr (LeasesListed (map public_lease
        (filter (\<lambda>rec. is_live rec 5 \<and> lr_device rec = d) (map (the \<circ> T) (sorted_list_of_set (dom T))))))"
      by (auto elim: space_spec.cases)
    with c show thesis by (intro that) (simp_all add: reply_or_dropped_def)
  qed
qed

text \<open>The witness: two overlapping read leases granted by one request.\<close>

theorem listed_leases_are_compatible_witness:
  "\<exists>sv sv' sv'' ls ls' l l'. Server_call demo_sha 5 demo_space (ListLeases demo_device) sv = (Some (Inr (LeasesListed ls)), sv') \<and>
     Server_call demo_sha 5 demo_space (ListLeases demo_device) sv' = (Some (Inr (LeasesListed ls')), sv'') \<and>
     l \<in> set ls \<and> l' \<in> set ls' \<and> l_id l \<noteq> l_id l' \<and> l_prefix l = [[7]] \<and> l_prefix l' = [[7], [1]] \<and> l_mode l = Read \<and> l_mode l' = Read"
proof -
  obtain sv k where sv: "server_reach demo_sha 2 5 sv" "alive demo_space sv"
    "space_ok 2 5 demo_space (sv_store sv) [] (granted_table (demo_records k) Map.empty)" by (rule demo_leases)
  let ?T = "granted_table (demo_records k) Map.empty"
  obtain a b where ab: "demo_records k = [a, b]" "lr_id a = k" "lr_id b = k + 1" "lr_prefix a = [[7]]" "lr_prefix b = [[7], [1]]"
    "lr_device a = demo_device" "lr_device b = demo_device" "is_live a 5" "is_live b 5"
    by (simp add: demo_records_def demo_acquire_def granted_record_def is_live_def Timestamp_saturating_add_def
        millis_u64_def as_millis_def sat_add64_def word_less_nat_alt)
  then have T: "?T k = Some (norm_lease a)" "?T (k + 1) = Some (norm_lease b)" by (simp_all add: granted_table_def)
  obtain sv' where c1: "Server_call demo_sha 5 demo_space (ListLeases demo_device) sv =
      (Some (Inr (LeasesListed (map public_lease (filter (\<lambda>rec. is_live rec 5 \<and> lr_device rec = demo_device)
         (map (the \<circ> ?T) (sorted_list_of_set (dom ?T))))))), sv')"
    and s1: "server_inv 2 5 sv'" "alive demo_space sv'" "space_ok 2 5 demo_space (sv_store sv') [] (live_table 5 ?T)"
    by (rule demo_listed [OF server_reach_inv [OF sv(1) demo_sha_length] sv(2,3)])
  let ?U = "live_table 5 ?T"
  obtain sv'' where c2: "Server_call demo_sha 5 demo_space (ListLeases demo_device) sv' =
      (Some (Inr (LeasesListed (map public_lease (filter (\<lambda>rec. is_live rec 5 \<and> lr_device rec = demo_device)
         (map (the \<circ> ?U) (sorted_list_of_set (dom ?U))))))), sv'')" by (rule demo_listed [OF s1])
  have U: "?U (k + 1) = Some (norm_lease b)" using T(2) ab(9) by (simp add: live_table_def)
  let ?l = "public_lease (norm_lease a)" and ?l' = "public_lease (norm_lease b)"
  have "k \<in> dom ?T" "k + 1 \<in> dom ?U" using T(1) U by blast+
  then have m: "?l \<in> set (map public_lease (filter (\<lambda>rec. is_live rec 5 \<and> lr_device rec = demo_device)
        (map (the \<circ> ?T) (sorted_list_of_set (dom ?T)))))"
    "?l' \<in> set (map public_lease (filter (\<lambda>rec. is_live rec 5 \<and> lr_device rec = demo_device)
        (map (the \<circ> ?U) (sorted_list_of_set (dom ?U)))))"
    using T(1) U ab(6-9) by (auto simp: image_iff intro!: exI bexI)
  have p: "l_id ?l \<noteq> l_id ?l'" "l_prefix ?l = [[7]]" "l_prefix ?l' = [[7], [1]]"
    using ab(2-5) by (simp_all add: public_lease_def)
  then have "l_mode ?l = Read \<and> l_mode ?l' = Read"
    by (intro listed_leases_are_compatible [OF sv(1) demo_sha_length order_refl _ c1 m(1) c2 m(2)]) simp_all
  with c1 c2 m p show ?thesis by blast
qed

text \<open>C5: a live lease fences the other devices: while the server lists a lease (of either mode) of one
  device, an admission by another device that sets or deletes a key below the lease's prefix, or
  deletes a range overlapping it, is rejected and changes nothing.\<close>

theorem live_leases_fence_other_writers:
  assumes "server_reach sha256 n now sv" "\<forall>x. length (sha256 x) = 32" "now \<le> t"
    and "n + command_volume (Admit req) + 1 < 2 ^ 64" "wf_request req"
    and "Server_call sha256 t i (ListLeases d) sv = (Some (Inr (LeasesListed ls)), sv')" "l \<in> set ls"
    and "d \<noteq> ar_device req" "entry \<in> set (request_entries req)" "mutation_relevant (Prefix (l_prefix l)) (de_mutation entry)"
    and "Server_call sha256 t i (Admit req) sv' = (reply, sv'')"
  shows "(\<exists>err. reply = Some (Inl (KernelRejection err))) \<and> sv_store sv'' = sv_store sv'"
proof -
  have small: "n + 1 < 2 ^ 64" using assms(4) by simp
  obtain bs T where A: "wf_id i" "space_ok n t i (sv_store sv') bs (live_table t T)" "server_inv n t sv'" "alive i sv'"
    "\<And>l. l \<in> set ls \<Longrightarrow> \<exists>lid rec. T lid = Some rec \<and> is_live rec t \<and> lr_device rec = d \<and> lr_id rec = lid \<and> l = public_lease rec"
    by (rule listed_lease [OF server_reach_inv [OF assms(1,2)] assms(2,3) small assms(6)]) blast
  from A(5) [OF assms(7)] obtain rec where rec: "T (lr_id rec) = Some rec" "is_live rec t" "lr_device rec = d" "l = public_lease rec"
    by blast
  have "rec \<in> ran (live_table t T)" using rec(1,2) by (auto simp: live_table_def intro!: ranI [of _ "lr_id rec"])
  then have fl: "rec \<in> foreign_live t (ar_device req) (live_table t T)" using rec(2,3) assms(8) by (simp add: foreign_live_def)
  have rej: "\<exists>err. reservation t (ar_device req) (live_table t T) req = Inl err"
    by (rule reservation_rejects [OF fl assms(9)]) (use assms(10) rec(4) in \<open>simp add: public_lease_def\<close>)
  show ?thesis
  proof (rule Server_call_cases [OF A(3) order_refl _ assms(2,4,11)], goal_cases)
    case (4 sp res sp' ops bs1 T1 bs' T')
    have T1: "T1 = live_table t T" "bs1 = bs" using space_ok_unique [OF 4(3) A(2,1)] by simp_all
    obtain r b where spec: "spec_admit sha256 i t T1 bs1 req = (r, b)" by fastforce
    have "\<exists>err. r = Inl err" using spec rej unfolding T1
      by (auto simp: spec_admit_def split: prod.splits if_splits sum.splits)
    then obtain err where err: "r = Inl (Kernel err)" using spec_admit_outcome [OF spec] by blast
    have run: "admit sha256 i (sp_leases sp) (sv_store sv') t req = (r, sv_store sv')"
      by (rule admit_rejected [OF 4(2,3,1) assms(5,2,4) spec err])
    then have "res = Inl (Kernel err)" "sv_store sv'' = sv_store sv'"
      using 4(2,4,6) err by (auto simp: Space_admit_def machine_of_def)
    with 4(5) show ?case by (simp add: reply_or_dropped_def)
  qed (use A(4) assms(5) in \<open>auto simp: alive_def\<close>)
qed

text \<open>The witness: another device's request to write below the example leases.\<close>

theorem live_leases_fence_other_writers_witness:
  "\<exists>sv ls sv' err. server_reach demo_sha 2 5 sv \<and> ls \<noteq> [] \<and>
     Server_call demo_sha 5 demo_space (ListLeases demo_device) sv = (Some (Inr (LeasesListed ls)), sv') \<and>
     fst (Server_call demo_sha 5 demo_space (Admit (demo_request\<lparr>ar_device := replicate 16 3\<rparr>)) sv') = Some (Inl (KernelRejection err))"
proof -
  let ?req = "demo_request\<lparr>ar_device := replicate 16 3\<rparr>"
  obtain sv k where sv: "server_reach demo_sha 2 5 sv" "alive demo_space sv"
    "space_ok 2 5 demo_space (sv_store sv) [] (granted_table (demo_records k) Map.empty)" by (rule demo_leases)
  let ?T = "granted_table (demo_records k) Map.empty"
  obtain a where a: "?T k = Some (norm_lease a)" "lr_prefix a = [[7]]" "lr_device a = demo_device" "is_live a 5"
    by (simp add: demo_records_def demo_acquire_def granted_record_def is_live_def Timestamp_saturating_add_def
        millis_u64_def as_millis_def sat_add64_def word_less_nat_alt granted_table_def)
  obtain sv' where c1: "Server_call demo_sha 5 demo_space (ListLeases demo_device) sv =
      (Some (Inr (LeasesListed (map public_lease (filter (\<lambda>rec. is_live rec 5 \<and> lr_device rec = demo_device)
         (map (the \<circ> ?T) (sorted_list_of_set (dom ?T))))))), sv')"
    by (rule demo_listed [OF server_reach_inv [OF sv(1) demo_sha_length] sv(2,3)])
  have "k \<in> dom ?T" using a(1) by blast
  then have l: "public_lease (norm_lease a) \<in> set (map public_lease (filter (\<lambda>rec. is_live rec 5 \<and> lr_device rec = demo_device)
        (map (the \<circ> ?T) (sorted_list_of_set (dom ?T)))))"
    using a by (auto simp: image_iff intro!: exI bexI)
  have req: "2 + command_volume (Admit ?req) + 1 < 2 ^ 64" "wf_request ?req"
    "demo_entry 1 (Set [[7], [1]] [42]) \<in> set (request_entries ?req)"
    using demo_request_wf(1) by (simp_all add: demo_request_def request_entries_def wf_request_def wf_id_def)
  have d: "demo_device \<noteq> ar_device ?req" by (simp add: demo_device_def numeral_eq_Suc)
  obtain reply sv'' where c2: "Server_call demo_sha 5 demo_space (Admit ?req) sv' = (reply, sv'')" by fastforce
  obtain err where "reply = Some (Inl (KernelRejection err))"
    using live_leases_fence_other_writers [OF sv(1) demo_sha_length order_refl req(1,2) c1 l d req(3) _ c2] a(2)
    by (auto simp: public_lease_def demo_entry_def Key_starts_with_def)
  with c2 have "fst (Server_call demo_sha 5 demo_space (Admit ?req) sv') = Some (Inl (KernelRejection err))" by simp
  with sv(1) c1 length_pos_if_in_set [OF l] show ?thesis
    unfolding length_greater_0_conv by - (rule exI, rule exI, rule exI, rule exI, (rule conjI, assumption)+, assumption)
qed

subsection \<open>The admission log\<close>

lemma pulled_batches:
  assumes inv: "server_inv n now sv" and sha: "\<forall>x. length (sha256 x) = 32" and t: "now \<le> t" and small: "n + 1 < 2 ^ 64"
    and call: "Server_call sha256 t i (Pull req) sv = (Some (Inr (Pulled r)), sv')"
  obtains bs m where "wf_id i" "data_repr i (sv_store sv) bs" "dev_ascend bs" "ps_batches r = take m (drop (unat (pq_after req)) bs)"
    and "m = (case pq_max_batches req of None \<Rightarrow> length bs - unat (pq_after req) | Some k \<Rightarrow> min k (length bs - unat (pq_after req)))"
proof -
  show thesis
  proof (rule Server_call_cases [OF inv t _ sha _ call], goal_cases)
    case (5 sp res sp' ops bs T bs' T')
    have "res = ok_map Pulled (spec_pull bs req)" using 5(8) by (auto elim: space_spec.cases)
    with 5(5) have "ps_batches r = take (case pq_max_batches req of None \<Rightarrow> length bs - unat (pq_after req)
        | Some k \<Rightarrow> min k (length bs - unat (pq_after req))) (drop (unat (pq_after req)) bs)"
      by (auto simp: spec_pull_def Let_def reply_or_dropped_def split: if_splits)
    then show thesis using that [OF 5(1) space_okD(1,7) [OF 5(3)]] by blast
  qed (use small in simp_all)
qed

lemma demo_history:
  obtains sv where "server_reach demo_sha 3 5 sv" "alive demo_space sv" "space_ok 3 5 demo_space (sv_store sv) [demo_batch] Map.empty"
proof -
  have v: "0 + command_volume (Admit demo_request) = 3" by (simp add: demo_request_def request_entries_def)
  show thesis
  proof (rule live_call [OF server_reach_inv [OF demo_reach demo_sha_length] _ demo_command(1) demo_sha_length demo_command(2)
        demo_alive demo_empty, of 5])
    fix res sv bs T
    assume call: "Server_call demo_sha 5 demo_space (Admit demo_request) demo_server = (Some (reply_or_dropped res), sv)"
      and spec: "space_spec demo_sha demo_space 5 (Admit demo_request) [] Map.empty res bs T"
      and ok: "space_ok (0 + command_volume (Admit demo_request)) 5 demo_space (sv_store sv) bs T"
      and al: "if reply_of res = None then bt_get (sv_spaces sv) demo_space = Some (Some None) else alive demo_space sv"
    have reach: "server_reach demo_sha 3 5 sv"
      using server_reach_called [OF demo_reach _ demo_command call] v by simp
    from spec demo_spec have "bs = [demo_batch]" "T = Map.empty" "reply_of res \<noteq> None" by (auto elim!: space_spec_admit)
    with ok v al reach show thesis by (intro that [of sv]) simp_all
  qed simp
qed

lemma demo_pull:
  assumes "server_inv 3 5 sv" "alive demo_space sv" "space_ok 3 5 demo_space (sv_store sv) [demo_batch] Map.empty"
  obtains r sv' where "Server_call demo_sha 5 demo_space (Pull \<lparr>pq_after = 0, pq_max_batches = m\<rparr>) sv = (Some (Inr (Pulled r)), sv')"
    and "ps_batches r = (if m = Some 0 then [] else [demo_batch])" "server_inv 3 5 sv'" "alive demo_space sv'"
    and "space_ok 3 5 demo_space (sv_store sv') [demo_batch] Map.empty"
proof -
  let ?req = "\<lparr>pq_after = 0, pq_max_batches = m\<rparr>"
  have w: "wf_command (Pull ?req)" "3 + command_volume (Pull ?req) + 1 < 2 ^ 64" by simp_all
  show thesis
  proof (rule live_call [OF assms(1) order_refl w(1) demo_sha_length w(2) assms(2,3)])
    fix res sv' bs T
    assume c: "Server_call demo_sha 5 demo_space (Pull ?req) sv = (Some (reply_or_dropped res), sv')"
      "space_ok (3 + command_volume (Pull ?req)) 5 demo_space (sv_store sv') bs T" "server_inv (3 + command_volume (Pull ?req)) 5 sv'"
      "if reply_of res = None then bt_get (sv_spaces sv') demo_space = Some (Some None) else alive demo_space sv'"
      and spec: "space_spec demo_sha demo_space 5 (Pull ?req) [demo_batch] Map.empty res bs T"
    from spec have "res = ok_map Pulled (spec_pull [demo_batch] ?req)" "bs = [demo_batch]" "T = Map.empty"
      by (auto elim: space_spec.cases)
    with c show thesis
      by (intro that) (auto simp: spec_pull_def Let_def reply_or_dropped_def split: option.splits)
  qed
qed

text \<open>C6: history is immutable: batches once returned by a pull are returned again, byte for byte, by the
  same cursor after any further execution, whatever was registered, acquired or admitted since and
  in whichever space.\<close>

theorem pulled_history_never_changes:
  assumes "server_reach sha256 n now sv" "\<forall>x. length (sha256 x) = 32" "now \<le> t" "n + 1 < 2 ^ 64"
    and "Server_call sha256 t i (Pull req) sv = (Some (Inr (Pulled r)), sv1)"
    and "server_run sha256 n t sv1 n' now' sv2" "now' \<le> t'" "n' + 1 < 2 ^ 64"
    and "req' = req\<lparr>pq_max_batches := Some (length (ps_batches r))\<rparr>"
    and "Server_call sha256 t' i (Pull req') sv2 = (Some (Inr (Pulled r')), sv3)"
  shows "ps_batches r' = ps_batches r"
proof -
  note inv = server_reach_inv [OF assms(1,2)]
  have inv1: "server_inv n t sv1" using Server_call_inv [OF inv assms(3) _ assms(2), of "Pull req" i] assms(4,5) by simp
  obtain bs m where A: "wf_id i" "data_repr i (sv_store sv) bs" "ps_batches r = take m (drop (unat (pq_after req)) bs)"
    "m = (case pq_max_batches req of None \<Rightarrow> length bs - unat (pq_after req) | Some k \<Rightarrow> min k (length bs - unat (pq_after req)))"
    by (rule pulled_batches [OF inv assms(2-5)])
  obtain bs1 where B: "data_repr i (sv_store sv1) bs1" "prefix bs bs1"
    using Server_call_grows [OF inv assms(3) _ assms(2) _ A(1,2), of "Pull req" i] assms(4,5) by auto
  obtain bs2 where C: "data_repr i (sv_store sv2) bs2" "prefix bs1 bs2"
    using server_run_grows [OF assms(6) inv1 assms(2) A(1) B(1)] by blast
  obtain bs3 m' where E: "data_repr i (sv_store sv2) bs3" "ps_batches r' = take m' (drop (unat (pq_after req')) bs3)"
    "m' = (case pq_max_batches req' of None \<Rightarrow> length bs3 - unat (pq_after req') | Some k \<Rightarrow> min k (length bs3 - unat (pq_after req')))"
    by (rule pulled_batches [OF server_run_inv [OF assms(6) inv1 assms(2)] assms(2,7,8,10)])
  have "bs3 = bs2" by (rule data_repr_unique [OF E(1) C(1) A(1)])
  then obtain zs where bs3: "bs3 = bs @ zs" using B(2) C(2) by (auto simp: prefix_def)
  have le: "length (ps_batches r) \<le> length bs - unat (pq_after req)" by (simp add: A(3))
  then have "m' = length (ps_batches r)" using E(3) bs3 by (simp add: assms(9))
  then have "ps_batches r' = take (length (ps_batches r)) (drop (unat (pq_after req)) bs)"
    using E(2) le bs3 by (simp add: assms(9))
  also have "\<dots> = ps_batches r" using A(3) by (simp add: min_def)
  finally show ?thesis .
qed

text \<open>The witness: the example batch, pulled twice.\<close>

theorem pulled_history_never_changes_witness:
  "\<exists>sv r r' sv1 sv3. Server_call demo_sha 5 demo_space (Pull \<lparr>pq_after = 0, pq_max_batches = None\<rparr>) sv = (Some (Inr (Pulled r)), sv1) \<and>
     Server_call demo_sha 5 demo_space (Pull \<lparr>pq_after = 0, pq_max_batches = Some 1\<rparr>) sv1 = (Some (Inr (Pulled r')), sv3) \<and>
     ps_batches r = [demo_batch] \<and> ps_batches r' = ps_batches r"
proof -
  obtain sv where sv: "server_reach demo_sha 3 5 sv" "alive demo_space sv"
    "space_ok 3 5 demo_space (sv_store sv) [demo_batch] Map.empty" by (rule demo_history)
  obtain r sv1 where a: "Server_call demo_sha 5 demo_space (Pull \<lparr>pq_after = 0, pq_max_batches = None\<rparr>) sv = (Some (Inr (Pulled r)), sv1)"
    "ps_batches r = [demo_batch]" "server_inv 3 5 sv1" "alive demo_space sv1" "space_ok 3 5 demo_space (sv_store sv1) [demo_batch] Map.empty"
    by (rule demo_pull [OF server_reach_inv [OF sv(1) demo_sha_length] sv(2,3), of None]) simp
  obtain r' sv3 where b: "Server_call demo_sha 5 demo_space (Pull \<lparr>pq_after = 0, pq_max_batches = Some 1\<rparr>) sv1 = (Some (Inr (Pulled r')), sv3)"
    by (rule demo_pull [OF a(3-5), of "Some 1"])
  have "ps_batches r' = ps_batches r"
    by (rule pulled_history_never_changes [OF sv(1) demo_sha_length order_refl _ a(1) server_run.stopped order_refl _ refl])
      (use a(2) b in simp_all)
  with a(1,2) b show ?thesis by blast
qed

text \<open>C8: the log of a space is totally ordered and consistent: what a pull from the beginning returns has
  strictly increasing admission orders, every device's batches in the order of its sequence numbers
  (so each is admitted at most once), and of two operations that touch a common key the later one
  has the greater version.\<close>

theorem admission_logs_are_ordered:
  assumes "server_reach sha256 n now sv" "\<forall>x. length (sha256 x) = 32" "now \<le> t" "n + 1 < 2 ^ 64"
    and "Server_call sha256 t i (Pull \<lparr>pq_after = 0, pq_max_batches = None\<rparr>) sv = (Some (Inr (Pulled r)), sv')"
  shows "sorted_wrt (\<lambda>a b. order_of a < order_of b \<and>
      (conflicts (mutation_of b) (mutation_of a) \<longrightarrow> AdmittedEntry_ver a < AdmittedEntry_ver b)) (concat (map b_entries (ps_batches r))) \<and>
    sorted_wrt (\<lambda>a b. b_device a = b_device b \<longrightarrow> b_device_seq a < b_device_seq b) (ps_batches r)"
proof -
  obtain bs m where A: "data_repr i (sv_store sv) bs" "dev_ascend bs" "ps_batches r = take m (drop (unat (0 :: u64)) bs)"
    "m = length bs - unat (0 :: u64)"
    by (rule pulled_batches [OF server_reach_inv [OF assms(1,2)] assms(2-5)]) simp
  then have r: "ps_batches r = bs" by simp
  have "ascending (entries_of bs)" "vers_ascend (entries_of bs)" using data_reprD(5) [OF A(1)] unfolding log_ok_def by blast+
  then show ?thesis
    using A(2) unfolding r ascending_def vers_ascend_def dev_ascend_def entries_of_def sorted_wrt_map sorted_wrt_iff_nth_less
    by simp
qed

text \<open>The witness: the example log.\<close>

theorem admission_logs_are_ordered_witness:
  "order_of demo_first < order_of demo_second"
proof -
  obtain sv where sv: "server_reach demo_sha 3 5 sv" "alive demo_space sv"
    "space_ok 3 5 demo_space (sv_store sv) [demo_batch] Map.empty" by (rule demo_history)
  obtain r sv1 where a: "Server_call demo_sha 5 demo_space (Pull \<lparr>pq_after = 0, pq_max_batches = None\<rparr>) sv = (Some (Inr (Pulled r)), sv1)"
    "ps_batches r = [demo_batch]"
    by (rule demo_pull [OF server_reach_inv [OF sv(1) demo_sha_length] sv(2,3), of None]) simp
  from admission_logs_are_ordered [OF sv(1) demo_sha_length order_refl _ a(1)] show ?thesis
    by (simp add: a(2) demo_batch_def)
qed

text \<open>C24: live counts are exact: in every reachable server the number of live keys that the counters of a
  space yield for a range is the number of keys of the range that replaying everything the space
  ever admitted leaves set, also for a range below an ancestor that was deleted as a whole and not
  yet touched again; it fits the 64-bit counter because it never exceeds the length of the log.\<close>

theorem live_counts_are_exact:
  assumes "server_reach sha256 n now sv" "\<forall>x. length (sha256 x) = 32" "now \<le> t" "n + 1 < 2 ^ 64"
    and "Server_call sha256 t i (Pull \<lparr>pq_after = 0, pq_max_batches = None\<rparr>) sv = (Some (Inr (Pulled r)), sv')"
    and "log = concat (map b_entries (ps_batches r))" "wf_range rng"
  shows "\<exists>count. effective_live_count i (sv_store sv) rng = Inr count \<and>
    unat count = card {k. covers_key rng k \<and> live log k \<noteq> None} \<and> unat count \<le> length log"
proof -
  obtain bs m where A: "wf_id i" "data_repr i (sv_store sv) bs" "ps_batches r = take m (drop (unat (0 :: u64)) bs)"
    "m = length bs - unat (0 :: u64)"
    by (rule pulled_batches [OF server_reach_inv [OF assms(1,2)] assms(2-5)]) simp
  then have log: "log = entries_of bs" using assms(6) by (simp add: entries_of_def)
  show ?thesis
  proof (rule effective_live_count_view [OF data_reprD(4,5) [OF A(2)] A(1) assms(7)])
    fix count
    assume "effective_live_count i (sv_store sv) rng = Inr count" "unat count = card (live_keys (entries_of bs) rng)"
    then show ?thesis using live_keys_bound [of "entries_of bs" rng] by (auto simp: live_keys_def log)
  qed
qed

text \<open>The witness: two keys are live after the example admission.\<close>

theorem live_counts_are_exact_witness:
  "\<exists>sv count. server_reach demo_sha 3 5 sv \<and> effective_live_count demo_space (sv_store sv) Full = Inr count \<and> unat count = 2"
proof -
  obtain sv where sv: "server_reach demo_sha 3 5 sv" "alive demo_space sv"
    "space_ok 3 5 demo_space (sv_store sv) [demo_batch] Map.empty" by (rule demo_history)
  obtain r sv1 where a: "Server_call demo_sha 5 demo_space (Pull \<lparr>pq_after = 0, pq_max_batches = None\<rparr>) sv = (Some (Inr (Pulled r)), sv1)"
    "ps_batches r = [demo_batch]"
    by (rule demo_pull [OF server_reach_inv [OF sv(1) demo_sha_length] sv(2,3), of None]) simp
  have W: "{k. covers_key Full k \<and> live (concat (map b_entries (ps_batches r))) k \<noteq> None} = {[[7], [1]], [[7], [2]]}"
    by (auto simp: a(2) demo_live)
  from live_counts_are_exact [OF sv(1) demo_sha_length order_refl _ a(1) refl, of Full] sv(1) show ?thesis unfolding W by auto
qed

subsection \<open>Isolation\<close>

text \<open>C17: spaces are isolated: a call to one space leaves every stored byte of every other space unchanged.\<close>

theorem spaces_are_isolated:
  assumes "server_reach sha256 n now sv" "\<forall>x. length (sha256 x) = 32" "now \<le> now'" "wf_command cmd"
    and "n + command_volume cmd + 1 < 2 ^ 64" "i \<noteq> j" "prefix (encode_components [j]) k"
  shows "MemoryStore_get (sv_store (snd (Server_call sha256 now' i cmd sv))) k = MemoryStore_get (sv_store sv) k"
proof -
  obtain reply sv' where call: "Server_call sha256 now' i cmd sv = (reply, sv')" by fastforce
  have "MemoryStore_get (sv_store sv') k = MemoryStore_get (sv_store sv) k"
  proof (rule Server_call_cases [OF server_reach_inv [OF assms(1,2)] assms(3,4,2,5) call], goal_cases)
    case (3 sp res sp' ops bs T bs' T')
    show ?case unfolding 3(6)
      by (rule MemoryStore_get_frame [OF data_reprD(1) [OF space_okD(1) [OF 3(3)]] 3(7) assms(7)]) (use assms(6) in simp)
  qed simp_all
  with call show ?thesis by simp
qed

text \<open>The witness: the example request does not touch the counters of another space.\<close>

theorem spaces_are_isolated_witness:
  "MemoryStore_get (sv_store (snd (Server_call demo_sha 5 demo_space (Admit demo_request) demo_server))) (counters_key (replicate 16 9)) = None"
proof -
  have p: "prefix (encode_components [replicate 16 9]) (counters_key (replicate 16 9))"
    by (simp add: skey_bytes_eqs space_prefix del: encode_components_Cons)
  have "demo_space \<noteq> replicate 16 9" by (simp add: demo_space_def)
  from spaces_are_isolated [OF demo_reach demo_sha_length _ demo_command this p, of 5] show ?thesis
    by (simp add: demo_server_def create_space_def Server_new_def MemoryStore_get_def)
qed

text \<open>C18: the store is well typed: below every space's prefix there are only keys of the schema, and every
  value decodes as the record its key calls for, so no read ever meets a corrupt record.\<close>

theorem stored_records_are_well_typed:
  assumes "server_reach sha256 n now sv" "\<forall>x. length (sha256 x) = 32" "wf_id i"
    and "MemoryStore_get (sv_store sv) k = Some v" "prefix (encode_components [i]) k"
  shows "\<exists>s. wf_skey s \<and> k = skey_bytes i s \<and> record_decodes s v"
proof -
  obtain bs T where ok: "space_ok n now i (sv_store sv) bs T"
    using server_reach_inv [OF assms(1,2)] assms(3) by (auto simp: server_inv_def)
  obtain s where s: "wf_skey s" "k = skey_bytes i s"
    using data_reprD(2) [OF space_okD(1) [OF ok]] assms(4,5) unfolding keys_ok_def by blast
  with stored_record_decodes [OF ok s(1), of v] assms(4) show ?thesis by (auto simp: sget_def)
qed

text \<open>The witness: the counters of the example history.\<close>

theorem stored_records_are_well_typed_witness:
  "\<exists>(sv :: Server) s v. wf_skey s \<and> counters_key demo_space = skey_bytes demo_space s \<and>
     MemoryStore_get (sv_store sv) (counters_key demo_space) = Some v \<and> record_decodes s v"
proof -
  obtain sv where sv: "server_reach demo_sha 3 5 sv" "space_ok 3 5 demo_space (sv_store sv) [demo_batch] Map.empty"
    by (rule demo_history)
  obtain k where "counters demo_space (sv_store sv) = Inr \<lparr>next_lease_id = k, admission_high_water = 1\<rparr>"
    using data_reprD(8) [OF space_okD(1) [OF sv(2)]] by auto
  then obtain v where v: "MemoryStore_get (sv_store sv) (counters_key demo_space) = Some v"
    by (cases "MemoryStore_get (sv_store sv) (counters_key demo_space)")
      (auto simp: counters_def read_with_def CountersRecord_default_def)
  have p: "prefix (encode_components [demo_space]) (counters_key demo_space)"
    by (simp add: skey_bytes_eqs space_prefix del: encode_components_Cons)
  from stored_records_are_well_typed [OF sv(1) demo_sha_length demo_wf(1) v p] v show ?thesis by blast
qed

subsection \<open>Availability\<close>

text \<open>C9: a live space answers: every request other than a listing whose cursor lies beyond its prefix gets a
  reply or a kernel rejection, never an unavailability, and the actor goes on; in particular no
  stored state and no request makes any other verb panic.\<close>

theorem live_spaces_answer:
  assumes "server_reach sha256 n now sv" "\<forall>x. length (sha256 x) = 32" "now \<le> now'" "wf_command cmd"
    and "n + command_volume cmd + 1 < 2 ^ 64" "alive i sv" "\<forall>req. cmd = List req \<longrightarrow> \<not> beyond_prefix req"
  shows "\<exists>r sv'. Server_call sha256 now' i cmd sv = (Some r, sv') \<and>
    ((\<exists>reply. r = Inr reply) \<or> (\<exists>err. r = Inl (KernelRejection err))) \<and> alive i sv'"
proof -
  note inv = server_reach_inv [OF assms(1,2)]
  obtain bs T where ok: "space_ok n now i (sv_store sv) bs T"
    using inv assms(6) unfolding server_inv_def alive_def by blast
  show ?thesis
  proof (rule live_call [OF inv assms(3,4,2,5,6) ok])
    fix res sv' bs' T'
    assume c: "Server_call sha256 now' i cmd sv = (Some (reply_or_dropped res), sv')" "space_spec sha256 i now' cmd bs T res bs' T'"
      "if reply_of res = None then bt_get (sv_spaces sv') i = Some (Some None) else alive i sv'"
    from space_spec_reply [OF c(2)] assms(7) have "(\<exists>reply. res = Inr reply) \<or> (\<exists>err. res = Inl (Kernel err))" by blast
    with c(1,3) show ?thesis by (auto simp: reply_or_dropped_def)
  qed
qed

text \<open>The witness: the example request.\<close>

theorem live_spaces_answer_witness:
  "\<exists>r sv'. Server_call demo_sha 5 demo_space (Admit demo_request) demo_server = (Some r, sv') \<and> alive demo_space sv'"
  using live_spaces_answer [OF demo_reach demo_sha_length _ demo_command demo_alive, of 5] by auto

text \<open>C10: the exception is fatal: a listing whose cursor sorts after the whole subtree of its prefix makes
  the actor panic on any store, and from then on, through any further execution, every request to
  that space is answered as unavailable.\<close>

theorem list_cursor_beyond_its_prefix_stops_the_space:
  assumes "server_reach sha256 n now sv" "\<forall>x. length (sha256 x) = 32" "now \<le> t" "n + 1 < 2 ^ 64" "alive i sv"
    and "lq_start_after req = Some a" "lq_prefix req < a" "\<not> prefix (lq_prefix req) a"
    and "Server_call sha256 t i (List req) sv = (reply, sv1)" "server_run sha256 n t sv1 n' now' sv2"
  shows "reply = Some (Inl (Unavailable ''space actor dropped mid-request'')) \<and>
    fst (Server_call sha256 t' i cmd sv2) = Some (Inl (Unavailable ''space actor has shut down''))"
proof -
  note inv = server_reach_inv [OF assms(1,2)]
  have b: "beyond_prefix req" using assms(6-8) by (simp add: beyond_prefix_def)
  obtain bs T where ok: "space_ok n now i (sv_store sv) bs T"
    using inv assms(5) unfolding server_inv_def alive_def by blast
  have w: "wf_command (List req)" "n + command_volume (List req) + 1 < 2 ^ 64" using assms(4) by simp_all
  obtain res bs' T' where c: "reply = Some (reply_or_dropped res)" "space_spec sha256 i t (List req) bs T res bs' T'"
    "server_inv n t sv1" "if reply_of res = None then bt_get (sv_spaces sv1) i = Some (Some None) else alive i sv1"
    by (rule live_call [OF inv assms(3) w(1) assms(2) w(2) assms(5) ok]) (use assms(9) in auto)
  have none: "reply_of res = None" using space_spec_reply [OF c(2)] b by auto
  then have "bt_get (sv_spaces sv2) i = Some (Some None)"
    using server_run_gone [OF assms(10) c(3) assms(2)] c(4) by simp
  with none c(1) show ?thesis
    by (simp add: reply_or_dropped_def Server_call_def Server_space_def SpaceHandle_call_def)
qed

text \<open>The witness: after the example admission, listing below \<open>[7]\<close> after the key \<open>[8]\<close>.\<close>

theorem list_cursor_beyond_its_prefix_stops_the_space_witness:
  "\<exists>sv. server_reach demo_sha 3 5 sv \<and> sv_store sv \<noteq> [] \<and>
     fst (Server_call demo_sha 5 demo_space (List \<lparr>lq_prefix = [[7]], lq_start_after = Some [[8]], lq_limit = None\<rparr>) sv) =
       Some (Inl (Unavailable ''space actor dropped mid-request''))"
proof -
  obtain sv where sv: "server_reach demo_sha 3 5 sv" "alive demo_space sv"
    "space_ok 3 5 demo_space (sv_store sv) [demo_batch] Map.empty" by (rule demo_history)
  have "sv_store sv \<noteq> []"
  proof
    assume "sv_store sv = []"
    then have "data_repr demo_space (sv_store sv) []" using data_repr_empty by simp
    from data_repr_unique [OF this space_okD(1) [OF sv(3)] demo_wf(1)] show False by simp
  qed
  moreover obtain reply sv1 where call: "Server_call demo_sha 5 demo_space
      (List \<lparr>lq_prefix = [[7]], lq_start_after = Some [[8]], lq_limit = None\<rparr>) sv = (reply, sv1)" by fastforce
  ultimately show ?thesis
    using list_cursor_beyond_its_prefix_stops_the_space [OF sv(1) demo_sha_length _ _ sv(2) _ _ _ call server_run.stopped,
      of "[[8]]" 5 "Get []"] call sv(1) by auto
qed

text \<open>C19: waiting ends: when a request for one lease is refused with a retry time, the same request is granted
  once that time has passed, if no other request reached the space in between.\<close>

theorem refused_lease_is_granted_after_the_wait:
  assumes "server_reach sha256 n now sv" "\<forall>x. length (sha256 x) = 32" "now \<le> t" "alive i sv" "wf_acquire req"
    and "n + 2 * length (aq_specs req) + 1 < 2 ^ 64" "aq_specs req = [spec]"
    and "Server_call sha256 t i (Acquire req) sv = (Some (Inl (KernelRejection (Contended p (Some w)))), sv1)"
    and "t \<le> t'" "t + millis_u64 w \<le> t'"
  shows "\<exists>leases. fst (Server_call sha256 t' i (Acquire req) sv1) = Some (Inr (Acquired leases))"
proof -
  note inv = server_reach_inv [OF assms(1,2)]
  obtain bs T where ok: "space_ok n now i (sv_store sv) bs T"
    using inv assms(4) unfolding server_inv_def alive_def by blast
  have v: "command_volume (Acquire req) = 1" "wf_command (Acquire req)" using assms(5,7) by simp_all
  obtain res bs1 T1 where c: "reply_or_dropped res = Inl (KernelRejection (Contended p (Some w)))"
    "space_spec sha256 i t (Acquire req) bs T res bs1 T1" "space_ok (n + 1) t i (sv_store sv1) bs1 T1" "server_inv (n + 1) t sv1"
    "if reply_of res = None then bt_get (sv_spaces sv1) i = Some (Some None) else alive i sv1"
    by (rule live_call [OF inv assms(3) v(2) assms(2) _ assms(4) ok]) (use assms(6,7,8) in auto)
  from space_spec_reply [OF c(2)] c(1) have res: "res = Inl (Kernel (Contended p (Some w)))"
    by (auto simp: reply_or_dropped_def)
  have "purged t T T1 \<and> (\<exists>v'. (\<forall>rec \<in> blocking t T spec. \<not> is_live rec (t + v')) \<and> w = from_millis v')"
    by (rule space_spec_acquire [OF c(2)]) (simp_all add: res assms(7), blast)
  then obtain v' where T1: "purged t T T1" and dead: "\<forall>rec \<in> blocking t T spec. \<not> is_live rec (t + v')" and w: "w = from_millis v'"
    by blast
  have "blocking t' T1 spec = {}"
  proof (rule ccontr)
    assume "blocking t' T1 spec \<noteq> {}"
    then obtain lid rec where rec: "T1 lid = Some rec" "is_live rec t'" "key_overlap (lr_prefix rec) (ls_prefix spec)"
      "\<not> compatible_with (ls_mode spec) (lr_mode rec)" by (auto simp: blocking_def ran_def)
    have "rec \<in> blocking t T spec"
      using purgedD [OF T1 rec(1)] rec(2-4) assms(9) by (auto simp: blocking_def is_live_def ran_def)
    with dead rec(2) assms(10) w show False by (auto simp: is_live_def)
  qed
  moreover have "alive i sv1" using c(5) res by simp
  moreover have "acquire_self_overlap (aq_specs req) = None" by (simp add: assms(7))
  ultimately show ?thesis
  proof -
    assume free: "blocking t' T1 spec = {}" and al: "alive i sv1" and self: "acquire_self_overlap (aq_specs req) = None"
    show ?thesis
    proof (rule live_call [OF c(4) assms(9) v(2) assms(2) _ al c(3)])
      fix res' sv' bs' T'
      assume d: "Server_call sha256 t' i (Acquire req) sv1 = (Some (reply_or_dropped res'), sv')"
        "space_spec sha256 i t' (Acquire req) bs1 T1 res' bs' T'"
      from d(2) free self have "\<exists>leases. res' = Inr (Acquired leases)" by (auto elim!: space_spec_acquire simp: assms(7))
      with d(1) show ?thesis by (auto simp: reply_or_dropped_def)
    qed (use assms(6,7) in simp)
  qed
qed

text \<open>The witness: another device waits for the example leases.\<close>

theorem refused_lease_is_granted_after_the_wait_witness:
  "\<exists>sv t leases. fst (Server_call demo_sha t demo_space (Acquire \<lparr>aq_device = replicate 16 3, aq_requested_at = HybridTimestamp_ZERO,
     aq_specs = [\<lparr>ls_prefix = [[7]], ls_mode = Write, ls_ttl = 1000000000\<rparr>]\<rparr>) sv) = Some (Inr (Acquired leases))"
proof -
  let ?req = "\<lparr>aq_device = replicate 16 3, aq_requested_at = HybridTimestamp_ZERO,
     aq_specs = [\<lparr>ls_prefix = [[7]], ls_mode = Write, ls_ttl = 1000000000\<rparr>]\<rparr>"
  obtain sv k where sv: "server_reach demo_sha 2 5 sv" "alive demo_space sv"
    "space_ok 2 5 demo_space (sv_store sv) [] (granted_table (demo_records k) Map.empty)" by (rule demo_leases)
  let ?T = "granted_table (demo_records k) Map.empty"
  obtain a where a: "?T k = Some (norm_lease a)" "lr_prefix a = [[7]]" "is_live a 5"
    by (simp add: demo_records_def demo_acquire_def granted_record_def is_live_def Timestamp_saturating_add_def
        millis_u64_def as_millis_def sat_add64_def word_less_nat_alt granted_table_def)
  have blk: "blocking 5 ?T \<lparr>ls_prefix = [[7]], ls_mode = Write, ls_ttl = 1000000000\<rparr> \<noteq> {}"
    using a by (auto simp: blocking_def key_overlap_def intro!: exI [of _ "norm_lease a"] ranI [of _ k])
  have req: "wf_acquire ?req" "2 + 2 * length (aq_specs ?req) + 1 < 2 ^ 64"
    by (simp_all add: wf_acquire_def wf_id_def wf_stamp_def HybridTimestamp_ZERO_def Lineage_NONE_def wf_key_def wf_component_def key_limits)
  have c: "wf_command (Acquire ?req)" "2 + command_volume (Acquire ?req) + 1 < 2 ^ 64" using req(1) by simp_all
  obtain res sv1 bs' T' where call: "Server_call demo_sha 5 demo_space (Acquire ?req) sv = (Some (reply_or_dropped res), sv1)"
    and spec: "space_spec demo_sha demo_space 5 (Acquire ?req) [] ?T res bs' T'"
    by (rule live_call [OF server_reach_inv [OF sv(1) demo_sha_length] order_refl c(1) demo_sha_length c(2) sv(2,3)])
  from spec blk obtain p w where "res = Inl (Kernel (Contended p (Some w)))"
    by (auto elim!: space_spec_acquire)
  with call have call': "Server_call demo_sha 5 demo_space (Acquire ?req) sv = (Some (Inl (KernelRejection (Contended p (Some w)))), sv1)"
    by (simp add: reply_or_dropped_def)
  from refused_lease_is_granted_after_the_wait [OF sv(1) demo_sha_length order_refl sv(2) req _ call', of _ "max 5 (5 + millis_u64 w)"]
  show ?thesis by auto
qed

end
