(* ===== verification/Coordination.thy ===== *)
theory Coordination
  imports Store Tag
begin

text \<open>
  The client's coordination loop, \<open>client/src/coordination.rs\<close>: one thread owns the session state and
  grants the right to run a workflow on a space to one caller at a time.  The first part
  translates the loop: \<open>grant_next\<close> and one iteration of \<open>run\<close>, where \<open>send\<close> tells whether the receiver
  of a waiter's one-shot channel still exists.  The second part puts the loop beside its callers:
  a caller enters, receives its grant, drops its permit, or is cancelled at any point, and these
  steps interleave with the loop's in any order.  The history lists of the system record the order
  in which waiters entered and were granted.
\<close>

subsection \<open>The loop\<close>

type_synonym Waiter = nat

datatype ('s, 'r) LoopCommand = Call "'s \<Rightarrow> 'r \<times> 's" | Enter SpaceId Waiter | Leave SpaceId

type_synonym queues = "(SpaceId, Waiter list) btree"

fun grant_queue :: "(Waiter \<Rightarrow> bool) \<Rightarrow> Waiter list \<Rightarrow> (Waiter \<times> Waiter list) option" where
  "grant_queue send [] = None"
| "grant_queue send (waiter # waiters) = (if send waiter then Some (waiter, waiters) else grant_queue send waiters)"

definition grant_next :: "(Waiter \<Rightarrow> bool) \<Rightarrow> queues \<Rightarrow> SpaceId \<Rightarrow> queues \<times> Waiter option" where
  "grant_next send active space =
     (case bt_get active space of
        None \<Rightarrow> (active, None)
      | Some waiters \<Rightarrow>
          (case grant_queue send waiters of
             Some (waiter, rest) \<Rightarrow> (bt_insert space rest (bt_remove space active), Some waiter)
           | None \<Rightarrow> (bt_remove space active, None)))"

text \<open>One iteration of \<open>run\<close>: the new session state and queues, the reply of a call, the waiter granted.\<close>

fun run_command ::
  "(Waiter \<Rightarrow> bool) \<Rightarrow> ('s, 'r) LoopCommand \<Rightarrow> 's \<times> queues \<Rightarrow> ('s \<times> queues) \<times> 'r option \<times> Waiter option" where
  "run_command send (Call f) (state, active) = (case f state of (reply, state') \<Rightarrow> ((state', active), Some reply, None))"
| "run_command send (Enter space waiter) (state, active) =
     (case bt_get active space of
        Some waiters \<Rightarrow> ((state, bt_insert space (waiters @ [waiter]) active), None, None)
      | None \<Rightarrow>
          if send waiter then ((state, bt_insert space [] active), None, Some waiter)
          else ((state, active), None, None))"
| "run_command send (Leave space) (state, active) =
     (case grant_next send active space of (active', granted) \<Rightarrow> ((state, active'), None, granted))"

subsection \<open>The loop and its callers\<close>

text \<open>The life of one call of \<open>enter\<close>: the future waits on its channel, the grant has been sent but not
  yet received, the permit exists, and everything is over.\<close>

datatype Ticket = Fresh | Waiting SpaceId | Granted SpaceId | Holding SpaceId | Gone

fun ticket_space :: "Ticket \<Rightarrow> SpaceId option" where
  "ticket_space (Waiting s) = Some s"
| "ticket_space (Granted s) = Some s"
| "ticket_space (Holding s) = Some s"
| "ticket_space _ = None"

definition is_waiting :: "Ticket \<Rightarrow> bool" where
  "is_waiting t = (case t of Waiting _ \<Rightarrow> True | _ \<Rightarrow> False)"

record ('s, 'r) Coordinator =
  cl_state :: 's
  cl_active :: queues
  cl_inbox :: "('s, 'r) LoopCommand list"
  cl_ticket :: "Waiter \<Rightarrow> Ticket"
  cl_entered :: "(SpaceId \<times> Waiter) list"
  cl_granted :: "(SpaceId \<times> Waiter) list"

definition Coordinator_new :: "'s \<Rightarrow> ('s, 'r) Coordinator" where
  "Coordinator_new s = \<lparr>cl_state = s, cl_active = [], cl_inbox = [], cl_ticket = (\<lambda>_. Fresh), cl_entered = [], cl_granted = []\<rparr>"

text \<open>One iteration of the loop inside the system: the granted waiter finds its grant in its channel.\<close>

definition loop_step :: "('s, 'r) Coordinator \<Rightarrow> ('s, 'r) Coordinator" where
  "loop_step c =
     (case cl_inbox c of
        [] \<Rightarrow> c
      | cmd # inbox \<Rightarrow>
          (case run_command (\<lambda>w. is_waiting (cl_ticket c w)) cmd (cl_state c, cl_active c) of
             ((state, active), _, granted) \<Rightarrow>
               let c' = c\<lparr>cl_state := state, cl_active := active, cl_inbox := inbox\<rparr> in
               (case granted of
                  None \<Rightarrow> c'
                | Some w \<Rightarrow>
                    let s = the (ticket_space (cl_ticket c w)) in
                    c'\<lparr>cl_ticket := (cl_ticket c)(w := Granted s), cl_granted := cl_granted c @ [(s, w)]\<rparr>)))"

datatype Event = Called | Entered Waiter | Looped | Accepted Waiter | Dropped Waiter | Cancelled Waiter | Abandoned Waiter

inductive coord_step :: "Event \<Rightarrow> ('s, 'r) Coordinator \<Rightarrow> ('s, 'r) Coordinator \<Rightarrow> bool" where
  called: "coord_step Called c (c\<lparr>cl_inbox := cl_inbox c @ [Call f]\<rparr>)"
| entered: "cl_ticket c w = Fresh \<Longrightarrow> coord_step (Entered w) c
    (c\<lparr>cl_inbox := cl_inbox c @ [Enter s w], cl_ticket := (cl_ticket c)(w := Waiting s), cl_entered := cl_entered c @ [(s, w)]\<rparr>)"
| looped: "cl_inbox c \<noteq> [] \<Longrightarrow> coord_step Looped c (loop_step c)"
| accepted: "cl_ticket c w = Granted s \<Longrightarrow> coord_step (Accepted w) c (c\<lparr>cl_ticket := (cl_ticket c)(w := Holding s)\<rparr>)"
| dropped: "cl_ticket c w = Holding s \<Longrightarrow> coord_step (Dropped w) c
    (c\<lparr>cl_ticket := (cl_ticket c)(w := Gone), cl_inbox := cl_inbox c @ [Leave s]\<rparr>)"
| cancelled: "cl_ticket c w = Waiting s \<Longrightarrow> coord_step (Cancelled w) c (c\<lparr>cl_ticket := (cl_ticket c)(w := Gone)\<rparr>)"
| abandoned: "cl_ticket c w = Granted s \<Longrightarrow> coord_step (Abandoned w) c (c\<lparr>cl_ticket := (cl_ticket c)(w := Gone)\<rparr>)"

inductive coord_run :: "Event list \<Rightarrow> ('s, 'r) Coordinator \<Rightarrow> ('s, 'r) Coordinator \<Rightarrow> bool" where
  start: "coord_run [] c c"
| continue: "coord_run evs c c' \<Longrightarrow> coord_step ev c' c'' \<Longrightarrow> coord_run (evs @ [ev]) c c''"

subsection \<open>The invariant\<close>

definition owners :: "('s, 'r) Coordinator \<Rightarrow> SpaceId \<Rightarrow> Waiter set" where
  "owners c s = {w. cl_ticket c w = Granted s \<or> cl_ticket c w = Holding s}"

fun leaves :: "SpaceId \<Rightarrow> ('s, 'r) LoopCommand list \<Rightarrow> nat" where
  "leaves s [] = 0"
| "leaves s (Leave s' # cmds) = (if s' = s then 1 else 0) + leaves s cmds"
| "leaves s (_ # cmds) = leaves s cmds"

fun enters :: "SpaceId \<Rightarrow> ('s, 'r) LoopCommand list \<Rightarrow> Waiter list" where
  "enters s [] = []"
| "enters s (Enter s' w # cmds) = (if s' = s then [w] else []) @ enters s cmds"
| "enters s (_ # cmds) = enters s cmds"

definition pending :: "('s, 'r) Coordinator \<Rightarrow> SpaceId \<Rightarrow> Waiter list" where
  "pending c s = (case bt_get (cl_active c) s of None \<Rightarrow> [] | Some ws \<Rightarrow> ws) @ enters s (cl_inbox c)"

definition tokens :: "('s, 'r) Coordinator \<Rightarrow> SpaceId \<Rightarrow> nat" where
  "tokens c s = card (owners c s) + leaves s (cl_inbox c)"

definition of_space :: "SpaceId \<Rightarrow> (SpaceId \<times> Waiter) list \<Rightarrow> Waiter list" where
  "of_space s xs = map snd (filter (\<lambda>x. fst x = s) xs)"

definition coord_inv :: "('s, 'r) Coordinator \<Rightarrow> bool" where
  "coord_inv c \<longleftrightarrow> bt_wf (cl_active c) \<and>
     (\<forall>s. finite (owners c s) \<and> tokens c s \<le> (if bt_get (cl_active c) s = None then 0 else 1)) \<and>
     (\<forall>s w. w \<in> set (pending c s) \<longrightarrow> cl_ticket c w \<noteq> Fresh \<and> ticket_space (cl_ticket c w) \<in> {None, Some s}) \<and>
     (\<forall>s. subseq (of_space s (cl_granted c) @ pending c s) (of_space s (cl_entered c))) \<and>
     (\<forall>w. w \<in> snd ` set (cl_entered c) \<longrightarrow> cl_ticket c w \<noteq> Fresh) \<and> distinct (map snd (cl_entered c))"

text \<open>No wake-up is lost: a space with an entry in the queues has an owner, or its owner's \<open>Leave\<close> is on
  the way, and everyone who waits is in a queue or on the way to it.\<close>

definition coord_live :: "('s, 'r) Coordinator \<Rightarrow> bool" where
  "coord_live c \<longleftrightarrow> (\<forall>s. bt_get (cl_active c) s \<noteq> None \<longrightarrow> 0 < tokens c s) \<and>
     (\<forall>s w. cl_ticket c w = Waiting s \<longrightarrow> w \<in> set (pending c s))"

lemma leaves_append [simp]: "leaves s (xs @ ys) = leaves s xs + leaves s ys"
  by (induction s xs rule: leaves.induct) auto

lemma enters_append [simp]: "enters s (xs @ ys) = enters s xs @ enters s ys"
  by (induction s xs rule: enters.induct) auto

lemma of_space_append [simp]: "of_space s (xs @ ys) = of_space s xs @ of_space s ys"
  by (simp add: of_space_def)

lemma of_space_simps [simp]: "of_space s [] = []" "of_space s (x # xs) = (if fst x = s then [snd x] else []) @ of_space s xs"
  by (simp_all add: of_space_def)

lemma grant_queue_Some:
  "grant_queue send ws = Some (w, rest) \<Longrightarrow> send w \<and> (\<exists>skipped. ws = skipped @ w # rest \<and> (\<forall>v \<in> set skipped. \<not> send v))"
proof (induction ws)
  case (Cons v ws)
  show ?case
  proof (cases "send v")
    case True
    with Cons.prems show ?thesis by auto
  next
    case False
    with Cons obtain skipped where "send w" "ws = skipped @ w # rest" "\<forall>u \<in> set skipped. \<not> send u" by auto
    with False have "v # ws = (v # skipped) @ w # rest" "\<forall>u \<in> set (v # skipped). \<not> send u" by auto
    with \<open>send w\<close> show ?thesis by blast
  qed
qed simp

lemma grant_queue_None: "grant_queue send ws = None \<longleftrightarrow> (\<forall>w \<in> set ws. \<not> send w)"
  by (induction ws) auto

text \<open>The effect of one iteration: either a waiter at the front is granted, or nobody is.\<close>

lemma loop_step_effect:
  assumes "bt_wf (cl_active c)" "cl_inbox c = cmd # inbox"
    and "\<forall>s w. w \<in> set (pending c s) \<longrightarrow> ticket_space (cl_ticket c w) \<in> {None, Some s}"
  obtains (quiet) "cl_ticket (loop_step c) = cl_ticket c" "cl_granted (loop_step c) = cl_granted c"
      "\<And>s. (bt_get (cl_active (loop_step c)) s = None) = (bt_get (cl_active c) s = None)"
      "\<And>s. pending (loop_step c) s = pending c s \<or>
        (\<exists>w ws. pending c s = w # ws \<and> pending (loop_step c) s = ws \<and> \<not> is_waiting (cl_ticket c w))"
      "\<And>s. leaves s inbox \<noteq> leaves s (cl_inbox c) \<Longrightarrow> bt_get (cl_active c) s = None"
  | (freed) s where "cmd = Leave s" "cl_ticket (loop_step c) = cl_ticket c" "cl_granted (loop_step c) = cl_granted c"
      "\<And>s'. bt_get (cl_active (loop_step c)) s' = (if s' = s then None else bt_get (cl_active c) s')"
      "\<And>s'. s' \<noteq> s \<Longrightarrow> pending (loop_step c) s' = pending c s'"
      "\<exists>skipped. pending c s = skipped @ pending (loop_step c) s \<and> (\<forall>w \<in> set skipped. \<not> is_waiting (cl_ticket c w))"
  | (granted) s w where "cl_ticket c w = Waiting s" "cl_ticket (loop_step c) = (cl_ticket c)(w := Granted s)"
      "cl_granted (loop_step c) = cl_granted c @ [(s, w)]" "cmd = Leave s \<or> leaves s inbox = leaves s (cl_inbox c)"
      "(bt_get (cl_active c) s = None) = (cmd \<noteq> Leave s)" "\<And>s'. s' \<noteq> s \<Longrightarrow> leaves s' inbox = leaves s' (cl_inbox c)"
      "\<And>s'. (bt_get (cl_active (loop_step c)) s' = None) = (if s' = s then False else bt_get (cl_active c) s' = None)"
      "\<And>s'. s' \<noteq> s \<Longrightarrow> pending (loop_step c) s' = pending c s'"
      "\<exists>skipped. pending c s = skipped @ w # pending (loop_step c) s \<and> (\<forall>v \<in> set skipped. \<not> is_waiting (cl_ticket c v))"
proof (cases cmd)
  case (Call f)
  with assms show thesis
    by (intro quiet) (auto simp: loop_step_def pending_def split: prod.splits)
next
  case (Enter s w)
  show thesis
  proof (cases "bt_get (cl_active c) s")
    case None
    show thesis
    proof (cases "is_waiting (cl_ticket c w)")
      case True
      then have w: "cl_ticket c w = Waiting s"
        using assms(3) [rule_format, of w s] assms(2) Enter by (auto simp: pending_def is_waiting_def split: Ticket.splits)
      show thesis
        by (rule granted [of w s]) (use assms(1,2) Enter None True w in \<open>auto simp: loop_step_def pending_def\<close>)
    next
      case False
      then show thesis
        by (intro quiet) (use assms(1,2) Enter None in \<open>auto simp: loop_step_def pending_def\<close>)
    qed
  next
    case (Some ws)
    then show thesis
      by (intro quiet) (use assms(1,2) Enter in \<open>auto simp: loop_step_def pending_def\<close>)
  qed
next
  case (Leave s)
  show thesis
  proof (cases "bt_get (cl_active c) s")
    case None
    then show thesis
      by (intro quiet) (use assms(1,2) Leave in \<open>auto simp: loop_step_def pending_def grant_next_def split: if_splits\<close>)
  next
    case (Some ws)
    let ?send = "\<lambda>w. is_waiting (cl_ticket c w)"
    show thesis
    proof (cases "grant_queue ?send ws")
      case None
      with Some Leave assms(2) have eq: "loop_step c = c\<lparr>cl_active := bt_remove s (cl_active c), cl_inbox := inbox\<rparr>"
        by (simp add: loop_step_def grant_next_def)
      have "\<forall>w \<in> set ws. \<not> is_waiting (cl_ticket c w)" using None by (simp add: grant_queue_None)
      with Some Leave assms(1,2) show thesis
        by (intro freed [of s]) (auto simp: eq pending_def)
    next
      case (Some p)
      then obtain w rest where p: "grant_queue ?send ws = Some (w, rest)" by (cases p) auto
      from grant_queue_Some [OF this] obtain skipped where q: "is_waiting (cl_ticket c w)" "ws = skipped @ w # rest"
        "\<forall>v \<in> set skipped. \<not> is_waiting (cl_ticket c v)" by blast
      then have w: "cl_ticket c w = Waiting s"
        using assms(3) [rule_format, of w s] \<open>bt_get (cl_active c) s = Some ws\<close>
        by (auto simp: pending_def is_waiting_def split: Ticket.splits)
      show thesis
        by (rule granted [of w s])
          (use assms(1,2) Leave \<open>bt_get (cl_active c) s = Some ws\<close> p q w in \<open>auto simp: loop_step_def pending_def grant_next_def\<close>)
    qed
  qed
qed

lemma loop_step_frame:
  assumes "cl_inbox c = cmd # inbox"
  shows "cl_inbox (loop_step c) = inbox" "cl_entered (loop_step c) = cl_entered c"
    and "bt_wf (cl_active c) \<Longrightarrow> bt_wf (cl_active (loop_step c))"
  by (cases cmd; auto simp: loop_step_def assms grant_next_def Let_def split: option.splits prod.splits)+

lemma owners_update:
  "owners (c\<lparr>cl_ticket := (cl_ticket c)(w := t)\<rparr>) s =
     (if t = Granted s \<or> t = Holding s then insert w (owners c s) else owners c s - {w})"
  by (auto simp: owners_def)

lemma owners_cong: "cl_ticket c = cl_ticket c' \<Longrightarrow> owners c s = owners c' s"
  by (simp add: owners_def)

lemma coord_invD:
  assumes "coord_inv c"
  shows "bt_wf (cl_active c)" "finite (owners c s)" "tokens c s \<le> 1" "bt_get (cl_active c) s = None \<Longrightarrow> tokens c s = 0"
    and "w \<in> set (pending c s) \<Longrightarrow> cl_ticket c w \<noteq> Fresh" "w \<in> set (pending c s) \<Longrightarrow> ticket_space (cl_ticket c w) \<in> {None, Some s}"
    and "subseq (of_space s (cl_granted c) @ pending c s) (of_space s (cl_entered c))"
    and "w \<in> snd ` set (cl_entered c) \<Longrightarrow> cl_ticket c w \<noteq> Fresh" "distinct (map snd (cl_entered c))"
proof -
  from assms have "tokens c s \<le> (if bt_get (cl_active c) s = None then 0 else 1)" by (simp add: coord_inv_def)
  then show "tokens c s \<le> 1" "bt_get (cl_active c) s = None \<Longrightarrow> tokens c s = 0" by (simp_all split: if_splits)
qed (use assms in \<open>simp_all add: coord_inv_def\<close>)

lemma coord_invI:
  assumes "bt_wf (cl_active c)" "\<And>s. finite (owners c s)" "\<And>s. tokens c s \<le> (if bt_get (cl_active c) s = None then 0 else 1)"
    and "\<And>s w. w \<in> set (pending c s) \<Longrightarrow> cl_ticket c w \<noteq> Fresh \<and> ticket_space (cl_ticket c w) \<in> {None, Some s}"
    and "\<And>s. subseq (of_space s (cl_granted c) @ pending c s) (of_space s (cl_entered c))"
    and "\<And>w. w \<in> snd ` set (cl_entered c) \<Longrightarrow> cl_ticket c w \<noteq> Fresh" "distinct (map snd (cl_entered c))"
  shows "coord_inv c"
  unfolding coord_inv_def using assms by blast

lemma owner_tokens:
  assumes "coord_inv c" "w \<in> owners c s"
  shows "tokens c s = 1" "owners c s = {w}" "leaves s (cl_inbox c) = 0" "bt_get (cl_active c) s \<noteq> None"
proof -
  have "0 < card (owners c s)" using assms coord_invD(2) [OF assms(1)] by (auto simp: card_gt_0_iff)
  with coord_invD(3) [OF assms(1), of s] show *: "tokens c s = 1" "leaves s (cl_inbox c) = 0" by (simp_all add: tokens_def)
  then have "card (owners c s) = 1" by (simp add: tokens_def)
  with assms(2) show "owners c s = {w}" by (auto simp: card_1_singleton_iff)
  from * coord_invD(4) [OF assms(1), of s] show "bt_get (cl_active c) s \<noteq> None" by auto
qed

lemma suffix_subseq: "ys = skipped @ xs \<Longrightarrow> subseq (as @ xs) (as @ ys)"
  by (simp add: subseq_append' list_emb_append2)

lemma coord_inv_shrink:
  assumes inv: "coord_inv c" and same: "cl_ticket c' = cl_ticket c" "cl_granted c' = cl_granted c" "cl_entered c' = cl_entered c"
    and wf: "bt_wf (cl_active c')" and tok: "\<And>s. tokens c' s \<le> (if bt_get (cl_active c') s = None then 0 else 1)"
    and pend: "\<And>s. \<exists>skipped. pending c s = skipped @ pending c' s"
  shows "coord_inv c'"
proof (rule coord_invI)
  show "finite (owners c' s)" for s using coord_invD(2) [OF inv, of s] owners_cong [OF same(1), of s] by simp
  fix s
  obtain skipped where p: "pending c s = skipped @ pending c' s" using pend by blast
  show "subseq (of_space s (cl_granted c') @ pending c' s) (of_space s (cl_entered c'))"
    unfolding same by (rule subseq_order.trans [OF suffix_subseq [OF p] coord_invD(7) [OF inv]])
  show "cl_ticket c' w \<noteq> Fresh \<and> ticket_space (cl_ticket c' w) \<in> {None, Some s}" if "w \<in> set (pending c' s)" for w
    using coord_invD(5,6) [OF inv, of w s] that by (simp add: p same(1))
qed (use coord_invD(8,9) [OF inv] in \<open>simp_all add: same wf tok\<close>)

lemma coord_inv_grant:
  assumes inv: "coord_inv c" and w: "cl_ticket c w = Waiting s"
    and same: "cl_ticket c' = (cl_ticket c)(w := Granted s)" "cl_granted c' = cl_granted c @ [(s, w)]" "cl_entered c' = cl_entered c"
    and wf: "bt_wf (cl_active c')" and act: "\<And>s'. (bt_get (cl_active c') s' = None) = (s' \<noteq> s \<and> bt_get (cl_active c) s' = None)"
    and tok: "card (owners c s) + leaves s (cl_inbox c') = 0" "\<And>s'. s' \<noteq> s \<Longrightarrow> leaves s' (cl_inbox c') = leaves s' (cl_inbox c)"
    and pend: "\<And>s'. s' \<noteq> s \<Longrightarrow> pending c' s' = pending c s'" "pending c s = skipped @ w # pending c' s"
  shows "coord_inv c'"
proof (rule coord_invI)
  have own: "owners c' s' = (if s' = s then insert w (owners c s) else owners c s')" for s'
    using w unfolding owners_def same by auto
  then show "finite (owners c' s')" for s' using coord_invD(2) [OF inv] by simp
  have nw: "w \<notin> owners c s" using w by (simp add: owners_def)
  fix s'
  have "tokens c' s' = (if s' = s then 1 else tokens c s')"
    using tok nw coord_invD(2) [OF inv, of s] by (simp add: tokens_def own)
  then show "tokens c' s' \<le> (if bt_get (cl_active c') s' = None then 0 else 1)"
    using coord_invD(3,4) [OF inv, of s'] by (auto simp: act)
  show "subseq (of_space s' (cl_granted c') @ pending c' s') (of_space s' (cl_entered c'))"
    unfolding same(3)
    by (rule subseq_order.trans [OF _ coord_invD(7) [OF inv, of s']])
      (use pend(1) in \<open>cases "s' = s"; simp add: same(2) pend(2) subseq_append' list_emb_append2\<close>)
  have "v \<in> set (pending c s')" if "v \<in> set (pending c' s')" for v using pend that by (cases "s' = s") auto
  then show "cl_ticket c' v \<noteq> Fresh \<and> ticket_space (cl_ticket c' v) \<in> {None, Some s'}" if "v \<in> set (pending c' s')" for v
    using coord_invD(5,6) [OF inv, of v s'] that w by (auto simp: same(1))
qed (use coord_invD(8,9) [OF inv] in \<open>simp_all add: same wf\<close>)

text \<open>What an iteration leaves of the tokens.\<close>

lemma grant_tokens:
  assumes inv: "coord_inv c" and inb: "cl_inbox c = cmd # inbox"
    and "cmd = Leave s \<or> leaves s inbox = leaves s (cl_inbox c)" "(bt_get (cl_active c) s = None) = (cmd \<noteq> Leave s)"
  shows "card (owners c s) + leaves s inbox = 0"
proof (cases "cmd = Leave s")
  case True
  then show ?thesis using coord_invD(3) [OF inv, of s] by (simp add: tokens_def inb)
next
  case False
  then show ?thesis using coord_invD(4) [OF inv, of s] assms(3,4) by (simp add: tokens_def)
qed

lemma coord_inv_loop:
  assumes inv: "coord_inv c" and ne: "cl_inbox c \<noteq> []"
  shows "coord_inv (loop_step c)"
proof -
  obtain cmd inbox where inb: "cl_inbox c = cmd # inbox" using ne by (cases "cl_inbox c") auto
  note fr = loop_step_frame [OF inb] and wf = coord_invD(1) [OF inv]
  have le: "leaves s inbox \<le> leaves s (cl_inbox c)" for s by (cases cmd) (simp_all add: inb)
  have queued: "\<forall>s w. w \<in> set (pending c s) \<longrightarrow> ticket_space (cl_ticket c w) \<in> {None, Some s}"
    using coord_invD(6) [OF inv] by blast
  show ?thesis
  proof (cases rule: loop_step_effect [OF wf inb queued, case_names quiet freed granted])
    case quiet
    have tok: "tokens (loop_step c) s \<le> tokens c s" for s
      using le [of s] owners_cong [OF quiet(1), of s] by (simp add: tokens_def fr(1))
    show ?thesis
    proof (rule coord_inv_shrink [OF inv quiet(1,2) fr(2) fr(3) [OF wf]])
      show "tokens (loop_step c) s \<le> (if bt_get (cl_active (loop_step c)) s = None then 0 else 1)" for s
        using tok [of s] coord_invD(3,4) [OF inv, of s] by (auto simp: quiet(3))
      show "\<exists>skipped. pending c s = skipped @ pending (loop_step c) s" for s using quiet(4) [of s] by auto
    qed
  next
    case (freed s)
    have tok: "tokens (loop_step c) s' = (if s' = s then tokens c s - 1 else tokens c s')" for s'
      using freed(1) owners_cong [OF freed(2), of s'] by (simp add: tokens_def fr(1) inb)
    show ?thesis
    proof (rule coord_inv_shrink [OF inv freed(2,3) fr(2) fr(3) [OF wf]])
      show "tokens (loop_step c) s' \<le> (if bt_get (cl_active (loop_step c)) s' = None then 0 else 1)" for s'
        using coord_invD(3,4) [OF inv, of s'] by (auto simp: tok freed(4))
      show "\<exists>skipped. pending c s' = skipped @ pending (loop_step c) s'" for s'
        using freed(5) [of s'] freed(6) by (cases "s' = s") auto
    qed
  next
    case (granted s w)
    from granted(9) obtain skipped where sk: "pending c s = skipped @ w # pending (loop_step c) s" by blast
    show ?thesis
      by (rule coord_inv_grant [OF inv granted(1-3) fr(2) fr(3) [OF wf] _ _ _ granted(8) sk])
        (use granted(6,7) grant_tokens [OF inv inb granted(4,5)] in \<open>auto simp: fr(1)\<close>)
  qed
qed

lemma coord_inv_ticket:
  assumes inv: "coord_inv c" and t: "t \<noteq> Fresh" "ticket_space t \<in> {None, ticket_space (cl_ticket c w)}"
    and own: "\<And>s. t = Granted s \<or> t = Holding s \<Longrightarrow> w \<in> owners c s"
  shows "coord_inv (c\<lparr>cl_ticket := (cl_ticket c)(w := t)\<rparr>)" (is "coord_inv ?c")
proof (rule coord_invI)
  have sub: "owners ?c s \<subseteq> owners c s" for s using own by (auto simp: owners_def)
  then show "finite (owners ?c s)" for s using coord_invD(2) [OF inv] finite_subset by blast
  have tok: "tokens ?c s \<le> tokens c s" for s
    using card_mono [OF coord_invD(2) [OF inv] sub, of s] by (simp add: tokens_def)
  show "tokens ?c s \<le> (if bt_get (cl_active ?c) s = None then 0 else 1)" for s
    using coord_invD(3,4) [OF inv, of s] tok [of s] by auto
  have p: "pending ?c s = pending c s" for s by (simp add: pending_def)
  then show "subseq (of_space s (cl_granted ?c) @ pending ?c s) (of_space s (cl_entered ?c))" for s
    using coord_invD(7) [OF inv] by simp
  show "cl_ticket ?c v \<noteq> Fresh \<and> ticket_space (cl_ticket ?c v) \<in> {None, Some s}" if "v \<in> set (pending ?c s)" for v s
    using coord_invD(5,6) [OF inv, of v s] that t by (auto simp: p)
qed (use coord_invD [OF inv] t(1) in auto)

lemma coord_inv_inbox:
  assumes inv: "coord_inv c" and pend: "\<And>s. enters s cmds = []"
    and tok: "\<And>s. leaves s cmds \<noteq> 0 \<Longrightarrow> tokens c s + leaves s cmds \<le> 1 \<and> bt_get (cl_active c) s \<noteq> None"
  shows "coord_inv (c\<lparr>cl_inbox := cl_inbox c @ cmds\<rparr>)" (is "coord_inv ?c")
proof (rule coord_inv_shrink [OF inv])
  have "tokens ?c s = tokens c s + leaves s cmds" for s by (simp add: tokens_def owners_def)
  then show "tokens ?c s \<le> (if bt_get (cl_active ?c) s = None then 0 else 1)" for s
    using coord_invD(3,4) [OF inv, of s] tok [of s] by (cases "leaves s cmds = 0") auto
qed (use coord_invD(1) [OF inv] in \<open>simp_all add: pending_def pend\<close>)

lemma coord_inv_enter:
  assumes inv: "coord_inv c" and w: "cl_ticket c w = Fresh"
  shows "coord_inv (c\<lparr>cl_inbox := cl_inbox c @ [Enter s w], cl_ticket := (cl_ticket c)(w := Waiting s),
    cl_entered := cl_entered c @ [(s, w)]\<rparr>)" (is "coord_inv ?c")
proof (rule coord_invI)
  have own: "owners ?c s' = owners c s'" for s' using w by (auto simp: owners_def)
  then show "finite (owners ?c s')" for s' using coord_invD(2) [OF inv] by simp
  show "tokens ?c s' \<le> (if bt_get (cl_active ?c) s' = None then 0 else 1)" for s'
    using coord_invD(3,4) [OF inv, of s'] by (simp add: tokens_def own)
  have p: "pending ?c s' = pending c s' @ (if s = s' then [w] else [])" for s' by (simp add: pending_def)
  show "subseq (of_space s' (cl_granted ?c) @ pending ?c s') (of_space s' (cl_entered ?c))" for s'
    using list_emb_append_mono [OF coord_invD(7) [OF inv, of s'], of "[w]" "[w]"] coord_invD(7) [OF inv, of s'] by (simp add: p)
  have new: "w \<notin> set (pending c s')" "w \<notin> snd ` set (cl_entered c)" for s'
    using coord_invD(5,8) [OF inv] w by blast+
  then show "distinct (map snd (cl_entered ?c))" using coord_invD(9) [OF inv] by simp
  show "cl_ticket ?c v \<noteq> Fresh \<and> ticket_space (cl_ticket ?c v) \<in> {None, Some s'}" if "v \<in> set (pending ?c s')" for v s'
    using coord_invD(5,6) [OF inv, of v s'] that new by (auto simp: p split: if_splits)
  show "cl_ticket ?c v \<noteq> Fresh" if "v \<in> snd ` set (cl_entered ?c)" for v
    using coord_invD(8) [OF inv, of v] that by auto
qed (use coord_invD(1) [OF inv] in simp)

lemma coord_inv_step:
  assumes "coord_step ev c c'" "coord_inv c"
  shows "coord_inv c'"
  using assms
proof (cases rule: coord_step.cases)
  case (called f)
  show ?thesis unfolding called by (rule coord_inv_inbox [OF assms(2)]) simp_all
next
  case (dropped w s)
  then have w: "w \<in> owners c s" by (simp add: owners_def)
  let ?c = "c\<lparr>cl_ticket := (cl_ticket c)(w := Gone)\<rparr>"
  have inv: "coord_inv ?c" by (rule coord_inv_ticket [OF assms(2)]) simp_all
  have "tokens ?c s = 0" using owner_tokens [OF assms(2) w] by (simp add: tokens_def owners_update)
  with coord_inv_inbox [OF inv, of "[Leave s]"] owner_tokens(4) [OF assms(2) w] show ?thesis
    unfolding dropped by (auto split: if_splits)
qed (auto intro!: coord_inv_enter coord_inv_ticket coord_inv_loop simp: owners_def)

lemma coord_inv_new: "coord_inv (Coordinator_new s)"
  by (rule coord_invI) (simp_all add: Coordinator_new_def owners_def tokens_def pending_def bt_wf_def)

lemma coord_run_inv: "coord_run evs c c' \<Longrightarrow> coord_inv c \<Longrightarrow> coord_inv c'"
  by (induction rule: coord_run.induct) (auto intro: coord_inv_step)

subsection \<open>Progress\<close>

lemma coord_liveI:
  assumes "\<And>s. bt_get (cl_active c) s \<noteq> None \<Longrightarrow> 0 < tokens c s"
    and "\<And>s w. cl_ticket c w = Waiting s \<Longrightarrow> w \<in> set (pending c s)"
  shows "coord_live c"
  using assms by (simp add: coord_live_def)

lemma coord_liveD:
  assumes "coord_live c"
  shows "bt_get (cl_active c) s \<noteq> None \<Longrightarrow> 0 < tokens c s" "cl_ticket c w = Waiting s \<Longrightarrow> w \<in> set (pending c s)"
  using assms by (simp_all add: coord_live_def)

lemma is_waiting_Waiting [simp]: "is_waiting (Waiting s)"
  by (simp add: is_waiting_def)

lemma not_skipped: "\<forall>v \<in> set ws. \<not> is_waiting (t v) \<Longrightarrow> t w = Waiting s \<Longrightarrow> w \<notin> set ws"
  by (metis is_waiting_Waiting)

lemma coord_live_loop:
  assumes inv: "coord_inv c" and live: "coord_live c" and ne: "cl_inbox c \<noteq> []"
  shows "coord_live (loop_step c)"
proof -
  obtain cmd inbox where inb: "cl_inbox c = cmd # inbox" using ne by (cases "cl_inbox c") auto
  note fr = loop_step_frame [OF inb] and wf = coord_invD(1) [OF inv]
  have queued: "\<forall>s w. w \<in> set (pending c s) \<longrightarrow> ticket_space (cl_ticket c w) \<in> {None, Some s}"
    using coord_invD(6) [OF inv] by blast
  show ?thesis
  proof (cases rule: loop_step_effect [OF wf inb queued, case_names quiet freed granted])
    case quiet
    show ?thesis
    proof (rule coord_liveI)
      show "0 < tokens (loop_step c) s" if "bt_get (cl_active (loop_step c)) s \<noteq> None" for s
        using coord_liveD(1) [OF live, of s] that quiet(3,5) [of s] owners_cong [OF quiet(1), of s]
        by (auto simp: tokens_def fr(1))
      show "w \<in> set (pending (loop_step c) s)" if "cl_ticket (loop_step c) w = Waiting s" for s w
        using coord_liveD(2) [OF live, of w s] that quiet(4) [of s] by (auto simp: quiet(1))
    qed
  next
    case (freed s)
    show ?thesis
    proof (rule coord_liveI)
      show "0 < tokens (loop_step c) s'" if "bt_get (cl_active (loop_step c)) s' \<noteq> None" for s'
        using coord_liveD(1) [OF live, of s'] that freed(1,4) owners_cong [OF freed(2), of s']
        by (auto simp: tokens_def fr(1) inb split: if_splits)
      show "w \<in> set (pending (loop_step c) s')" if "cl_ticket (loop_step c) w = Waiting s'" for s' w
        using coord_liveD(2) [OF live, of w s'] that freed(5) [of s'] freed(6) by (cases "s' = s") (auto simp: freed(2) dest: not_skipped)
    qed
  next
    case (granted s w)
    show ?thesis
    proof (rule coord_liveI)
      show "0 < tokens (loop_step c) s'" if "bt_get (cl_active (loop_step c)) s' \<noteq> None" for s'
      proof (cases "s' = s")
        case True
        have "w \<in> owners (loop_step c) s" by (simp add: owners_def granted(2))
        with owner_tokens(1) [OF coord_inv_loop [OF inv ne] this] True show ?thesis by simp
      next
        case False
        then have "owners (loop_step c) s' = owners c s'" using granted(1) by (auto simp: owners_def granted(2))
        with False coord_liveD(1) [OF live, of s'] that granted(6,7) [of s'] show ?thesis by (simp add: tokens_def fr(1))
      qed
      show "v \<in> set (pending (loop_step c) s')" if "cl_ticket (loop_step c) v = Waiting s'" for s' v
        using coord_liveD(2) [OF live, of v s'] that granted(8) [of s'] granted(9)
        by (cases "s' = s"; cases "v = w") (auto simp: granted(2) dest: not_skipped)
    qed
  qed
qed

lemma coord_live_step:
  assumes "coord_step ev c c'" "coord_inv c" "coord_live c" "\<And>w. ev \<noteq> Abandoned w"
  shows "coord_live c'"
  using assms(1)
proof (cases rule: coord_step.cases)
  case (entered w s)
  have "owners c' s' = owners c s'" for s' using entered by (auto simp: owners_def)
  then show ?thesis
    using coord_liveD [OF assms(3)] by (intro coord_liveI) (auto simp: entered tokens_def pending_def split: if_splits)
next
  case (accepted w s)
  have "owners c' s' = owners c s'" for s' using accepted by (auto simp: owners_def)
  then show ?thesis
    using coord_liveD [OF assms(3)] by (intro coord_liveI) (auto simp: accepted tokens_def pending_def split: if_splits)
next
  case (dropped w s)
  have own: "owners c' s' = owners c s'" if "s' \<noteq> s" for s' using dropped that by (auto simp: owners_def)
  show ?thesis
  proof (rule coord_liveI)
    show "0 < tokens c' s'" if "bt_get (cl_active c') s' \<noteq> None" for s'
      using coord_liveD(1) [OF assms(3), of s'] that own [of s'] by (cases "s' = s") (auto simp: dropped tokens_def)
  qed (use coord_liveD(2) [OF assms(3)] in \<open>auto simp: dropped pending_def split: if_splits\<close>)
next
  case (cancelled w s)
  have "owners c' s' = owners c s'" for s' using cancelled by (auto simp: owners_def)
  then show ?thesis
    using coord_liveD [OF assms(3)] by (intro coord_liveI) (auto simp: cancelled tokens_def pending_def split: if_splits)
next
  case looped
  then show ?thesis using coord_live_loop [OF assms(2,3)] by simp
qed (use assms(4) coord_liveD [OF assms(3)] in \<open>auto intro!: coord_liveI simp: tokens_def pending_def owners_def\<close>)

lemma coord_live_new: "coord_live (Coordinator_new s)"
  by (rule coord_liveI) (simp_all add: Coordinator_new_def)

lemma coord_run_live:
  "coord_run evs c c' \<Longrightarrow> coord_inv c \<Longrightarrow> coord_live c \<Longrightarrow> (\<And>w. Abandoned w \<notin> set evs) \<Longrightarrow> coord_live c'"
proof (induction rule: coord_run.induct)
  case (continue evs c c' ev c'')
  then have "coord_live c'" by simp
  with continue show ?case
    using coord_live_step [OF continue.hyps(2) coord_run_inv [OF continue.hyps(1)]] by auto
qed simp

lemma coord_run_trans: "coord_run evs' c' c'' \<Longrightarrow> coord_run evs c c' \<Longrightarrow> coord_run (evs @ evs') c c''"
proof (induction rule: coord_run.induct)
  case (continue evs' c' c1 ev c2)
  then show ?case using coord_run.continue [of "evs @ evs'" c c1 ev c2] by simp
qed simp

lemma coord_run_one: "coord_step ev c c' \<Longrightarrow> coord_run [ev] c c'"
  using coord_run.continue [OF coord_run.start, of ev c c'] by simp

lemma queue_with_owner:
  assumes "coord_inv c" "coord_live c" "cl_inbox c = []" "cl_ticket c w = Waiting s"
  obtains v where "v \<in> owners c s"
proof -
  have "w \<in> set (pending c s)" using coord_liveD(2) [OF assms(2,4)] .
  then have "bt_get (cl_active c) s \<noteq> None" using assms(3) by (cases "bt_get (cl_active c) s") (simp_all add: pending_def)
  then have "0 < card (owners c s)" using coord_liveD(1) [OF assms(2)] assms(3) by (auto simp: tokens_def)
  then show thesis using that by (auto simp: card_gt_0_iff)
qed

text \<open>The steps that need no new caller: iterations of the loop, and the owners' own progress.  Each of
  them uses up a measure, and whenever somebody waits one of them can be taken.\<close>

definition own_steps :: "Event set" where
  "own_steps = {Looped} \<union> range Accepted \<union> range Dropped"

fun ticket_weight :: "Ticket \<Rightarrow> nat" where
  "ticket_weight (Waiting s) = 4"
| "ticket_weight (Granted s) = 3"
| "ticket_weight (Holding s) = 2"
| "ticket_weight _ = 0"

definition coord_weight :: "('s, 'r) Coordinator \<Rightarrow> nat" where
  "coord_weight c = length (cl_inbox c) + (\<Sum>w \<in> snd ` set (cl_entered c). ticket_weight (cl_ticket c w))"

definition all_entered :: "('s, 'r) Coordinator \<Rightarrow> bool" where
  "all_entered c \<longleftrightarrow> (\<forall>w. cl_ticket c w \<noteq> Fresh \<longrightarrow> w \<in> snd ` set (cl_entered c))"

lemma sum_update:
  assumes "finite D" "w \<in> D"
  shows "(\<Sum>v \<in> D. (g ((f(w := t)) v) :: nat)) + g (f w) = (\<Sum>v \<in> D. g (f v)) + g t"
  using assms by (simp add: sum.remove [OF assms])

lemma loop_step_tickets:
  assumes "coord_inv c" "cl_inbox c = cmd # inbox"
  shows "cl_ticket (loop_step c) = cl_ticket c \<or>
    (\<exists>w s. cl_ticket c w = Waiting s \<and> cl_ticket (loop_step c) = (cl_ticket c)(w := Granted s))"
proof -
  have queued: "\<forall>s w. w \<in> set (pending c s) \<longrightarrow> ticket_space (cl_ticket c w) \<in> {None, Some s}"
    using coord_invD(6) [OF assms(1)] by blast
  show ?thesis
    by (cases rule: loop_step_effect [OF coord_invD(1) [OF assms(1)] assms(2) queued, case_names quiet freed granted]) blast+
qed

lemma all_entered_step:
  assumes "coord_step ev c c'" "coord_inv c" "all_entered c"
  shows "all_entered c'"
  using assms(1)
proof (cases rule: coord_step.cases)
  case looped
  then obtain cmd inbox where inb: "cl_inbox c = cmd # inbox" by (cases "cl_inbox c") auto
  from loop_step_tickets [OF assms(2) inb] have "cl_ticket (loop_step c) w \<noteq> Fresh \<Longrightarrow> cl_ticket c w \<noteq> Fresh" for w
    by (auto split: if_splits)
  then show ?thesis using assms(3) unfolding all_entered_def looped loop_step_frame(2) [OF inb] by blast
qed (use assms(3) in \<open>auto simp: all_entered_def\<close>)

lemma all_entered_run: "coord_run evs c c' \<Longrightarrow> coord_inv c \<Longrightarrow> all_entered c \<Longrightarrow> all_entered c'"
  by (induction rule: coord_run.induct) (auto intro: all_entered_step coord_run_inv)

lemma own_step_weight:
  assumes "coord_step ev c c'" "ev \<in> own_steps" "coord_inv c" "all_entered c"
  shows "coord_weight c' < coord_weight c"
proof -
  have upd: "(\<Sum>v \<in> snd ` set (cl_entered c). ticket_weight (((cl_ticket c)(w := t)) v)) + ticket_weight (cl_ticket c w) =
      (\<Sum>v \<in> snd ` set (cl_entered c). ticket_weight (cl_ticket c v)) + ticket_weight t" if "cl_ticket c w \<noteq> Fresh" for w t
    using assms(4) that by (intro sum_update) (auto simp: all_entered_def)
  show ?thesis
    using assms(1)
  proof (cases rule: coord_step.cases)
    case looped
    then obtain cmd inbox where inb: "cl_inbox c = cmd # inbox" by (cases "cl_inbox c") auto
    from loop_step_tickets [OF assms(3) inb] show ?thesis
    proof
      assume "\<exists>w s. cl_ticket c w = Waiting s \<and> cl_ticket (loop_step c) = (cl_ticket c)(w := Granted s)"
      then obtain w s where w: "cl_ticket c w = Waiting s" "cl_ticket (loop_step c) = (cl_ticket c)(w := Granted s)" by blast
      then show ?thesis
        using upd [of w "Granted s"] inb unfolding coord_weight_def looped loop_step_frame [OF inb] by simp
    qed (use inb in \<open>simp add: coord_weight_def looped loop_step_frame [OF inb]\<close>)
  next
    case (accepted w s)
    then show ?thesis using upd [of w "Holding s"] by (simp add: coord_weight_def)
  next
    case (dropped w s)
    then show ?thesis using upd [of w Gone] by (simp add: coord_weight_def)
  qed (use assms(2) in \<open>auto simp: own_steps_def\<close>)
qed

lemma own_run_weight:
  "coord_run evs c c' \<Longrightarrow> set evs \<subseteq> own_steps \<Longrightarrow> coord_inv c \<Longrightarrow> all_entered c \<Longrightarrow> length evs + coord_weight c' \<le> coord_weight c"
proof (induction rule: coord_run.induct)
  case (continue evs c c' ev c'')
  have "coord_weight c'' < coord_weight c'"
    by (rule own_step_weight [OF continue.hyps(2)])
      (use continue.prems coord_run_inv [OF continue.hyps(1)] all_entered_run [OF continue.hyps(1)] in auto)
  with continue show ?case by simp
qed simp

lemma own_step_possible:
  assumes "coord_inv c" "coord_live c" "cl_ticket c w = Waiting s"
  shows "\<exists>ev c'. ev \<in> own_steps \<and> coord_step ev c c'"
proof (cases "cl_inbox c = []")
  case True
  then obtain v where "v \<in> owners c s" using queue_with_owner [OF assms(1,2) True assms(3)] by blast
  then consider "cl_ticket c v = Granted s" | "cl_ticket c v = Holding s" by (auto simp: owners_def)
  then show ?thesis
  proof cases
    case 1
    then show ?thesis using coord_step.accepted [of c v s] by (intro exI [of _ "Accepted v"]) (auto simp: own_steps_def)
  next
    case 2
    then show ?thesis using coord_step.dropped [of c v s] by (intro exI [of _ "Dropped v"]) (auto simp: own_steps_def)
  qed
next
  case False
  then show ?thesis using coord_step.looped [of c] by (intro exI [of _ Looped]) (auto simp: own_steps_def)
qed

text \<open>Nobody is overtaken: whoever has been granted a space entered it before everyone who still waits.\<close>

lemma entered_grows: "coord_run evs c c' \<Longrightarrow> \<exists>more. cl_entered c' = cl_entered c @ more"
proof (induction rule: coord_run.induct)
  case (continue evs c c' ev c'')
  have "\<exists>more. cl_entered c'' = cl_entered c' @ more"
    using continue.hyps(2)
  proof (cases rule: coord_step.cases)
    case looped
    then obtain cmd inbox where "cl_inbox c' = cmd # inbox" by (cases "cl_inbox c'") auto
    then show ?thesis by (simp add: looped loop_step_frame)
  qed auto
  with continue.IH show ?case by auto
qed simp

lemma distinct_of_space: "distinct (map snd xs) \<Longrightarrow> distinct (of_space s xs)"
  unfolding of_space_def by (induction xs) auto

lemma subseq_pair_prefix:
  assumes "subseq [v, w] (xs @ ys)" "w \<in> set xs" "distinct (xs @ ys)"
  shows "subseq [v, w] xs"
proof -
  from assms(1) obtain us vs where eq: "[v, w] = us @ vs" "subseq us xs" "subseq vs ys"
    unfolding subseq_append_iff by blast
  have "set vs \<subseteq> set ys" by (rule subseq_set [OF eq(3)])
  then have "w \<notin> set vs" using assms(2,3) by auto
  with eq(1) have "vs = []" by (cases us; cases "tl us"; cases vs) auto
  with eq show ?thesis by simp
qed

lemma granted_before_waiting:
  assumes run: "coord_run evs c c'" and inv: "coord_inv c" "coord_live c" and inv': "coord_inv c'" "coord_live c'"
    and w: "cl_ticket c w = Waiting s" "cl_ticket c' w = Waiting s" and v: "v \<in> set (of_space s (cl_granted c'))"
  shows "subseq [v, w] (of_space s (cl_entered c))"
proof -
  have "w \<in> set (pending c' s)" by (rule coord_liveD(2) [OF inv'(2) w(2)])
  with v have "subseq ([v] @ [w]) (of_space s (cl_granted c') @ pending c' s)"
    by (intro list_emb_append_mono) (simp_all add: subseq_singleton_left)
  then have "subseq [v, w] (of_space s (cl_entered c'))" using coord_invD(7) [OF inv'(1), of s] by (metis append_Cons append_Nil subseq_order.order_trans)
  moreover obtain more where more: "cl_entered c' = cl_entered c @ more" using entered_grows [OF run] by blast
  moreover have "distinct (of_space s (cl_entered c'))" by (rule distinct_of_space [OF coord_invD(9) [OF inv'(1)]])
  moreover have "w \<in> set (of_space s (cl_entered c))"
    using coord_liveD(2) [OF inv(2) w(1)] subseq_set [OF coord_invD(7) [OF inv(1), of s]] by auto
  ultimately show ?thesis using subseq_pair_prefix [of v w "of_space s (cl_entered c)"] by simp
qed

subsection \<open>Stranding\<close>

definition stranded :: "SpaceId \<Rightarrow> ('s, 'r) Coordinator \<Rightarrow> bool" where
  "stranded s c \<longleftrightarrow> owners c s = {} \<and> leaves s (cl_inbox c) = 0 \<and> bt_get (cl_active c) s \<noteq> None"

lemma stranded_loop:
  assumes inv: "coord_inv c" and st: "stranded s c" and inb: "cl_inbox c = cmd # inbox"
  shows "stranded s (loop_step c)"
proof -
  note fr = loop_step_frame [OF inb]
  have cmd: "cmd \<noteq> Leave s" "leaves s inbox = 0" using st by (cases cmd; auto simp: stranded_def inb split: if_splits)+
  have queued: "\<forall>s w. w \<in> set (pending c s) \<longrightarrow> ticket_space (cl_ticket c w) \<in> {None, Some s}"
    using coord_invD(6) [OF inv] by blast
  show ?thesis
  proof (cases rule: loop_step_effect [OF coord_invD(1) [OF inv] inb queued, case_names quiet freed granted])
    case quiet
    then show ?thesis using st cmd(2) owners_cong [OF quiet(1), of s] by (simp add: stranded_def fr(1))
  next
    case (freed s')
    then show ?thesis using st cmd owners_cong [OF freed(2), of s] by (auto simp: stranded_def fr(1))
  next
    case (granted s' w)
    have ne: "s' \<noteq> s" using granted(5) st cmd(1) by (auto simp: stranded_def)
    with granted(1,2) have "owners (loop_step c) s = owners c s" by (auto simp: owners_def)
    with ne granted(7) [of s] st cmd(2) show ?thesis by (auto simp: stranded_def fr(1))
  qed
qed

lemma stranded_step:
  assumes "coord_step ev c c'" "coord_inv c" "stranded s c"
  shows "stranded s c'"
  using assms(1)
proof (cases rule: coord_step.cases)
  case looped
  then show ?thesis using stranded_loop [OF assms(2,3)] by (cases "cl_inbox c") auto
qed (use assms(3) in \<open>auto simp: stranded_def owners_def\<close>)

lemma stranded_run: "coord_run evs c c' \<Longrightarrow> coord_inv c \<Longrightarrow> stranded s c \<Longrightarrow> stranded s c'"
  by (induction rule: coord_run.induct) (auto intro: stranded_step coord_run_inv)

lemma abandoned_stranded:
  assumes "coord_inv c" "coord_step (Abandoned w) c c'" "cl_ticket c w = Granted s"
  shows "stranded s c'"
proof -
  have w: "w \<in> owners c s" using assms(3) by (simp add: owners_def)
  have c': "c' = c\<lparr>cl_ticket := (cl_ticket c)(w := Gone)\<rparr>" using assms(2) by (cases rule: coord_step.cases) auto
  show ?thesis
    using owner_tokens(2-4) [OF assms(1) w] unfolding stranded_def c' owners_update by simp
qed

subsection \<open>What the loop guarantees\<close>

lemma demo_grant:
  obtains c :: "(unit, unit) Coordinator" where "coord_run [Entered 0, Looped] (Coordinator_new ()) c" "cl_ticket c 0 = Granted [7]"
    and "\<And>w. w \<noteq> 0 \<Longrightarrow> cl_ticket c w = Fresh"
proof -
  let ?c0 = "Coordinator_new () :: (unit, unit) Coordinator"
  let ?c1 = "?c0\<lparr>cl_inbox := cl_inbox ?c0 @ [Enter [7] 0], cl_ticket := (cl_ticket ?c0)(0 := Waiting [7]),
    cl_entered := cl_entered ?c0 @ [([7], 0)]\<rparr>"
  have "coord_step (Entered 0) ?c0 ?c1" by (rule coord_step.entered) (simp add: Coordinator_new_def)
  moreover have "coord_step Looped ?c1 (loop_step ?c1)" by (rule coord_step.looped) simp
  ultimately have "coord_run [Entered 0, Looped] ?c0 (loop_step ?c1)"
    using coord_run.continue [OF coord_run_one] by fastforce
  then show thesis by (rule that) (simp_all add: loop_step_def Coordinator_new_def Let_def)
qed

text \<open>C14: one workflow per space, first come first served: in every interleaving of callers, cancellations
  and the loop, at most one caller holds a permit for a space, and the callers are granted a space
  in the order in which they entered.\<close>

theorem one_workflow_per_space_in_order:
  assumes "coord_run evs (Coordinator_new st) c" "cl_ticket c v = Holding s" "cl_ticket c w = Holding s"
  shows "v = w \<and> subseq (of_space s (cl_granted c)) (of_space s (cl_entered c))"
proof -
  have inv: "coord_inv c" by (rule coord_run_inv [OF assms(1) coord_inv_new])
  have "v \<in> owners c s" "w \<in> owners c s" using assms(2,3) by (simp_all add: owners_def)
  with owner_tokens(2) [OF inv] have "v = w" by blast
  moreover have "subseq (of_space s (cl_granted c)) (of_space s (cl_granted c) @ pending c s)" by (rule list_emb_prefix) simp
  ultimately show ?thesis using subseq_order.trans [OF _ coord_invD(7) [OF inv, of s]] by blast
qed

text \<open>The witness: a caller that entered alone.\<close>

theorem one_workflow_per_space_in_order_witness:
  "\<exists>(c :: (unit, unit) Coordinator). cl_ticket c 0 = Holding [7] \<and> subseq (of_space [7] (cl_granted c)) (of_space [7] (cl_entered c))"
proof -
  obtain c :: "(unit, unit) Coordinator" where c: "coord_run [Entered 0, Looped] (Coordinator_new ()) c" "cl_ticket c 0 = Granted [7]"
    by (rule demo_grant)
  have "coord_run ([Entered 0, Looped] @ [Accepted 0]) (Coordinator_new ()) (c\<lparr>cl_ticket := (cl_ticket c)(0 := Holding [7])\<rparr>)"
    by (rule coord_run.continue [OF c(1) coord_step.accepted [OF c(2)]])
  from one_workflow_per_space_in_order [OF this, of 0 "[7]" 0] show ?thesis
    by (intro exI [of _ "c\<lparr>cl_ticket := (cl_ticket c)(0 := Holding [7])\<rparr>"]) simp
qed

text \<open>C15: no wake-up is lost and nobody is overtaken, as long as nobody is cancelled between being granted
  and receiving the grant.  Whoever waits for a space is granted it without outside help: the
  iterations of the loop and the owners' own progress cannot go on forever, and while the caller
  still waits one of them is possible, so every way of carrying them on to the end grants it.  And
  however many callers arrive meanwhile, or give up waiting, only callers that entered earlier are
  granted the space before it.\<close>

theorem waiting_callers_are_granted:
  assumes "coord_run evs (Coordinator_new st) c" "\<forall>w. Abandoned w \<notin> set evs" "cl_ticket c w = Waiting s"
  shows "(\<exists>bound. \<forall>evs' c'. coord_run evs' c c' \<and> set evs' \<subseteq> {Looped} \<union> range Accepted \<union> range Dropped \<longrightarrow>
      length evs' \<le> bound \<and>
      (cl_ticket c' w = Waiting s \<longrightarrow> (\<exists>ev c''. ev \<in> {Looped} \<union> range Accepted \<union> range Dropped \<and> coord_step ev c' c''))) \<and>
    (\<forall>evs' c' v. coord_run evs' c c' \<and> (\<forall>u. Abandoned u \<notin> set evs') \<and> cl_ticket c' w = Waiting s \<and>
       v \<in> set (of_space s (cl_granted c')) \<longrightarrow> subseq [v, w] (of_space s (cl_entered c)))"
proof (intro conjI allI impI)
  have inv: "coord_inv c" by (rule coord_run_inv [OF assms(1) coord_inv_new])
  have live: "coord_live c" using coord_run_live [OF assms(1) coord_inv_new coord_live_new] assms(2) by blast
  have all: "all_entered c" by (rule all_entered_run [OF assms(1) coord_inv_new]) (simp add: all_entered_def Coordinator_new_def)
  have "length evs' \<le> coord_weight c \<and> (cl_ticket c' w = Waiting s \<longrightarrow> (\<exists>ev c''. ev \<in> own_steps \<and> coord_step ev c' c''))"
    if run: "coord_run evs' c c'" "set evs' \<subseteq> own_steps" for evs' c'
  proof -
    have "Abandoned u \<notin> set evs'" for u using run(2) by (auto simp: own_steps_def)
    with own_run_weight [OF run inv all] own_step_possible [OF coord_run_inv [OF run(1) inv] coord_run_live [OF run(1) inv live]]
    show ?thesis by auto
  qed
  then show "\<exists>bound. \<forall>evs' c'. coord_run evs' c c' \<and> set evs' \<subseteq> {Looped} \<union> range Accepted \<union> range Dropped \<longrightarrow>
      length evs' \<le> bound \<and>
      (cl_ticket c' w = Waiting s \<longrightarrow> (\<exists>ev c''. ev \<in> {Looped} \<union> range Accepted \<union> range Dropped \<and> coord_step ev c' c''))"
    unfolding own_steps_def by blast
  fix evs' c' v
  assume a: "coord_run evs' c c' \<and> (\<forall>u. Abandoned u \<notin> set evs') \<and> cl_ticket c' w = Waiting s \<and> v \<in> set (of_space s (cl_granted c'))"
  then show "subseq [v, w] (of_space s (cl_entered c))"
    using coord_run_inv [of evs' c c'] coord_run_live [of evs' c c'] inv live assms(3)
    by (intro granted_before_waiting [of evs' c c']) auto
qed

text \<open>The witness: a second caller waits for the first, and a run of the owner's and the loop's steps that
  leaves it waiting is not finished.\<close>

theorem waiting_callers_are_granted_witness:
  "\<exists>(c :: (unit, unit) Coordinator) ev c'. cl_ticket c 1 = Waiting [7] \<and> ev \<in> {Looped} \<union> range Accepted \<union> range Dropped \<and> coord_step ev c c'"
proof -
  obtain c :: "(unit, unit) Coordinator" where c: "coord_run [Entered 0, Looped] (Coordinator_new ()) c"
    "\<And>w. w \<noteq> 0 \<Longrightarrow> cl_ticket c w = Fresh"
    by (rule demo_grant) blast
  let ?c = "c\<lparr>cl_inbox := cl_inbox c @ [Enter [7] 1], cl_ticket := (cl_ticket c)(1 := Waiting [7]),
    cl_entered := cl_entered c @ [([7], 1)]\<rparr>"
  have "coord_run ([Entered 0, Looped] @ [Entered 1]) (Coordinator_new ()) ?c"
    by (rule coord_run.continue [OF c(1) coord_step.entered]) (simp add: c(2))
  from waiting_callers_are_granted [OF this, of 1 "[7]", THEN conjunct1] obtain bound where
    "\<forall>evs' c'. coord_run evs' ?c c' \<and> set evs' \<subseteq> {Looped} \<union> range Accepted \<union> range Dropped \<longrightarrow> length evs' \<le> bound \<and>
      (cl_ticket c' 1 = Waiting [7] \<longrightarrow> (\<exists>ev c''. ev \<in> {Looped} \<union> range Accepted \<union> range Dropped \<and> coord_step ev c' c''))" by auto
  from this [rule_format, of "[]" ?c] coord_run.start [of ?c] show ?thesis by (intro exI [of _ ?c]) auto
qed

text \<open>C16: the exception is real: a caller cancelled after its grant was sent and before it received the
  grant leaves no permit behind to release the space, and from then on, in every further
  execution, nobody is ever granted that space.\<close>

theorem abandoned_grant_strands_the_space:
  assumes "coord_run evs (Coordinator_new st) c" "cl_ticket c w = Granted s" "coord_step (Abandoned w) c c'"
    and "coord_run evs' c' c''"
  shows "cl_ticket c'' v \<noteq> Granted s \<and> cl_ticket c'' v \<noteq> Holding s"
proof -
  have inv: "coord_inv c" by (rule coord_run_inv [OF assms(1) coord_inv_new])
  have "stranded s c''"
    by (rule stranded_run [OF assms(4) coord_inv_step [OF assms(3) inv] abandoned_stranded [OF inv assms(3,2)]])
  then show ?thesis by (auto simp: stranded_def owners_def)
qed

text \<open>The witness: the first caller is cancelled at that point and a second one enters.\<close>

theorem abandoned_grant_strands_the_space_witness:
  "\<exists>(c :: (unit, unit) Coordinator). cl_ticket c 1 = Waiting [7] \<and> cl_ticket (loop_step c) 1 \<noteq> Granted [7]"
proof -
  obtain c :: "(unit, unit) Coordinator" where c: "coord_run [Entered 0, Looped] (Coordinator_new ()) c" "cl_ticket c 0 = Granted [7]"
    "\<And>w. w \<noteq> 0 \<Longrightarrow> cl_ticket c w = Fresh"
    by (rule demo_grant) blast
  let ?c1 = "c\<lparr>cl_ticket := (cl_ticket c)(0 := Gone)\<rparr>"
  let ?c2 = "?c1\<lparr>cl_inbox := cl_inbox ?c1 @ [Enter [7] 1], cl_ticket := (cl_ticket ?c1)(1 := Waiting [7]),
    cl_entered := cl_entered ?c1 @ [([7], 1)]\<rparr>"
  have "coord_step (Entered 1) ?c1 ?c2" by (rule coord_step.entered) (simp add: c(3))
  moreover have "coord_step Looped ?c2 (loop_step ?c2)" by (rule coord_step.looped) simp
  ultimately have "coord_run [Entered 1, Looped] ?c1 (loop_step ?c2)"
    using coord_run.continue [OF coord_run_one] by fastforce
  from abandoned_grant_strands_the_space [OF c(1,2) coord_step.abandoned [OF c(2)] this, of 1] show ?thesis
    by (intro exI [of _ ?c2]) simp
qed

end
