(* ===== verification/History.thy ===== *)
theory History
  imports Records
begin

text \<open>
  The canonical write sets of the embedded database's commit log, \<open>multilite/src/commit/history.rs\<close>:
  the regions a commit wrote, the assertion prefixes a region invalidates, the canonical form (strictly
  ascending, so duplicates are impossible), its byte codec with the two frame versions, and the decoders
  of the sequence columns.  The SQL statements that store the frames belong to SQLite and are not
  modelled; the initial capacity a decoder reserves has no effect on its result.
\<close>

datatype WriteRegion = PointRegion key | RangeRegion Range

instantiation WriteRegion :: linorder
begin
fun less_WriteRegion :: "WriteRegion \<Rightarrow> WriteRegion \<Rightarrow> bool" where
  "less_WriteRegion (PointRegion a) (PointRegion b) = (a < b)"
| "less_WriteRegion (PointRegion _) (RangeRegion _) = True"
| "less_WriteRegion (RangeRegion _) (PointRegion _) = False"
| "less_WriteRegion (RangeRegion a) (RangeRegion b) = (a < b)"
definition less_eq_WriteRegion :: "WriteRegion \<Rightarrow> WriteRegion \<Rightarrow> bool" where
  "less_eq_WriteRegion a b \<longleftrightarrow> a < b \<or> a = b"
instance
proof
  fix x y z :: WriteRegion
  show "(x < y) = (x \<le> y \<and> \<not> y \<le> x)"
    by (cases x; cases y) (auto simp: less_eq_WriteRegion_def)
  show "x \<le> x" by (simp add: less_eq_WriteRegion_def)
  show "x \<le> y \<Longrightarrow> y \<le> z \<Longrightarrow> x \<le> z"
    by (cases x; cases y; cases z) (auto simp: less_eq_WriteRegion_def)
  show "x \<le> y \<Longrightarrow> y \<le> x \<Longrightarrow> x = y"
    by (cases x; cases y) (auto simp: less_eq_WriteRegion_def)
  show "x \<le> y \<or> y \<le> x"
    by (cases x; cases y) (auto simp: less_eq_WriteRegion_def)
qed
end

fun overlaps_prefix :: "WriteRegion \<Rightarrow> key \<Rightarrow> bool" where
  "overlaps_prefix (PointRegion key) pre = Key_starts_with key pre"
| "overlaps_prefix (RangeRegion Full) pre = True"
| "overlaps_prefix (RangeRegion (Prefix written)) pre = (Key_starts_with written pre \<or> Key_starts_with pre written)"

fun region_of :: "'v Mutation \<Rightarrow> WriteRegion" where
  "region_of (Set key _) = PointRegion key"
| "region_of (Delete key) = PointRegion key"
| "region_of (DeleteRange rng) = RangeRegion rng"

text \<open>A \<open>BTreeSet\<close> is the strictly ascending list of its elements.\<close>

definition writes_from_mutations :: "'v Mutation list \<Rightarrow> WriteRegion list" where
  "writes_from_mutations mutations = foldl (\<lambda>writes m. insort_insert (region_of m) writes) [] mutations"

fun canonical_writes :: "WriteRegion list \<Rightarrow> bool" where
  "canonical_writes (a # b # rest) = (a < b \<and> canonical_writes (b # rest))"
| "canonical_writes _ = True"

subsection \<open>The frame codec\<close>

definition WRITE_SET_VERSION :: u8 where "WRITE_SET_VERSION = 2"
definition LEGACY_WRITE_SET_VERSION :: u8 where "LEGACY_WRITE_SET_VERSION = 1"
definition POINT_WRITE :: u8 where "POINT_WRITE = 1"
definition RANGE_WRITE :: u8 where "RANGE_WRITE = 2"

lemmas write_set_consts = WRITE_SET_VERSION_def LEGACY_WRITE_SET_VERSION_def POINT_WRITE_def RANGE_WRITE_def

datatype HistoryCodecError = UnknownVersion | Truncated | InvalidLength | InvalidKey | InvalidRange | UnknownKind |
  NonCanonical | TrailingBytes

fun write_frame :: "WriteRegion \<Rightarrow> u8 \<times> bytes" where
  "write_frame (PointRegion key) = (POINT_WRITE, Key_encode key)"
| "write_frame (RangeRegion rng) = (RANGE_WRITE, Range_encode rng)"

definition encode_write :: "Writer \<Rightarrow> WriteRegion \<Rightarrow> string + Writer" where
  "encode_write w write =
     (case write_frame write of (kind, encoded) \<Rightarrow>
      if length encoded \<ge> 2 ^ 32 then Inl ''canonical write region is too large''
      else Inr (Writer_bytes encoded (Writer_u32 (of_nat (length encoded)) (Writer_u8 kind w))))"

definition encode_writes :: "WriteRegion list \<Rightarrow> string + bytes" where
  "encode_writes writes =
     (if length writes \<ge> 2 ^ 32 then Inl ''canonical write set is too large''
      else rbind (rfold encode_write (Writer_u32 (of_nat (length writes)) (Writer_u8 WRITE_SET_VERSION Writer_new)) writes)
        (\<lambda>w. Inr (Writer_finish w)))"

definition read_or :: "'e \<Rightarrow> (Reader \<Rightarrow> 'a option \<times> Reader) \<Rightarrow> Reader \<Rightarrow> 'e + ('a \<times> Reader)" where
  "read_or e f r = (case f r of (None, _) \<Rightarrow> Inl e | (Some x, r') \<Rightarrow> Inr (x, r'))"

definition decode_write :: "bool \<Rightarrow> Reader \<Rightarrow> HistoryCodecError + (WriteRegion \<times> Reader)" where
  "decode_write tagged r =
     rbind (if tagged then read_or Truncated Reader_u8 r else Inr (POINT_WRITE, r)) (\<lambda>(kind, r).
     rbind (read_or Truncated Reader_u32 r) (\<lambda>(len, r).
     rbind (read_or Truncated (Reader_take (unat len)) r) (\<lambda>(encoded, r).
     rbind (if kind = POINT_WRITE then map_err (\<lambda>_. InvalidKey) (rbind (Key_decode encoded) (\<lambda>k. Inr (PointRegion k)))
            else if kind = RANGE_WRITE then rbind (ok_or InvalidRange (Range_decode encoded)) (\<lambda>rng. Inr (RangeRegion rng))
            else Inl UnknownKind) (\<lambda>write. Inr (write, r)))))"

fun decode_write_list :: "bool \<Rightarrow> nat \<Rightarrow> Reader \<Rightarrow> WriteRegion list \<Rightarrow> HistoryCodecError + (WriteRegion list \<times> Reader)" where
  "decode_write_list tagged 0 r writes = Inr (writes, r)"
| "decode_write_list tagged (Suc n) r writes =
     rbind (decode_write tagged r) (\<lambda>(write, r). decode_write_list tagged n r (writes @ [write]))"

definition decode_writes :: "bytes \<Rightarrow> HistoryCodecError + WriteRegion list" where
  "decode_writes frame =
     rbind (read_or Truncated Reader_u8 (Reader_new frame)) (\<lambda>(version, r).
     rbind (if version = WRITE_SET_VERSION then Inr True
            else if version = LEGACY_WRITE_SET_VERSION then Inr False
            else Inl UnknownVersion) (\<lambda>tagged.
     rbind (read_or Truncated Reader_u32 r) (\<lambda>(count, r).
     rbind (decode_write_list tagged (unat count) r []) (\<lambda>(writes, r).
       if \<not> canonical_writes writes then Inl NonCanonical
       else if Reader_end r = None then Inl TrailingBytes
       else Inr writes))))"

text \<open>The sequence columns.\<close>

definition decode_commit_seq :: "bytes \<Rightarrow> bool \<Rightarrow> string + u64" where
  "decode_commit_seq bs allow_zero =
     (if length bs \<noteq> 8 then Inl ''commit sequence is malformed''
      else if u64_of_be bs = 0 \<and> \<not> allow_zero then Inl ''committed sequence must be greater than zero''
      else Inr (u64_of_be bs))"

definition decode_device_seq :: "bytes \<Rightarrow> string + DeviceSeq" where
  "decode_device_seq bs =
     (if length bs \<noteq> 8 then Inl ''canonical device sequence is malformed''
      else if u64_of_be bs = 0 then Inl ''canonical device sequence is malformed''
      else Inr (u64_of_be bs))"

subsection \<open>Canonical form\<close>

lemma canonical_writes_sorted: "canonical_writes ws \<longleftrightarrow> sorted_wrt (<) ws"
proof (induction ws rule: canonical_writes.induct)
  case (1 a b rest)
  then show ?case by (auto intro: less_trans)
qed auto

lemma writes_from_mutations_view:
  "sorted_wrt (<) (writes_from_mutations ms)" "set (writes_from_mutations ms) = region_of ` set ms"
proof -
  have "sorted (foldl (\<lambda>ws m. insort_insert (region_of m) ws) acc ms) \<and> distinct (foldl (\<lambda>ws m. insort_insert (region_of m) ws) acc ms) \<and>
    set (foldl (\<lambda>ws m. insort_insert (region_of m) ws) acc ms) = set acc \<union> region_of ` set ms"
    if "sorted acc" "distinct acc" for acc
    using that
    by (induction ms arbitrary: acc) (auto simp: sorted_insort_insert distinct_insort_insert set_insort_insert)
  from this [of "[]"] show "sorted_wrt (<) (writes_from_mutations ms)" "set (writes_from_mutations ms) = region_of ` set ms"
    by (simp_all add: writes_from_mutations_def strict_sorted_iff)
qed

fun wf_region :: "WriteRegion \<Rightarrow> bool" where
  "wf_region (PointRegion key) = wf_key key"
| "wf_region (RangeRegion rng) = wf_range rng"

definition frame_bytes :: "WriteRegion \<Rightarrow> bytes" where
  "frame_bytes write = (case write_frame write of (kind, encoded) \<Rightarrow> [kind] @ u32_be (of_nat (length encoded)) @ encoded)"

subsection \<open>The codec is canonical\<close>

lemma read_or_u8_Inr:
  "read_or e Reader_u8 (reader_at pre xs) = Inr (v, r) \<longleftrightarrow> (\<exists>ys. xs = v # ys \<and> r = reader_at (pre @ [v]) ys)"
  by (auto simp: read_or_def Reader_u8_at split: list.splits)

lemma read_or_take_Inr:
  "read_or e (Reader_take n) (reader_at pre xs) = Inr (v, r) \<longleftrightarrow>
     (\<exists>ys. xs = v @ ys \<and> length v = n \<and> r = reader_at (pre @ v) ys)"
  by (auto simp: read_or_def Reader_take_at intro!: exI [of _ "drop n xs"])

lemma read_or_u32_Inr:
  "read_or e Reader_u32 (reader_at pre xs) = Inr (v, r) \<longleftrightarrow> (\<exists>ys. xs = u32_be v @ ys \<and> r = reader_at (pre @ u32_be v) ys)"
proof -
  have "read_or e Reader_u32 (reader_at pre xs) = Inr (v, r) \<longleftrightarrow>
      (\<exists>b. read_or e (Reader_take 4) (reader_at pre xs) = Inr (b, r) \<and> v = u32_of_be b)"
    by (auto simp: read_or_def Reader_u32_def Reader_take_at)
  also have "\<dots> \<longleftrightarrow> (\<exists>ys. xs = u32_be v @ ys \<and> r = reader_at (pre @ u32_be v) ys)"
    unfolding read_or_take_Inr
  proof safe
    fix b ys :: bytes
    assume "length b = 4"
    then show "\<exists>zs. b @ ys = u32_be (u32_of_be b) @ zs \<and> reader_at (pre @ b) ys = reader_at (pre @ u32_be (u32_of_be b)) zs"
      by (simp add: u_be_of_be)
  next
    fix ys
    show "\<exists>b. (\<exists>zs. u32_be v @ ys = b @ zs \<and> length b = 4 \<and> reader_at (pre @ u32_be v) ys = reader_at (pre @ b) zs) \<and> v = u32_of_be b"
      by (intro exI [of _ "u32_be v"]) simp
  qed
  finally show ?thesis .
qed

lemma write_frame_small: "wf_region w \<Longrightarrow> length (snd (write_frame w)) < 2 ^ 32"
proof (cases w)
  case (RangeRegion rng)
  moreover assume "wf_region w"
  ultimately show ?thesis by (cases rng) (simp_all add: Let_def wf_key_def Key_encode_def key_limits)
qed (use wf_range_length in simp)

text \<open>The frame of one region: rows of the legacy version have no kind byte and hold points only.\<close>

definition region_frame :: "bool \<Rightarrow> WriteRegion \<Rightarrow> bytes" where
  "region_frame tagged w = (if tagged then frame_bytes w else u32_be (of_nat (length (snd (write_frame w)))) @ snd (write_frame w))"

definition region_ok :: "bool \<Rightarrow> WriteRegion \<Rightarrow> bool" where
  "region_ok tagged w \<longleftrightarrow> wf_region w \<and> (tagged \<or> (\<exists>k. w = PointRegion k))"

lemma decode_write_sound:
  assumes "decode_write tagged (reader_at pre xs) = Inr (w, r)"
  shows "region_ok tagged w \<and> (\<exists>ys. xs = region_frame tagged w @ ys \<and> r = reader_at (pre @ region_frame tagged w) ys)"
proof -
  from assms obtain kind len encoded ys where xs: "xs = (if tagged then [kind] else []) @ u32_be len @ encoded @ ys" "length encoded = unat len"
    and r: "r = reader_at (pre @ (if tagged then [kind] else []) @ u32_be len @ encoded) ys"
    and w: "kind = POINT_WRITE \<and> (\<exists>k. Key_decode encoded = Inr k \<and> w = PointRegion k) \<or>
      tagged \<and> kind = RANGE_WRITE \<and> (\<exists>rng. Range_decode encoded = Some rng \<and> w = RangeRegion rng)"
    unfolding decode_write_def
    by (cases tagged) (auto simp: rbind_Inr_iff read_or_u8_Inr read_or_take_Inr read_or_u32_Inr write_set_consts split: if_splits)
  then have "write_frame w = (kind, encoded)" "region_ok tagged w"
    by (auto simp: Key_decode_Inr_iff region_ok_def dest: Range_decode_sound)
  moreover have "of_nat (length encoded) = len" by (simp add: xs(2))
  ultimately show ?thesis using xs(1) r by (auto simp: region_frame_def frame_bytes_def)
qed

lemma decode_write_complete:
  assumes "region_ok tagged w"
  shows "decode_write tagged (reader_at pre (region_frame tagged w @ ys)) = Inr (w, reader_at (pre @ region_frame tagged w) ys)"
proof -
  obtain kind encoded where f: "write_frame w = (kind, encoded)" by fastforce
  have "length encoded < 2 ^ 32" using write_frame_small [of w] assms f by (simp add: region_ok_def)
  then have len: "unat (of_nat (length encoded) :: u32) = length encoded" by (simp add: unat_of_nat)
  have u8: "read_or Truncated Reader_u8 (reader_at p (b # zs)) = Inr (b, reader_at (p @ [b]) zs)" for p b zs
    by (simp add: read_or_u8_Inr)
  have u32: "read_or Truncated Reader_u32 (reader_at p (u32_be n @ zs)) = Inr (n, reader_at (p @ u32_be n) zs)" for p n zs
    by (simp add: read_or_u32_Inr)
  have take: "read_or Truncated (Reader_take (length b)) (reader_at p (b @ zs)) = Inr (b, reader_at (p @ b) zs)" for p b zs
    by (simp add: read_or_take_Inr)
  show ?thesis
    using assms f by (cases w; cases tagged) (auto simp: decode_write_def region_frame_def region_ok_def frame_bytes_def u8 u32 len take
      write_set_consts Key_decode_Inr_iff Range_decode_encode rbind_Inr_iff)
qed

lemma decode_write_Inr:
  "decode_write tagged (reader_at pre xs) = Inr (w, r) \<longleftrightarrow>
     region_ok tagged w \<and> (\<exists>ys. xs = region_frame tagged w @ ys \<and> r = reader_at (pre @ region_frame tagged w) ys)"
  using decode_write_sound decode_write_complete by blast

lemma decode_write_list_Inr:
  "decode_write_list tagged n (reader_at pre xs) acc = Inr (ws, r) \<longleftrightarrow>
     (\<exists>vs ys. ws = acc @ vs \<and> length vs = n \<and> list_all (region_ok tagged) vs \<and> xs = concat (map (region_frame tagged) vs) @ ys \<and>
       r = reader_at (pre @ concat (map (region_frame tagged) vs)) ys)"
proof (induction n arbitrary: pre xs acc)
  case (Suc n)
  have "decode_write_list tagged (Suc n) (reader_at pre xs) acc = Inr (ws, r) \<longleftrightarrow>
      (\<exists>w ys. region_ok tagged w \<and> xs = region_frame tagged w @ ys \<and>
        decode_write_list tagged n (reader_at (pre @ region_frame tagged w) ys) (acc @ [w]) = Inr (ws, r))"
    by (auto simp: rbind_Inr_iff decode_write_Inr split: prod.splits)
  also have "\<dots> \<longleftrightarrow> (\<exists>w vs ys. region_ok tagged w \<and> ws = acc @ w # vs \<and> length vs = n \<and> list_all (region_ok tagged) vs \<and>
        xs = region_frame tagged w @ concat (map (region_frame tagged) vs) @ ys \<and>
        r = reader_at (pre @ region_frame tagged w @ concat (map (region_frame tagged) vs)) ys)"
    unfolding Suc.IH by auto
  also have "\<dots> \<longleftrightarrow> (\<exists>vs ys. ws = acc @ vs \<and> length vs = Suc n \<and> list_all (region_ok tagged) vs \<and>
        xs = concat (map (region_frame tagged) vs) @ ys \<and> r = reader_at (pre @ concat (map (region_frame tagged) vs)) ys)"
    by (auto simp: length_Suc_conv)
  finally show ?case .
qed auto

lemma encode_write_list:
  assumes "list_all wf_region ws"
  shows "rfold encode_write w ws = Inr (w\<lparr>w_bytes := w_bytes w @ concat (map frame_bytes ws)\<rparr>)"
  using assms
proof (induction ws arbitrary: w)
  case (Cons x ws)
  then have "length (snd (write_frame x)) < 2 ^ 32" using write_frame_small [of x] by simp
  then have "encode_write w x = Inr (w\<lparr>w_bytes := w_bytes w @ frame_bytes x\<rparr>)"
    by (cases "write_frame x") (simp add: encode_write_def frame_bytes_def writer_defs)
  with Cons show ?case by simp
qed simp

lemma encode_writes_bytes:
  assumes "list_all wf_region ws" "length ws < 2 ^ 32"
  shows "encode_writes ws = Inr ([WRITE_SET_VERSION] @ u32_be (of_nat (length ws)) @ concat (map frame_bytes ws))"
  using assms by (simp add: encode_writes_def encode_write_list writer_defs)

lemma counted_frame:
  "(\<exists>count :: u32. n = unat count \<and> frame = u32_be count @ rest) \<longleftrightarrow> n < 2 ^ 32 \<and> frame = u32_be (of_nat n) @ rest"
proof
  assume "\<exists>count :: u32. n = unat count \<and> frame = u32_be count @ rest"
  then obtain count :: u32 where c: "n = unat count" "frame = u32_be count @ rest" by blast
  moreover have "unat count < 2 ^ 32" using unsigned_less [of count] by simp
  ultimately show "n < 2 ^ 32 \<and> frame = u32_be (of_nat n) @ rest" by simp
next
  assume "n < 2 ^ 32 \<and> frame = u32_be (of_nat n) @ rest"
  then show "\<exists>count :: u32. n = unat count \<and> frame = u32_be count @ rest"
    by (intro exI [of _ "of_nat n"]) (simp add: unat_of_nat)
qed

lemma decode_writes_rows:
  "decode_writes bs = Inr ws \<longleftrightarrow> (\<exists>version frame tagged. bs = version # frame \<and>
      (version = WRITE_SET_VERSION \<and> tagged \<or> version = LEGACY_WRITE_SET_VERSION \<and> \<not> tagged) \<and> canonical_writes ws \<and>
      list_all (region_ok tagged) ws \<and> length ws < 2 ^ 32 \<and> frame = u32_be (of_nat (length ws)) @ concat (map (region_frame tagged) ws))"
proof -
  have fin: "rbind m (\<lambda>(writes, r). if \<not> canonical_writes writes then Inl NonCanonical
        else if Reader_end r = None then Inl TrailingBytes else Inr writes) = Inr ws \<longleftrightarrow>
      (\<exists>r. m = Inr (ws, r) \<and> canonical_writes ws \<and> Reader_end r \<noteq> None)" for m
    by (cases m) (auto split: if_splits)
  define body where "body tagged r = rbind (read_or Truncated Reader_u32 r) (\<lambda>(count, r).
     rbind (decode_write_list tagged (unat count) r []) (\<lambda>(writes, r).
       if \<not> canonical_writes writes then Inl NonCanonical
       else if Reader_end r = None then Inl TrailingBytes
       else Inr writes))" for tagged r
  have body: "body tagged (reader_at pre frame) = Inr ws \<longleftrightarrow> (\<exists>count ys r. frame = u32_be count @ ys \<and>
      decode_write_list tagged (unat count) (reader_at (pre @ u32_be count) ys) [] = Inr (ws, r) \<and> canonical_writes ws \<and> Reader_end r \<noteq> None)"
    for tagged pre frame
    unfolding body_def rbind_Inr_iff [of "read_or Truncated Reader_u32 (reader_at pre frame)"] by (auto simp: read_or_u32_Inr fin)
  have "decode_writes bs = (case bs of [] \<Rightarrow> Inl Truncated | version # frame \<Rightarrow>
      if version = WRITE_SET_VERSION then body True (reader_at [version] frame)
      else if version = LEGACY_WRITE_SET_VERSION then body False (reader_at [version] frame) else Inl UnknownVersion)"
    unfolding decode_writes_def Reader_new_at body_def
    by (cases bs) (auto simp: read_or_def Reader_u8_at)
  then have "decode_writes bs = Inr ws \<longleftrightarrow> (\<exists>version frame tagged. bs = version # frame \<and>
      (version = WRITE_SET_VERSION \<and> tagged \<or> version = LEGACY_WRITE_SET_VERSION \<and> \<not> tagged) \<and>
      (\<exists>count ys r. frame = u32_be count @ ys \<and>
        decode_write_list tagged (unat count) (reader_at ([version] @ u32_be count) ys) [] = Inr (ws, r) \<and>
        canonical_writes ws \<and> Reader_end r \<noteq> None))"
    unfolding body [symmetric] by (cases bs) (auto simp: write_set_consts)
  moreover have "(\<exists>count ys r. frame = u32_be count @ ys \<and>
        decode_write_list tagged (unat count) (reader_at ([version] @ u32_be count) ys) [] = Inr (ws, r) \<and>
        canonical_writes ws \<and> Reader_end r \<noteq> None) \<longleftrightarrow>
      canonical_writes ws \<and> list_all (region_ok tagged) ws \<and>
      (\<exists>count :: u32. length ws = unat count \<and> frame = u32_be count @ concat (map (region_frame tagged) ws))" for version frame tagged
    unfolding decode_write_list_Inr by (auto split: if_splits)
  ultimately show ?thesis unfolding counted_frame by presburger
qed

text \<open>C30: the write-set codec is exact: a commit row decodes to a write set if and only if the set is
  strictly ascending and well-formed and the row is either the encoding of the set or, for rows of the
  legacy version, the counted length-prefixed keys of a set of points.  So a row cannot be read as
  anything but what was committed, and no malformed, unsorted or padded row is accepted.\<close>

theorem write_set_codec_exact:
  "decode_writes bs = Inr ws \<longleftrightarrow>
     canonical_writes ws \<and> list_all wf_region ws \<and> length ws < 2 ^ 32 \<and>
     (encode_writes ws = Inr bs \<or>
      (\<exists>ks. ws = map PointRegion ks \<and> bs = [LEGACY_WRITE_SET_VERSION] @ u32_be (of_nat (length ks)) @
        concat (map (\<lambda>k. u32_be (of_nat (length (Key_encode k))) @ Key_encode k) ks)))"
proof -
  define legacy where "legacy = (\<lambda>ks. [LEGACY_WRITE_SET_VERSION] @ u32_be (of_nat (length ks)) @
    concat (map (\<lambda>k. u32_be (of_nat (length (Key_encode k))) @ Key_encode k) ks))"
  have tagged: "list_all (region_ok True) ws = list_all wf_region ws" "region_frame True = frame_bytes"
    by (auto simp: region_ok_def region_frame_def list_all_iff)
  have row: "decode_writes bs = Inr ws \<longleftrightarrow> canonical_writes ws \<and> length ws < 2 ^ 32 \<and>
      (list_all wf_region ws \<and> bs = [WRITE_SET_VERSION] @ u32_be (of_nat (length ws)) @ concat (map frame_bytes ws) \<or>
       list_all (region_ok False) ws \<and> bs = [LEGACY_WRITE_SET_VERSION] @ u32_be (of_nat (length ws)) @ concat (map (region_frame False) ws))"
    unfolding decode_writes_rows ex_bool_eq using tagged by auto
  have "list_all (region_ok False) ws \<longleftrightarrow> list_all wf_region ws \<and> (\<exists>ks. ws = map PointRegion ks)"
    by (auto simp: region_ok_def list_all_iff) (metis ex_map_conv)
  then have "list_all (region_ok False) ws \<and> bs = [LEGACY_WRITE_SET_VERSION] @ u32_be (of_nat (length ws)) @ concat (map (region_frame False) ws) \<longleftrightarrow>
      list_all wf_region ws \<and> (\<exists>ks. ws = map PointRegion ks \<and> bs = legacy ks)"
    by (auto simp: legacy_def region_frame_def comp_def)
  with row encode_writes_bytes [of ws] show ?thesis unfolding legacy_def by auto
qed

end
