(* ===== verification/Footprint.thy ===== *)
theory Footprint
  imports History DataPlane
begin

text \<open>
  Conflict footprints of the embedded database, \<open>multilite/src/commit/footprint.rs\<close> and the isolation
  levels of \<open>multilite/src/logical/isolation.rs\<close>: the keys a transaction wrote, guards and read are
  kept as prefix antichains, and become range assertions for the server.  The lemmas show that an
  antichain stands for the union of the subtrees inserted into it, although an insertion only looks at
  one neighbour and one run of descendants; the property compares the local optimistic validation
  with the server's.
\<close>

datatype IsolationLevel = Snapshot | Serializable

subsection \<open>Prefix antichains\<close>

text \<open>A \<open>BTreeSet\<close> of keys is the strictly ascending list of its elements.\<close>

type_synonym PrefixAntichain = "key list"

definition PrefixAntichain_insert :: "key \<Rightarrow> PrefixAntichain \<Rightarrow> PrefixAntichain" where
  "PrefixAntichain_insert key keys =
     (let lower = filter (\<lambda>k. k \<le> key) keys in
      if lower \<noteq> [] \<and> Key_starts_with key (last lower) then keys
      else let descendants = takeWhile (\<lambda>candidate. Key_starts_with candidate key) (filter (\<lambda>k. key \<le> k) keys)
           in insort_insert key (filter (\<lambda>k. k \<notin> set descendants) keys))"

definition PrefixAntichain_extend :: "PrefixAntichain \<Rightarrow> PrefixAntichain \<Rightarrow> PrefixAntichain" where
  "PrefixAntichain_extend keys other = foldl (\<lambda>keys key. PrefixAntichain_insert key keys) keys other"

subsection \<open>Footprints\<close>

record ConflictFootprint =
  cf_writes :: PrefixAntichain
  cf_constraints :: PrefixAntichain
  cf_reads :: PrefixAntichain

definition ConflictFootprint_new :: ConflictFootprint where
  "ConflictFootprint_new = \<lparr>cf_writes = [], cf_constraints = [], cf_reads = []\<rparr>"

definition add_write :: "key \<Rightarrow> ConflictFootprint \<Rightarrow> ConflictFootprint" where
  "add_write key fp = fp\<lparr>cf_writes := PrefixAntichain_insert key (cf_writes fp)\<rparr>"

definition add_constraint :: "key \<Rightarrow> ConflictFootprint \<Rightarrow> ConflictFootprint" where
  "add_constraint key fp = fp\<lparr>cf_constraints := PrefixAntichain_insert key (cf_constraints fp)\<rparr>"

definition add_read :: "key \<Rightarrow> ConflictFootprint \<Rightarrow> ConflictFootprint" where
  "add_read key fp = fp\<lparr>cf_reads := PrefixAntichain_insert key (cf_reads fp)\<rparr>"

definition ConflictFootprint_extend :: "ConflictFootprint \<Rightarrow> ConflictFootprint \<Rightarrow> ConflictFootprint" where
  "ConflictFootprint_extend other fp =
     fp\<lparr>cf_writes := PrefixAntichain_extend (cf_writes fp) (cf_writes other),
        cf_constraints := PrefixAntichain_extend (cf_constraints fp) (cf_constraints other),
        cf_reads := PrefixAntichain_extend (cf_reads fp) (cf_reads other)\<rparr>"

definition from_parts :: "key list \<Rightarrow> key list \<Rightarrow> key list \<Rightarrow> ConflictFootprint" where
  "from_parts writes constraints reads =
     (let fp = foldl (\<lambda>fp key. add_write key fp) ConflictFootprint_new writes;
          fp = foldl (\<lambda>fp key. add_constraint key fp) fp constraints
      in foldl (\<lambda>fp key. add_read key fp) fp reads)"

definition asserted_keys :: "IsolationLevel \<Rightarrow> ConflictFootprint \<Rightarrow> key list" where
  "asserted_keys isolation fp =
     cf_writes fp @ cf_constraints fp @ (if isolation = Serializable then cf_reads fp else [])"

definition conflicts_with_writes :: "IsolationLevel \<Rightarrow> WriteRegion list \<Rightarrow> ConflictFootprint \<Rightarrow> bool" where
  "conflicts_with_writes isolation committed fp =
     list_ex (\<lambda>asserted. list_ex (\<lambda>written. overlaps_prefix written asserted) committed) (asserted_keys isolation fp)"

definition plan :: "IsolationLevel \<Rightarrow> AdmissionSeq \<Rightarrow> ConflictFootprint \<Rightarrow> RangeAssert list" where
  "plan isolation through fp =
     (let selected = PrefixAntichain_extend (cf_writes fp) (cf_constraints fp);
          selected = (if isolation = Serializable then PrefixAntichain_extend selected (cf_reads fp) else selected)
      in map (\<lambda>pre. \<lparr>ra_prefix = pre, ra_upto = through\<rparr>) selected)"

subsection \<open>Antichains denote unions of subtrees\<close>

definition antichain :: "PrefixAntichain \<Rightarrow> bool" where
  "antichain keys \<longleftrightarrow> sorted_wrt (<) keys \<and> (\<forall>a \<in> set keys. \<forall>b \<in> set keys. prefix a b \<longrightarrow> a = b)"

definition subtrees :: "key set \<Rightarrow> key set" where
  "subtrees K = {k. \<exists>p \<in> K. prefix p k}"

lemma prefix_convex:
  fixes p q k :: "'a :: linorder list"
  shows "prefix p k \<Longrightarrow> p \<le> q \<Longrightarrow> q \<le> k \<Longrightarrow> prefix p q"
proof (induction p arbitrary: q k)
  case (Cons a p)
  then obtain k' where k: "k = a # k'" "prefix p k'" by (cases k) auto
  with Cons.prems(2,3) obtain q' where q: "q = a # q'" "p \<le> q'" "q' \<le> k'" by (cases q) auto
  with Cons.IH [OF k(2) q(2,3)] show ?case by simp
qed simp

lemma sorted_le_last: "sorted xs \<Longrightarrow> x \<in> set xs \<Longrightarrow> x \<le> last xs"
  by (induction xs) auto

lemma below_prefix:
  assumes "antichain keys" "lower = filter (\<lambda>k. k \<le> key) keys"
  shows "(lower \<noteq> [] \<and> prefix (last lower) key) \<longleftrightarrow> (\<exists>p \<in> set keys. prefix p key)"
proof
  assume "\<exists>p \<in> set keys. prefix p key"
  then obtain p where p: "p \<in> set keys" "prefix p key" by blast
  then have "p \<le> key" by (simp add: prefix_le)
  with p(1) have "p \<in> set lower" by (simp add: assms(2))
  then have lower: "p \<in> set lower" "lower \<noteq> []" by auto
  have "sorted lower" using assms by (simp add: antichain_def strict_sorted_iff sorted_wrt_filter)
  then have "p \<le> last lower" using lower sorted_le_last by blast
  moreover have l: "last lower \<in> set keys" "last lower \<le> key" using last_in_set [OF lower(2)] by (auto simp: assms(2))
  ultimately have "prefix p (last lower)" using prefix_convex [OF p(2)] by blast
  with p(1) l(1) assms(1) have "p = last lower" by (auto simp: antichain_def)
  with p(2) lower(2) show "lower \<noteq> [] \<and> prefix (last lower) key" by simp
next
  assume "lower \<noteq> [] \<and> prefix (last lower) key"
  then show "\<exists>p \<in> set keys. prefix p key" using last_in_set [of lower] by (auto simp: assms(2))
qed

lemma descendants_set:
  assumes "antichain keys"
  shows "set (takeWhile (\<lambda>c. Key_starts_with c key) (filter (\<lambda>k. key \<le> k) keys)) = {k \<in> set keys. prefix key k}"
proof -
  have "set (takeWhile (prefix key) ks) = {k \<in> set ks. prefix key k}" if "sorted ks" "\<forall>k \<in> set ks. key \<le> k" for ks
    using that
  proof (induction ks)
    case (Cons k ks)
    show ?case
    proof (cases "prefix key k")
      case False
      then have "\<not> prefix key c" if "c \<in> set ks" for c using prefix_convex [of key c k] Cons.prems that by auto
      with False show ?thesis by auto
    qed (use Cons in auto)
  qed simp
  moreover have "sorted (filter (\<lambda>k. key \<le> k) keys)"
    using assms by (simp add: antichain_def strict_sorted_iff sorted_wrt_filter)
  moreover have "{k \<in> set (filter (\<lambda>k. key \<le> k) keys). prefix key k} = {k \<in> set keys. prefix key k}"
    by (auto intro: prefix_le)
  ultimately show ?thesis by (simp add: Key_starts_with_def)
qed

lemma antichain_insert:
  assumes "antichain keys"
  shows "antichain (PrefixAntichain_insert key keys)"
    and "subtrees (set (PrefixAntichain_insert key keys)) = subtrees (insert key (set keys))"
    and "set (PrefixAntichain_insert key keys) \<subseteq> insert key (set keys)"
proof -
  let ?lower = "filter (\<lambda>k. k \<le> key) keys" and ?rest = "filter (\<lambda>k. \<not> prefix key k) keys"
  have eq: "PrefixAntichain_insert key keys = (if \<exists>p \<in> set keys. prefix p key then keys else insort_insert key ?rest)"
    using below_prefix [OF assms refl, of key] descendants_set [OF assms, of key]
    by (auto simp: PrefixAntichain_insert_def Let_def Key_starts_with_def intro!: arg_cong [where f = "insort_insert key"] filter_cong)
  have rest: "sorted ?rest" "distinct ?rest" using assms by (simp_all add: antichain_def strict_sorted_iff sorted_wrt_filter)
  show "antichain (PrefixAntichain_insert key keys)"
    using assms rest unfolding eq antichain_def
    by (auto simp: strict_sorted_iff sorted_insort_insert distinct_insort_insert set_insort_insert)
  show "subtrees (set (PrefixAntichain_insert key keys)) = subtrees (insert key (set keys))"
  proof (cases "\<exists>p \<in> set keys. prefix p key")
    case True
    then show ?thesis unfolding eq by (auto simp: subtrees_def intro: prefix_order.trans)
  next
    case False
    then show ?thesis unfolding eq by (auto simp: subtrees_def set_insort_insert intro: prefix_order.trans)
  qed
  show "set (PrefixAntichain_insert key keys) \<subseteq> insert key (set keys)"
    unfolding eq by (auto simp: set_insort_insert)
qed

lemma subtrees_empty [simp]: "subtrees {} = {}"
  by (simp add: subtrees_def)

lemma subtrees_Un: "subtrees (A \<union> B) = subtrees A \<union> subtrees B"
  by (auto simp: subtrees_def)

lemma subtrees_insert: "subtrees (insert a B) = subtrees {a} \<union> subtrees B"
  by (auto simp: subtrees_def)

lemma antichain_extend:
  assumes "antichain keys"
  shows "antichain (PrefixAntichain_extend keys other)"
    and "subtrees (set (PrefixAntichain_extend keys other)) = subtrees (set keys) \<union> subtrees (set other)"
    and "set (PrefixAntichain_extend keys other) \<subseteq> set keys \<union> set other"
proof -
  have "antichain (PrefixAntichain_extend keys other) \<and>
    subtrees (set (PrefixAntichain_extend keys other)) = subtrees (set keys) \<union> subtrees (set other) \<and>
    set (PrefixAntichain_extend keys other) \<subseteq> set keys \<union> set other"
    using assms
  proof (induction other arbitrary: keys)
    case Nil
    then show ?case by (simp add: PrefixAntichain_extend_def subtrees_def)
  next
    case (Cons a other)
    note ins = antichain_insert [OF Cons.prems, of a]
    have eq: "PrefixAntichain_extend keys (a # other) = PrefixAntichain_extend (PrefixAntichain_insert a keys) other"
      by (simp add: PrefixAntichain_extend_def)
    have "subtrees (set (PrefixAntichain_insert a keys)) \<union> subtrees (set other) = subtrees (set keys) \<union> subtrees (set (a # other))"
      unfolding ins(2) list.set subtrees_insert [of a "set keys"] subtrees_insert [of a "set other"] by blast
    moreover have "set (PrefixAntichain_insert a keys) \<union> set other \<subseteq> set keys \<union> set (a # other)" using ins(3) by auto
    ultimately show ?case
      using Cons.IH [OF ins(1)] unfolding eq by blast
  qed
  then show "antichain (PrefixAntichain_extend keys other)"
    "subtrees (set (PrefixAntichain_extend keys other)) = subtrees (set keys) \<union> subtrees (set other)"
    "set (PrefixAntichain_extend keys other) \<subseteq> set keys \<union> set other" by blast+
qed

subsection \<open>Footprints as key sets\<close>

definition footprint_repr :: "ConflictFootprint \<Rightarrow> key set \<Rightarrow> key set \<Rightarrow> key set \<Rightarrow> bool" where
  "footprint_repr fp W C R \<longleftrightarrow>
     antichain (cf_writes fp) \<and> antichain (cf_constraints fp) \<and> antichain (cf_reads fp) \<and>
     set (cf_writes fp) \<subseteq> W \<and> set (cf_constraints fp) \<subseteq> C \<and> set (cf_reads fp) \<subseteq> R \<and>
     subtrees (set (cf_writes fp)) = subtrees W \<and> subtrees (set (cf_constraints fp)) = subtrees C \<and>
     subtrees (set (cf_reads fp)) = subtrees R"

lemma antichain_Nil [simp]: "antichain []"
  by (simp add: antichain_def)

lemma footprint_repr_new: "footprint_repr ConflictFootprint_new {} {} {}"
  by (simp add: footprint_repr_def ConflictFootprint_new_def)

lemma antichain_add:
  assumes "antichain keys" "set keys \<subseteq> K" "subtrees (set keys) = subtrees K"
  shows "set (PrefixAntichain_insert key keys) \<subseteq> insert key K" "subtrees (set (PrefixAntichain_insert key keys)) = subtrees (insert key K)"
  using antichain_insert [OF assms(1), of key] assms(2,3) subtrees_insert [of key "set keys"] subtrees_insert [of key K] by auto

lemma footprint_repr_add:
  assumes "footprint_repr fp W C R"
  shows "footprint_repr (add_write key fp) (insert key W) C R" "footprint_repr (add_constraint key fp) W (insert key C) R"
    and "footprint_repr (add_read key fp) W C (insert key R)"
  using assms antichain_insert(1) antichain_add
  by (simp_all add: footprint_repr_def add_write_def add_constraint_def add_read_def)

lemma footprint_repr_extend:
  assumes "footprint_repr fp W C R" "footprint_repr other W' C' R'"
  shows "footprint_repr (ConflictFootprint_extend other fp) (W \<union> W') (C \<union> C') (R \<union> R')"
proof -
  have ext: "antichain (PrefixAntichain_extend keys keys') \<and> set (PrefixAntichain_extend keys keys') \<subseteq> K \<union> K' \<and>
      subtrees (set (PrefixAntichain_extend keys keys')) = subtrees (K \<union> K')"
    if "antichain keys" "set keys \<subseteq> K" "subtrees (set keys) = subtrees K" "set keys' \<subseteq> K'" "subtrees (set keys') = subtrees K'"
    for keys keys' K K'
    using antichain_extend [OF that(1), of keys'] that by (auto simp: subtrees_Un)
  show ?thesis
    using assms ext unfolding footprint_repr_def ConflictFootprint_extend_def by (simp add: antichain_extend(1))
qed

lemma footprint_repr_from_parts: "footprint_repr (from_parts ws cs rs) (set ws) (set cs) (set rs)"
proof -
  have w: "footprint_repr (foldl (\<lambda>fp key. add_write key fp) fp ks) (W \<union> set ks) C R" if "footprint_repr fp W C R" for fp W C R ks
    using that by (induction ks rule: rev_induct) (simp_all add: footprint_repr_add(1))
  have c: "footprint_repr (foldl (\<lambda>fp key. add_constraint key fp) fp ks) W (C \<union> set ks) R" if "footprint_repr fp W C R" for fp W C R ks
    using that by (induction ks rule: rev_induct) (simp_all add: footprint_repr_add(2))
  have r: "footprint_repr (foldl (\<lambda>fp key. add_read key fp) fp ks) W C (R \<union> set ks)" if "footprint_repr fp W C R" for fp W C R ks
    using that by (induction ks rule: rev_induct) (simp_all add: footprint_repr_add(3))
  from r [OF c [OF w [OF footprint_repr_new]], of ws cs rs] show ?thesis by (simp add: from_parts_def Let_def)
qed

definition asserted :: "IsolationLevel \<Rightarrow> key set \<Rightarrow> key set \<Rightarrow> key set \<Rightarrow> key set" where
  "asserted isolation W C R = W \<union> C \<union> (if isolation = Serializable then R else {})"

lemma plan_view:
  assumes "footprint_repr fp W C R"
  shows "antichain (map ra_prefix (plan isolation through fp))"
    and "subtrees (set (map ra_prefix (plan isolation through fp))) = subtrees (asserted isolation W C R)"
    and "set (map ra_prefix (plan isolation through fp)) \<subseteq> asserted isolation W C R"
    and "\<forall>a \<in> set (plan isolation through fp). ra_upto a = through"
proof -
  have fp: "antichain (cf_writes fp)" "set (cf_writes fp) \<subseteq> W" "set (cf_constraints fp) \<subseteq> C" "set (cf_reads fp) \<subseteq> R"
    "subtrees (set (cf_writes fp)) = subtrees W" "subtrees (set (cf_constraints fp)) = subtrees C" "subtrees (set (cf_reads fp)) = subtrees R"
    using assms by (simp_all add: footprint_repr_def)
  note mandatory = antichain_extend [OF fp(1), of "cf_constraints fp"]
  note all = antichain_extend [OF mandatory(1), of "cf_reads fp"]
  have map: "map ra_prefix (plan isolation through fp) = (if isolation = Serializable
      then PrefixAntichain_extend (PrefixAntichain_extend (cf_writes fp) (cf_constraints fp)) (cf_reads fp)
      else PrefixAntichain_extend (cf_writes fp) (cf_constraints fp))"
    by (simp add: plan_def Let_def comp_def)
  show "antichain (map ra_prefix (plan isolation through fp))" using mandatory(1) all(1) by (simp add: map)
  show "subtrees (set (map ra_prefix (plan isolation through fp))) = subtrees (asserted isolation W C R)"
    unfolding map asserted_def using mandatory(2) all(2) fp by (simp add: subtrees_Un)
  show "set (map ra_prefix (plan isolation through fp)) \<subseteq> asserted isolation W C R"
    unfolding map asserted_def using mandatory(3) all(3) fp(2-4) by (cases "isolation = Serializable") (simp_all, blast+)
  show "\<forall>a \<in> set (plan isolation through fp). ra_upto a = through" by (simp add: plan_def Let_def)
qed

text \<open>A region invalidates an assertion exactly when a key it writes lies in the asserted subtree.\<close>

fun region_keys :: "WriteRegion \<Rightarrow> key set" where
  "region_keys (PointRegion key) = {key}"
| "region_keys (RangeRegion rng) = {k. covers_key rng k}"

lemma overlaps_prefix_keys: "overlaps_prefix w p \<longleftrightarrow> region_keys w \<inter> subtrees {p} \<noteq> {}"
proof (cases w)
  case (RangeRegion rng)
  show ?thesis
  proof (cases rng)
    case (Prefix q)
    have "(\<exists>k. prefix q k \<and> prefix p k) \<longleftrightarrow> prefix p q \<or> prefix q p"
      using prefix_same_cases [of q _ p] by blast
    then show ?thesis by (auto simp: RangeRegion Prefix subtrees_def Key_starts_with_def)
  qed (auto simp: RangeRegion subtrees_def)
qed (auto simp: subtrees_def Key_starts_with_def)

lemma overlaps_some_prefix: "(\<exists>p \<in> P. overlaps_prefix w p) \<longleftrightarrow> region_keys w \<inter> subtrees P \<noteq> {}"
  unfolding overlaps_prefix_keys by (auto simp: subtrees_def)

lemma mutation_relevant_region: "mutation_relevant (Prefix p) m \<longleftrightarrow> overlaps_prefix (region_of m) p"
proof (cases m)
  case (DeleteRange rng)
  then show ?thesis by (cases rng) (auto simp: overlaps_def)
qed simp_all

lemma conflicts_with_writes_view:
  assumes "footprint_repr fp W C R"
  shows "conflicts_with_writes isolation committed fp \<longleftrightarrow>
    (\<exists>w \<in> set committed. region_keys w \<inter> subtrees (asserted isolation W C R) \<noteq> {})"
proof -
  have "subtrees (set (asserted_keys isolation fp)) = subtrees (asserted isolation W C R)"
    using assms by (auto simp: footprint_repr_def asserted_keys_def asserted_def subtrees_Un)
  moreover have "conflicts_with_writes isolation committed fp \<longleftrightarrow>
      (\<exists>w \<in> set committed. \<exists>p \<in> set (asserted_keys isolation fp). overlaps_prefix w p)"
    unfolding conflicts_with_writes_def list_ex_iff by blast
  ultimately show ?thesis by (simp add: overlaps_some_prefix)
qed

subsection \<open>Properties\<close>

text \<open>C28: a transaction's planned assertions are a minimal cover: for whatever keys were recorded as
  written, guarded and read, the planned prefixes are pairwise incomparable, each of them is one of
  the recorded keys, and together they cover exactly the subtrees of the writes and guards, and of
  the reads under serializable isolation.\<close>

theorem planned_assertions_are_a_minimal_cover:
  "antichain (map ra_prefix (plan isolation through (from_parts ws cs rs))) \<and>
   set (map ra_prefix (plan isolation through (from_parts ws cs rs))) \<subseteq> asserted isolation (set ws) (set cs) (set rs) \<and>
   subtrees (set (map ra_prefix (plan isolation through (from_parts ws cs rs)))) = subtrees (asserted isolation (set ws) (set cs) (set rs))"
  using plan_view [OF footprint_repr_from_parts] by blast

text \<open>C13: local validation agrees with the authority's: the server rejects a batch that carries a
  transaction's planned assertions exactly when the local optimistic check finds a conflict with
  what the other devices wrote after the transaction's snapshot.\<close>

theorem local_validation_agrees_with_the_server:
  assumes "data_repr space st bs" "wf_id space" "\<forall>k \<in> set ws \<union> set cs \<union> set rs. wf_key k"
    and "fp = from_parts ws cs rs" "ab_range_asserts b = plan isolation through fp"
    and "later = filter (\<lambda>e. through < seq_of e \<and> device_of e \<noteq> device) (entries_of bs)"
  shows "\<exists>failures. range_assert_failures space st device b = Inr failures \<and>
    (failures \<noteq> [] \<longleftrightarrow> conflicts_with_writes isolation (writes_from_mutations (map mutation_of later)) fp)"
proof -
  note repr = footprint_repr_from_parts [of ws cs rs, folded assms(4)]
  note plan = plan_view [OF repr, of isolation through]
  have wf: "\<forall>a \<in> set (ab_range_asserts b). wf_key (ra_prefix a)"
    using plan(3) assms(3) by (auto simp: assms(5) asserted_def split: if_splits)
  have late: "foreign_max (entries_of bs) device p > through \<longleftrightarrow> (\<exists>e \<in> set later. overlaps_prefix (region_of (mutation_of e)) p)" for p
    unfolding foreign_max_def by (subst Max_gr_iff) (auto simp: assms(6) mutation_relevant_region)
  have "spec_failures (entries_of bs) device b \<noteq> [] \<longleftrightarrow>
      (\<exists>e \<in> set later. \<exists>p \<in> set (map ra_prefix (plan isolation through fp)). overlaps_prefix (region_of (mutation_of e)) p)"
    using plan(4) by (auto simp: spec_failures_def filter_empty_conv assms(5) late)
  also have "\<dots> \<longleftrightarrow> (\<exists>e \<in> set later. region_keys (region_of (mutation_of e)) \<inter> subtrees (asserted isolation (set ws) (set cs) (set rs)) \<noteq> {})"
    unfolding overlaps_some_prefix plan(2) ..
  also have "\<dots> \<longleftrightarrow> conflicts_with_writes isolation (writes_from_mutations (map mutation_of later)) fp"
    unfolding conflicts_with_writes_view [OF repr] writes_from_mutations_view(2) by auto
  finally show ?thesis
    using range_assert_failures_view [OF data_reprD(4,5) [OF assms(1)] assms(2) wf, of device] by blast
qed

text \<open>The witness: another device read below \<open>[7]\<close> at the empty log, and the example batch conflicts.\<close>

theorem local_validation_agrees_with_the_server_witness:
  "\<exists>failures. range_assert_failures demo_space demo_store (replicate 16 3)
     \<lparr>ab_device_seq = 1, ab_range_asserts = plan Serializable 0 (from_parts [] [] [[[7]]]), ab_entries = []\<rparr> = Inr failures \<and>
   failures \<noteq> []"
proof -
  let ?later = "filter (\<lambda>e. 0 < seq_of e \<and> device_of e \<noteq> replicate 16 3) (entries_of [demo_batch])"
  have "demo_first \<in> set ?later" "overlaps_prefix (region_of (mutation_of demo_first)) [[7]]"
    by (simp_all add: demo_batch_def demo_first_def demo_entry_def demo_device_def Key_starts_with_def numeral_eq_Suc)
  then have "conflicts_with_writes Serializable (writes_from_mutations (map mutation_of ?later)) (from_parts [] [] [[[7]]])"
    by (auto simp: conflicts_with_writes_def list_ex_iff writes_from_mutations_view(2) asserted_keys_def from_parts_def Let_def
        ConflictFootprint_new_def add_read_def PrefixAntichain_insert_def insort_insert_key_def)
  moreover have "\<forall>k \<in> set [] \<union> set [] \<union> set [[[7]]]. wf_key k" by (simp add: wf_key_def wf_component_def key_limits)
  ultimately show ?thesis
    using local_validation_agrees_with_the_server [OF demo_admits(2) demo_wf(1) _ refl _ refl, of "[]" "[]" "[[[7]]]"
        "\<lparr>ab_device_seq = 1, ab_range_asserts = plan Serializable 0 (from_parts [] [] [[[7]]]), ab_entries = []\<rparr>"
        Serializable 0 "replicate 16 3"] by auto
qed

end
