(* ===== verification/MetaCodec.thy ===== *)
theory MetaCodec
  imports Records
begin

text \<open>
  The records of the client's durable metadata and their byte codecs, \<open>client/src/meta.rs\<close>: device
  identity, the outbound and inbound log cursors, the version and clock high-waters, the sealed key
  bundle, held leases, queued device operations and admitted batches.  \<open>read_list\<close> is the decoders'
  counted loop.  Every record interprets the codec contract \<open>record_codec\<close> of the server's records;
  the validity predicates state the sizes for which the \<open>as u32\<close> length fields do not truncate.
\<close>

subsection \<open>Records\<close>

record MetaDeviceRecord =
  md_id :: DeviceId

record OplogCursors =
  oc_head :: DeviceSeq
  oc_neck :: DeviceSeq
  oc_tail :: DeviceSeq

definition OplogCursors_default :: OplogCursors where
  "OplogCursors_default = \<lparr>oc_head = 1, oc_neck = 1, oc_tail = 1\<rparr>"

record AdmitCursors =
  ac_head :: AdmissionSeq
  ac_neck :: AdmissionSeq
  ac_tail :: AdmissionSeq

definition AdmitCursors_default :: AdmitCursors where
  "AdmitCursors_default = \<lparr>ac_head = 1, ac_neck = 1, ac_tail = 1\<rparr>"

record CursorSnapshot =
  sn_oplog :: OplogCursors
  sn_admits :: AdmitCursors

record VerHighRecord =
  vh_high :: Ver

record ClockRecord =
  cr_high_water :: Timestamp

record CodecRecord =
  cd_cipher_epoch :: u64
  cd_sealed :: bytes

record ChecksumRecord =
  ck_value :: DeviceChecksum

record HeldLease =
  hl_lease :: Lease
  hl_deadline :: HybridTimestamp
  hl_forgotten :: bool

datatype SubmitMode = Checked | Unchecked

datatype DeviceOp =
    CommitOp "entry list" "RangeAssert list" "LeaseId list" SubmitMode
  | RollbackOp DeviceSeq

definition commit_with_asserts :: "entry list \<Rightarrow> RangeAssert list \<Rightarrow> SubmitMode \<Rightarrow> DeviceOp" where
  "commit_with_asserts entries range_asserts submit_mode = CommitOp entries range_asserts [] submit_mode"

definition DeviceOp_commit :: "entry list \<Rightarrow> DeviceOp" where
  "DeviceOp_commit entries = commit_with_asserts entries [] Unchecked"

fun DeviceOp_entries :: "DeviceOp \<Rightarrow> entry list" where
  "DeviceOp_entries (CommitOp entries _ _ _) = entries"
| "DeviceOp_entries (RollbackOp _) = []"

fun DeviceOp_range_asserts :: "DeviceOp \<Rightarrow> RangeAssert list" where
  "DeviceOp_range_asserts (CommitOp _ range_asserts _ _) = range_asserts"
| "DeviceOp_range_asserts (RollbackOp _) = []"

fun DeviceOp_submit_mode :: "DeviceOp \<Rightarrow> SubmitMode option" where
  "DeviceOp_submit_mode (CommitOp _ _ _ submit_mode) = Some submit_mode"
| "DeviceOp_submit_mode (RollbackOp _) = None"

subsection \<open>Fixed-size codecs\<close>

definition META_DEVICE_RECORD_VERSION :: u8 where "META_DEVICE_RECORD_VERSION = 1"
definition CURSORS_RECORD_VERSION :: u8 where "CURSORS_RECORD_VERSION = 1"
definition VER_HIGH_RECORD_VERSION :: u8 where "VER_HIGH_RECORD_VERSION = 1"
definition CLOCK_RECORD_VERSION :: u8 where "CLOCK_RECORD_VERSION = 1"
definition CODEC_RECORD_VERSION :: u8 where "CODEC_RECORD_VERSION = 1"
definition HELD_LEASE_RECORD_VERSION :: u8 where "HELD_LEASE_RECORD_VERSION = 3"
definition OPLOG_RECORD_VERSION :: u8 where "OPLOG_RECORD_VERSION = 4"
definition CHECKSUM_RECORD_VERSION :: u8 where "CHECKSUM_RECORD_VERSION = 1"
definition ADMIT_CURSORS_RECORD_VERSION :: u8 where "ADMIT_CURSORS_RECORD_VERSION = 1"
definition ADMITTED_BATCH_RECORD_VERSION :: u8 where "ADMITTED_BATCH_RECORD_VERSION = 1"

lemmas meta_versions = META_DEVICE_RECORD_VERSION_def CURSORS_RECORD_VERSION_def VER_HIGH_RECORD_VERSION_def CLOCK_RECORD_VERSION_def CODEC_RECORD_VERSION_def HELD_LEASE_RECORD_VERSION_def OPLOG_RECORD_VERSION_def CHECKSUM_RECORD_VERSION_def ADMIT_CURSORS_RECORD_VERSION_def ADMITTED_BATCH_RECORD_VERSION_def

definition ChecksumRecord_encode :: "ChecksumRecord \<Rightarrow> bytes" where
  "ChecksumRecord_encode r = [CHECKSUM_RECORD_VERSION] @ ck_value r"

definition ChecksumRecord_decode :: "bytes \<Rightarrow> ChecksumRecord option" where
  "ChecksumRecord_decode bs =
     reading Reader_u8 (\<lambda>v. if v \<noteq> CHECKSUM_RECORD_VERSION then (\<lambda>_. None) else
     reading (Reader_take 32) (\<lambda>val r.
       if Reader_end r = None then None else Some \<lparr>ck_value = val\<rparr>)) (Reader_new bs)"

definition MetaDeviceRecord_encode :: "MetaDeviceRecord \<Rightarrow> bytes" where
  "MetaDeviceRecord_encode d = [META_DEVICE_RECORD_VERSION] @ md_id d"

definition MetaDeviceRecord_decode :: "bytes \<Rightarrow> MetaDeviceRecord option" where
  "MetaDeviceRecord_decode bs =
     reading Reader_u8 (\<lambda>v. if v \<noteq> META_DEVICE_RECORD_VERSION then (\<lambda>_. None) else
     reading Reader_bytes16 (\<lambda>id r.
       if Reader_end r = None then None else Some \<lparr>md_id = id\<rparr>)) (Reader_new bs)"

definition OplogCursors_encode :: "OplogCursors \<Rightarrow> bytes" where
  "OplogCursors_encode c = [CURSORS_RECORD_VERSION] @ u64_be (oc_head c) @ u64_be (oc_neck c) @ u64_be (oc_tail c)"

definition OplogCursors_decode :: "bytes \<Rightarrow> OplogCursors option" where
  "OplogCursors_decode bs =
     reading Reader_u8 (\<lambda>v. if v \<noteq> CURSORS_RECORD_VERSION then (\<lambda>_. None) else
     reading Reader_u64 (\<lambda>head. reading Reader_u64 (\<lambda>neck. reading Reader_u64 (\<lambda>tail r.
       if Reader_end r = None then None else Some \<lparr>oc_head = head, oc_neck = neck, oc_tail = tail\<rparr>)))) (Reader_new bs)"

definition AdmitCursors_encode :: "AdmitCursors \<Rightarrow> bytes" where
  "AdmitCursors_encode c = [ADMIT_CURSORS_RECORD_VERSION] @ u64_be (ac_head c) @ u64_be (ac_neck c) @ u64_be (ac_tail c)"

definition AdmitCursors_decode :: "bytes \<Rightarrow> AdmitCursors option" where
  "AdmitCursors_decode bs =
     reading Reader_u8 (\<lambda>v. if v \<noteq> ADMIT_CURSORS_RECORD_VERSION then (\<lambda>_. None) else
     reading Reader_u64 (\<lambda>head. reading Reader_u64 (\<lambda>neck. reading Reader_u64 (\<lambda>tail r.
       if Reader_end r = None then None else Some \<lparr>ac_head = head, ac_neck = neck, ac_tail = tail\<rparr>)))) (Reader_new bs)"

definition VerHighRecord_encode :: "VerHighRecord \<Rightarrow> bytes" where
  "VerHighRecord_encode r = [VER_HIGH_RECORD_VERSION] @ u64_be (vh_high r)"

definition VerHighRecord_decode :: "bytes \<Rightarrow> VerHighRecord option" where
  "VerHighRecord_decode bs =
     reading Reader_u8 (\<lambda>v. if v \<noteq> VER_HIGH_RECORD_VERSION then (\<lambda>_. None) else
     reading Reader_u64 (\<lambda>high r. if Reader_end r = None then None else Some \<lparr>vh_high = high\<rparr>)) (Reader_new bs)"

definition ClockRecord_encode :: "ClockRecord \<Rightarrow> bytes" where
  "ClockRecord_encode r = [CLOCK_RECORD_VERSION] @ u64_be (cr_high_water r)"

definition ClockRecord_decode :: "bytes \<Rightarrow> ClockRecord option" where
  "ClockRecord_decode bs =
     reading Reader_u8 (\<lambda>v. if v \<noteq> CLOCK_RECORD_VERSION then (\<lambda>_. None) else
     reading Reader_u64 (\<lambda>high r. if Reader_end r = None then None else Some \<lparr>cr_high_water = high\<rparr>)) (Reader_new bs)"

definition CodecRecord_encode :: "CodecRecord \<Rightarrow> bytes" where
  "CodecRecord_encode r = [CODEC_RECORD_VERSION] @ u64_be (cd_cipher_epoch r) @ cd_sealed r"

definition CodecRecord_decode :: "bytes \<Rightarrow> CodecRecord option" where
  "CodecRecord_decode bs =
     reading Reader_u8 (\<lambda>v. if v \<noteq> CODEC_RECORD_VERSION then (\<lambda>_. None) else
     reading Reader_u64 (\<lambda>epoch r. Some \<lparr>cd_cipher_epoch = epoch, cd_sealed = Reader_rest r\<rparr>)) (Reader_new bs)"

definition HeldLease_encode :: "HeldLease \<Rightarrow> bytes" where
  "HeldLease_encode h =
     (let l = hl_lease h in
      [HELD_LEASE_RECORD_VERSION] @ u64_be (l_id l) @ [case l_mode l of Read \<Rightarrow> 0 | Write \<Rightarrow> 1] @
      u64_be (wall (l_requested_at l)) @ u64_be (mono (l_requested_at l)) @ lineage (l_requested_at l) @
      u64_be (l_granted_at l) @ u64_be (millis_u64 (l_ttl l)) @ u64_be (l_barrier l) @
      u64_be (wall (hl_deadline h)) @ u64_be (mono (hl_deadline h)) @ lineage (hl_deadline h) @
      [if hl_forgotten h then 1 else 0] @ Key_encode (l_prefix l))"

definition HeldLease_decode :: "bytes \<Rightarrow> HeldLease option" where
  "HeldLease_decode bs =
     reading Reader_u8 (\<lambda>v. if v \<noteq> HELD_LEASE_RECORD_VERSION then (\<lambda>_. None) else
     reading Reader_u64 (\<lambda>id.
     reading Reader_u8 (\<lambda>m. if m \<noteq> 0 \<and> m \<noteq> 1 then (\<lambda>_. None) else
     reading Reader_u64 (\<lambda>rw. reading Reader_u64 (\<lambda>rm. reading Reader_bytes16 (\<lambda>rl.
     reading Reader_u64 (\<lambda>granted_at.
     reading Reader_u64 (\<lambda>ttl.
     reading Reader_u64 (\<lambda>barrier.
     reading Reader_u64 (\<lambda>dw. reading Reader_u64 (\<lambda>dm. reading Reader_bytes16 (\<lambda>dl.
     reading Reader_u8 (\<lambda>f r. if f \<noteq> 0 \<and> f \<noteq> 1 then None else
       map_option (\<lambda>pre.
         \<lparr>hl_lease = \<lparr>l_id = id, l_prefix = pre, l_mode = (if m = 0 then Read else Write),
            l_requested_at = \<lparr>wall = rw, mono = rm, lineage = rl\<rparr>, l_granted_at = granted_at,
            l_ttl = from_millis ttl, l_barrier = barrier\<rparr>,
          hl_deadline = \<lparr>wall = dw, mono = dm, lineage = dl\<rparr>, hl_forgotten = (f = 1)\<rparr>)
         (ok_opt (Key_decode (Reader_rest r)))))))))))))))) (Reader_new bs)"

subsection \<open>Queued operations and admitted batches\<close>

definition parsed :: "(Reader \<Rightarrow> ('a \<times> Reader) option) \<Rightarrow> Reader \<Rightarrow> 'a option \<times> Reader" where
  "parsed f r = (case f r of None \<Rightarrow> (None, r) | Some (x, r') \<Rightarrow> (Some x, r'))"

fun read_list :: "(Reader \<Rightarrow> ('a \<times> Reader) option) \<Rightarrow> nat \<Rightarrow> Reader \<Rightarrow> ('a list \<times> Reader) option" where
  "read_list f 0 r = Some ([], r)"
| "read_list f (Suc n) r =
     (case f r of
        None \<Rightarrow> None
      | Some (x, r') \<Rightarrow> map_option (\<lambda>(xs, r''). (x # xs, r'')) (read_list f n r'))"

fun entry_target :: "OpaqueValue Mutation \<Rightarrow> u8 \<times> bytes \<times> bytes option" where
  "entry_target (Set key val) = (1, Key_encode key, Some val)"
| "entry_target (Delete key) = (2, Key_encode key, None)"
| "entry_target (DeleteRange rng) = (3, Range_encode rng, None)"

definition encode_device_entry :: "entry \<Rightarrow> bytes" where
  "encode_device_entry e =
     (case entry_target (de_mutation e) of (kind, target, val) \<Rightarrow>
      let seal = Seal_encode (de_seal e) in
      [kind] @ u32_be (of_nat (length target)) @ target @ dt_device (de_tag e) @ u64_be (dt_device_seq (de_tag e)) @
      u64_be (dt_ver (de_tag e)) @ u64_be (dt_cipher_epoch (de_tag e)) @ u32_be (of_nat (length seal)) @ seal @
      (case val of None \<Rightarrow> [] | Some v \<Rightarrow> u32_be (of_nat (length v)) @ v))"

definition decode_device_entry :: "Reader \<Rightarrow> (entry \<times> Reader) option" where
  "decode_device_entry =
     reading Reader_u8 (\<lambda>kind.
     reading Reader_u32 (\<lambda>target_len.
     reading (Reader_take (unat target_len)) (\<lambda>target.
     reading Reader_bytes16 (\<lambda>device.
     reading Reader_u64 (\<lambda>device_seq. reading Reader_u64 (\<lambda>ver. reading Reader_u64 (\<lambda>cipher_epoch.
     reading Reader_u32 (\<lambda>seal_len.
     reading (Reader_take (unat seal_len)) (\<lambda>seal_bytes r.
       case Seal_decode seal_bytes of
         Inl _ \<Rightarrow> None
       | Inr seal \<Rightarrow>
         let tag = \<lparr>dt_device = device, dt_device_seq = device_seq, dt_ver = ver, dt_cipher_epoch = cipher_epoch\<rparr>;
             entry = (\<lambda>m. \<lparr>de_mutation = m, de_tag = tag, de_seal = seal\<rparr>)
         in if kind = 1 then
              reading Reader_u32 (\<lambda>len. case Key_decode target of Inl _ \<Rightarrow> (\<lambda>_. None) | Inr key \<Rightarrow>
              reading (Reader_take (unat len)) (\<lambda>val r. Some (entry (Set key val), r))) r
            else if kind = 2 then (case Key_decode target of Inl _ \<Rightarrow> None | Inr key \<Rightarrow> Some (entry (Delete key), r))
            else if kind = 3 then (case Range_decode target of None \<Rightarrow> None | Some rng \<Rightarrow> Some (entry (DeleteRange rng), r))
            else None)))))))))"

definition encode_entries :: "entry list \<Rightarrow> bytes" where
  "encode_entries entries = u32_be (of_nat (length entries)) @ concat (map encode_device_entry entries)"

definition decode_entries :: "Reader \<Rightarrow> (entry list \<times> Reader) option" where
  "decode_entries = reading Reader_u32 (\<lambda>count. read_list decode_device_entry (unat count))"

definition encode_range_assert :: "RangeAssert \<Rightarrow> bytes" where
  "encode_range_assert a =
     (let pre = Key_encode (ra_prefix a) in u32_be (of_nat (length pre)) @ pre @ u64_be (ra_upto a))"

definition decode_range_assert :: "Reader \<Rightarrow> (RangeAssert \<times> Reader) option" where
  "decode_range_assert =
     reading Reader_u32 (\<lambda>prefix_len.
     reading (Reader_take (unat prefix_len)) (\<lambda>pre. case Key_decode pre of Inl _ \<Rightarrow> (\<lambda>_. None) | Inr key \<Rightarrow>
     reading Reader_u64 (\<lambda>through r. Some (\<lparr>ra_prefix = key, ra_upto = through\<rparr>, r))))"

fun DeviceOp_encode :: "DeviceOp \<Rightarrow> bytes" where
  "DeviceOp_encode (CommitOp entries range_asserts evidence submit_mode) =
     [OPLOG_RECORD_VERSION] @ [0] @ [case submit_mode of Unchecked \<Rightarrow> 0 | Checked \<Rightarrow> 1] @ encode_entries entries @
     u32_be (of_nat (length range_asserts)) @ concat (map encode_range_assert range_asserts) @
     u32_be (of_nat (length evidence)) @ concat (map u64_be evidence)"
| "DeviceOp_encode (RollbackOp marker) = [OPLOG_RECORD_VERSION] @ [1] @ u64_be marker"

definition read_u64_item :: "Reader \<Rightarrow> (u64 \<times> Reader) option" where
  "read_u64_item = reading Reader_u64 (\<lambda>v r. Some (v, r))"

definition DeviceOp_decode :: "bytes \<Rightarrow> DeviceOp option" where
  "DeviceOp_decode bs =
     reading Reader_u8 (\<lambda>version. if version \<noteq> OPLOG_RECORD_VERSION then (\<lambda>_. None) else
     reading Reader_u8 (\<lambda>kind.
       if kind = 0 then
         reading Reader_u8 (\<lambda>m. if m \<noteq> 0 \<and> m \<noteq> 1 then (\<lambda>_. None) else
         reading (parsed decode_entries) (\<lambda>entries.
         reading Reader_u32 (\<lambda>assert_count.
         reading (parsed (read_list decode_range_assert (unat assert_count))) (\<lambda>range_asserts.
         reading Reader_u32 (\<lambda>evidence_count.
         reading (parsed (read_list read_u64_item (unat evidence_count))) (\<lambda>evidence r.
           if Reader_end r = None then None
           else Some (CommitOp entries range_asserts evidence (if m = 0 then Unchecked else Checked))))))))
       else if kind = 1 then
         reading Reader_u64 (\<lambda>marker r. if Reader_end r = None then None else Some (RollbackOp marker))
       else (\<lambda>_. None))) (Reader_new bs)"

definition encode_admitted_entry :: "admitted \<Rightarrow> bytes" where
  "encode_admitted_entry e =
     encode_device_entry (ae_device_entry e) @ u64_be (at_admission_seq (ae_admission e)) @ u32_be (at_op_index (ae_admission e))"

definition decode_admitted_entry :: "Reader \<Rightarrow> (admitted \<times> Reader) option" where
  "decode_admitted_entry =
     reading (parsed decode_device_entry) (\<lambda>entry. reading Reader_u64 (\<lambda>seq. reading Reader_u32 (\<lambda>op_index r.
       Some (\<lparr>ae_device_entry = entry, ae_admission = \<lparr>at_admission_seq = seq, at_op_index = op_index\<rparr>\<rparr>, r))))"

definition encode_admitted_batch :: "AdmittedBatch \<Rightarrow> bytes" where
  "encode_admitted_batch b =
     [ADMITTED_BATCH_RECORD_VERSION] @ u64_be (b_admission_seq b) @ b_device b @ u64_be (b_device_seq b) @ b_checksum b @
     u32_be (of_nat (length (b_entries b))) @ concat (map encode_admitted_entry (b_entries b))"

definition decode_admitted_batch :: "bytes \<Rightarrow> AdmittedBatch option" where
  "decode_admitted_batch bs =
     reading Reader_u8 (\<lambda>v. if v \<noteq> ADMITTED_BATCH_RECORD_VERSION then (\<lambda>_. None) else
     reading Reader_u64 (\<lambda>seq. reading Reader_bytes16 (\<lambda>device. reading Reader_u64 (\<lambda>device_seq.
     reading (Reader_take 32) (\<lambda>checksum.
     reading Reader_u32 (\<lambda>count.
     reading (parsed (read_list decode_admitted_entry (unat count))) (\<lambda>entries r.
       if Reader_end r = None then None
       else let b = \<lparr>b_admission_seq = seq, b_device = device, b_device_seq = device_seq, b_checksum = checksum, b_entries = entries\<rparr>
            in if AdmittedBatch_validate b = Inr () then Some b else None))))))) (Reader_new bs)"

subsection \<open>Round trips\<close>

fun small_value :: "OpaqueValue Mutation \<Rightarrow> bool" where
  "small_value (Set _ v) = (length v < 2 ^ 32)"
| "small_value (Delete _) = True"
| "small_value (DeleteRange _) = True"

definition valid_entry :: "entry \<Rightarrow> bool" where
  "valid_entry e \<longleftrightarrow> wf_entry e \<and> payload (de_seal e) = [] \<and> small_value (de_mutation e)"

definition norm_held :: "HeldLease \<Rightarrow> HeldLease" where
  "norm_held h = h\<lparr>hl_lease := (hl_lease h)\<lparr>l_ttl := from_millis (millis_u64 (l_ttl (hl_lease h)))\<rparr>\<rparr>"

definition valid_held :: "HeldLease \<Rightarrow> bool" where
  "valid_held h \<longleftrightarrow> wf_key (l_prefix (hl_lease h)) \<and> wf_stamp (l_requested_at (hl_lease h)) \<and> wf_stamp (hl_deadline h)"

fun valid_op :: "DeviceOp \<Rightarrow> bool" where
  "valid_op (CommitOp entries range_asserts evidence _) \<longleftrightarrow>
     length entries < 2 ^ 32 \<and> length range_asserts < 2 ^ 32 \<and> length evidence < 2 ^ 32 \<and>
     list_all valid_entry entries \<and> list_all (\<lambda>a. wf_key (ra_prefix a)) range_asserts"
| "valid_op (RollbackOp _) \<longleftrightarrow> True"

definition valid_batch :: "AdmittedBatch \<Rightarrow> bool" where
  "valid_batch b \<longleftrightarrow> wf_id (b_device b) \<and> wf_checksum (b_checksum b) \<and> dense_batch b \<and>
     list_all (\<lambda>e. valid_entry (ae_device_entry e)) (b_entries b)"

lemma reading_parsed [codec_simps]: "f r = Some (x, r') \<Longrightarrow> reading (parsed f) k r = k x r'"
  by (simp add: reading_def parsed_def)

lemma unat_length_u32 [codec_simps]: "n < 2 ^ 32 \<Longrightarrow> unat (of_nat n :: u32) = n"
  by (simp add: unat_of_nat)

lemma read_list_at [codec_simps]:
  assumes "list_all valid xs" "\<And>x pre ys. valid x \<Longrightarrow> f (reader_at pre (g x @ ys)) = Some (x, reader_at (pre @ g x) ys)"
  shows "read_list f (length xs) (reader_at pre (concat (map g xs) @ ys)) = Some (xs, reader_at (pre @ concat (map g xs)) ys)"
  using assms(1) by (induction xs arbitrary: pre) (simp_all add: assms(2))

lemma length_Range_encode_u32: "wf_range r \<Longrightarrow> length (Range_encode r) < 2 ^ 32"
  by (cases r) (auto simp: Let_def wf_key_def Key_encode_def key_limits)

lemma entry_target_small: "wf_mutation m \<Longrightarrow> entry_target m = (kind, target, val) \<Longrightarrow> length target < 2 ^ 32"
  using wf_range_length length_Range_encode_u32 by (cases m) auto

lemma decode_device_entry_at:
  assumes "valid_entry e"
  shows "decode_device_entry (reader_at pre (encode_device_entry e @ ys)) = Some (e, reader_at (pre @ encode_device_entry e) ys)"
proof -
  obtain kind target val where t: "entry_target (de_mutation e) = (kind, target, val)" by (cases "entry_target (de_mutation e)") auto
  have w: "wf_mutation (de_mutation e)" "length (dt_device (de_tag e)) = 16" "wf_seal (de_seal e)" "payload (de_seal e) = []"
    "small_value (de_mutation e)"
    using assms by (simp_all add: valid_entry_def wf_entry_def wf_tag_def wf_id_def)
  have len: "unat (of_nat (length target) :: u32) = length target"
    by (rule unat_length_u32 [OF entry_target_small [OF w(1) t]])
  have seal: "unat (of_nat (length (Seal_encode (de_seal e))) :: u32) = length (Seal_encode (de_seal e))"
    "Seal_decode (Seal_encode (de_seal e)) = Inr (de_seal e)"
    using w(3,4) by (simp_all add: length_Seal_encode seal_lengths Seal_decode_encode)
  show ?thesis
    using w(1,5) t len
    by (cases "de_mutation e")
      (auto simp: encode_device_entry_def decode_device_entry_def codec_simps w(2) seal Let_def Key_decode_encode_ok Range_decode_encode)
qed

lemma decode_entries_at [codec_simps]:
  assumes "list_all valid_entry es" "length es < 2 ^ 32"
  shows "decode_entries (reader_at pre (encode_entries es @ ys)) = Some (es, reader_at (pre @ encode_entries es) ys)"
proof -
  have "read_list decode_device_entry (length es) (reader_at p (concat (map encode_device_entry es) @ ys)) =
      Some (es, reader_at (p @ concat (map encode_device_entry es)) ys)" for p
    by (rule read_list_at [OF assms(1) decode_device_entry_at])
  then show ?thesis using assms(2) by (simp add: decode_entries_def encode_entries_def codec_simps)
qed

lemma decode_range_assert_at:
  assumes "wf_key (ra_prefix a)"
  shows "decode_range_assert (reader_at pre (encode_range_assert a @ ys)) = Some (a, reader_at (pre @ encode_range_assert a) ys)"
proof -
  have "unat (of_nat (length (Key_encode (ra_prefix a))) :: u32) = length (Key_encode (ra_prefix a))"
    by (rule unat_length_u32 [OF wf_range_length [OF assms]])
  then show ?thesis
    by (simp add: decode_range_assert_def encode_range_assert_def Let_def codec_simps Key_decode_encode_ok [OF assms])
qed

lemma read_u64_item_at: "read_u64_item (reader_at pre (u64_be v @ ys)) = Some (v, reader_at (pre @ u64_be v) ys)"
  by (simp add: read_u64_item_def codec_simps)

lemma decode_admitted_entry_at:
  assumes "valid_entry (ae_device_entry e)"
  shows "decode_admitted_entry (reader_at pre (encode_admitted_entry e @ ys)) = Some (e, reader_at (pre @ encode_admitted_entry e) ys)"
  by (simp add: decode_admitted_entry_def encode_admitted_entry_def codec_simps decode_device_entry_at [OF assms])

interpretation meta_checksum: record_codec "\<lambda>r. wf_checksum (ck_value r)" ChecksumRecord_encode ChecksumRecord_decode
  by unfold_locales (simp add: ChecksumRecord_encode_def ChecksumRecord_decode_def wf_checksum_def Reader_new_at codec_simps)

interpretation meta_device: record_codec "\<lambda>r. wf_id (md_id r)" MetaDeviceRecord_encode MetaDeviceRecord_decode
  by unfold_locales (simp add: MetaDeviceRecord_encode_def MetaDeviceRecord_decode_def wf_id_def Reader_new_at codec_simps)

interpretation oplog_cursors: record_codec "\<lambda>_. True" OplogCursors_encode OplogCursors_decode
  by unfold_locales (simp add: OplogCursors_encode_def OplogCursors_decode_def Reader_new_at codec_simps)

interpretation admit_cursors: record_codec "\<lambda>_. True" AdmitCursors_encode AdmitCursors_decode
  by unfold_locales (simp add: AdmitCursors_encode_def AdmitCursors_decode_def Reader_new_at codec_simps)

interpretation ver_high: record_codec "\<lambda>_. True" VerHighRecord_encode VerHighRecord_decode
  by unfold_locales (simp add: VerHighRecord_encode_def VerHighRecord_decode_def Reader_new_at codec_simps)

interpretation clock_record: record_codec "\<lambda>_. True" ClockRecord_encode ClockRecord_decode
  by unfold_locales (simp add: ClockRecord_encode_def ClockRecord_decode_def Reader_new_at codec_simps)

interpretation codec_record: record_codec "\<lambda>_. True" CodecRecord_encode CodecRecord_decode
  by unfold_locales (simp add: CodecRecord_encode_def CodecRecord_decode_def Reader_new_at codec_simps)

lemma HeldLease_decode_norm: "valid_held h \<Longrightarrow> HeldLease_decode (HeldLease_encode h) = Some (norm_held h)"
  by (auto simp: HeldLease_encode_def HeldLease_decode_def Let_def valid_held_def norm_held_def wf_stamp_def Reader_new_at
      codec_simps Key_decode_encode_ok split: LeaseMode.splits)

interpretation held: record_codec "\<lambda>h. valid_held h \<and> norm_held h = h" HeldLease_encode HeldLease_decode
  by unfold_locales (simp add: HeldLease_decode_norm)

lemma HeldLease_encode_norm [simp]: "HeldLease_encode (norm_held h) = HeldLease_encode h"
  by (simp add: HeldLease_encode_def norm_held_def Let_def)

lemma norm_held_idem [simp]: "norm_held (norm_held h) = norm_held h" "valid_held (norm_held h) = valid_held h"
  by (simp_all add: norm_held_def valid_held_def)

interpretation device_op: record_codec valid_op DeviceOp_encode DeviceOp_decode
proof unfold_locales
  fix op
  assume v: "valid_op op"
  show "DeviceOp_decode (DeviceOp_encode op) = Some op"
  proof (cases op)
    case (CommitOp es ras evs mode)
    note reads = read_list_at [OF _ decode_range_assert_at, where valid = "\<lambda>a. wf_key (ra_prefix a)"]
      read_list_at [OF _ read_u64_item_at, where valid = "\<lambda>_. True"]
    have "list_all (\<lambda>_. True) evs" by (simp add: list_all_iff)
    with v CommitOp show ?thesis
      by (cases mode)
        (simp_all add: DeviceOp_decode_def Reader_new_at codec_simps reads reads(2) [where ys = "[]", simplified])
  qed (simp add: DeviceOp_decode_def Reader_new_at codec_simps)
qed

interpretation admitted_batch: record_codec valid_batch encode_admitted_batch decode_admitted_batch
proof unfold_locales
  fix b
  assume v: "valid_batch b"
  have reads: "read_list decode_admitted_entry (length (b_entries b)) (reader_at p (concat (map encode_admitted_entry (b_entries b)))) =
      Some (b_entries b, reader_at (p @ concat (map encode_admitted_entry (b_entries b))) [])" for p
    using read_list_at [where valid = "\<lambda>e. valid_entry (ae_device_entry e)" and f = decode_admitted_entry and g = encode_admitted_entry and
        xs = "b_entries b" and pre = p and ys = "[]"] v
    by (simp add: valid_batch_def decode_admitted_entry_at)
  have "length (b_entries b) < 2 ^ 32" "AdmittedBatch_validate b = Inr ()"
    using v by (simp_all add: valid_batch_def dense_batch_def AdmittedBatch_validate_iff)
  then show "decode_admitted_batch (encode_admitted_batch b) = Some b"
    using v reads
    by (cases b) (simp add: decode_admitted_batch_def encode_admitted_batch_def valid_batch_def wf_id_def wf_checksum_def
        Reader_new_at codec_simps Let_def)
qed

text \<open>C29: the client's durable records survive a restart: device, clock, cursors, version high-water, checksum,
  codec, oplog and admit-log records decode to the record that was written, for the sizes the 32-bit length
  fields can carry.  A held lease decodes to the lease that was written with its time-to-live cut to
  whole milliseconds (and capped to 64 bits), and so to itself when that is what it holds; the recorded
  deadline is kept as it is.\<close>

theorem client_record_codecs_roundtrip:
  assumes "wf_checksum (ck_value ck)" "wf_id (md_id d)" "valid_held h" "valid_op op" "valid_batch b"
  shows "ChecksumRecord_decode (ChecksumRecord_encode ck) = Some ck \<and>
    MetaDeviceRecord_decode (MetaDeviceRecord_encode d) = Some d \<and>
    OplogCursors_decode (OplogCursors_encode oc) = Some oc \<and> AdmitCursors_decode (AdmitCursors_encode ac) = Some ac \<and>
    VerHighRecord_decode (VerHighRecord_encode vh) = Some vh \<and> ClockRecord_decode (ClockRecord_encode cr) = Some cr \<and>
    CodecRecord_decode (CodecRecord_encode cd) = Some cd \<and>
    HeldLease_decode (HeldLease_encode h) =
      Some (h\<lparr>hl_lease := (hl_lease h)\<lparr>l_ttl := from_millis (millis_u64 (l_ttl (hl_lease h)))\<rparr>\<rparr>) \<and>
    DeviceOp_decode (DeviceOp_encode op) = Some op \<and> decode_admitted_batch (encode_admitted_batch b) = Some b"
  using meta_checksum.decode_encode [OF assms(1)] meta_device.decode_encode [OF assms(2)] HeldLease_decode_norm [OF assms(3)]
    device_op.decode_encode [OF assms(4)] admitted_batch.decode_encode [OF assms(5)]
    oplog_cursors.decode_encode admit_cursors.decode_encode ver_high.decode_encode clock_record.decode_encode codec_record.decode_encode
  by (simp add: norm_held_def)

text \<open>The witness: a lease of one millisecond and a half, a rollback and an empty admitted batch.\<close>

theorem client_record_codecs_roundtrip_witness:
  "l_ttl (hl_lease (the (HeldLease_decode (HeldLease_encode
     \<lparr>hl_lease = \<lparr>l_id = 1, l_prefix = [[7]], l_mode = Write, l_requested_at = HybridTimestamp_ZERO, l_granted_at = 0,
        l_ttl = 1500000, l_barrier = 0\<rparr>, hl_deadline = HybridTimestamp_ZERO, hl_forgotten = False\<rparr>)))) = 1000000 \<and>
   DeviceOp_decode (DeviceOp_encode (RollbackOp 3)) = Some (RollbackOp 3)"
proof -
  let ?h = "\<lparr>hl_lease = \<lparr>l_id = 1, l_prefix = [[7]], l_mode = Write, l_requested_at = HybridTimestamp_ZERO, l_granted_at = 0,
        l_ttl = 1500000, l_barrier = 0\<rparr>, hl_deadline = HybridTimestamp_ZERO, hl_forgotten = False\<rparr>"
  let ?b = "\<lparr>b_admission_seq = 1, b_device = replicate 16 0, b_device_seq = 1, b_checksum = replicate 32 0, b_entries = []\<rparr>"
  have h: "valid_held ?h"
    by (simp add: valid_held_def wf_stamp_def HybridTimestamp_ZERO_def Lineage_NONE_def wf_key_def wf_component_def key_limits)
  have b: "valid_batch ?b" by (simp add: valid_batch_def wf_id_def wf_checksum_def dense_batch_def)
  have "wf_checksum (ck_value \<lparr>ck_value = replicate 32 0\<rparr>)" "wf_id (md_id \<lparr>md_id = replicate 16 0\<rparr>)"
    by (simp_all add: wf_checksum_def wf_id_def)
  from client_record_codecs_roundtrip [OF this h _ b, of "RollbackOp 3"] show ?thesis
    by (simp add: from_millis_def millis_u64_def as_millis_def unat_of_nat)
qed

end
