(* ===== verification/MetaStore.thy ===== *)
theory MetaStore
  imports MetaCodec Aggregates
begin

text \<open>
  The client's metadata store, \<open>OrderedMetaStore\<close> of \<open>client/src/meta.rs\<close>: its storage keys, the
  on-demand reads, the atomic transitions, \<open>load\<close>, and the audit \<open>certify\<close> of the loaded state.  A
  transition reads the store, decides, and applies one write batch; it returns its result and the
  store.  Each \<open>StorageError::new\<close> is a constructor of \<open>MetaError\<close>, each panic is \<open>MetaPanic\<close> with its
  message.  Plain unsigned additions wrap, as in a release build.
\<close>

datatype MetaError =
    EntryCountMismatch | MalformedReservation | StaleReservation | ChecksumChanged
  | RollbackOutside DeviceSeq OplogCursors | OplogTailOverflow | RollbackWindowChanged OplogCursors OplogCursors
  | MalformedPull PullDensityError | AdmitTailZero | PullOffset AdmissionSeq AdmissionSeq | AdmitTailOverflow
  | AdmitApplyOutside AdmissionSeq AdmitCursors | AdmitTrimOutside AdmissionSeq AdmitCursors
  | AdmitReadOutside AdmissionSeq AdmissionSeq AdmitCursors | AdmitReadCount u64 nat | AdmitReadGap AdmissionSeq AdmissionSeq
  | AdmitReadOverflow | MetaPanic string | StoreFault Error

subsection \<open>Keys\<close>

definition NAMESPACE_META :: u8 where "NAMESPACE_META = 0"
definition ROOT_CLIENT :: u8 where "ROOT_CLIENT = 0"
definition ROOT_SPACE :: u8 where "ROOT_SPACE = 1"

datatype ClientKind = DeviceKind | ClockKind

fun ClientKind_u8 :: "ClientKind \<Rightarrow> u8" where
  "ClientKind_u8 DeviceKind = 0"
| "ClientKind_u8 ClockKind = 4"

datatype SpaceKind = CodecKind | LeaseKind | CursorsKind | VerKind | OplogKind | ChecksumKind | AdmitCursorsKind | AdmitLogKind

fun SpaceKind_u8 :: "SpaceKind \<Rightarrow> u8" where
  "SpaceKind_u8 CodecKind = 0"
| "SpaceKind_u8 LeaseKind = 1"
| "SpaceKind_u8 CursorsKind = 2"
| "SpaceKind_u8 VerKind = 3"
| "SpaceKind_u8 OplogKind = 4"
| "SpaceKind_u8 ChecksumKind = 5"
| "SpaceKind_u8 AdmitCursorsKind = 6"
| "SpaceKind_u8 AdmitLogKind = 7"

definition client_kind :: "ClientKind \<Rightarrow> key_component list" where
  "client_kind kind = [[NAMESPACE_META], [ROOT_CLIENT], [ClientKind_u8 kind]]"

definition space_kind :: "SpaceId \<Rightarrow> SpaceKind \<Rightarrow> key_component list" where
  "space_kind space kind = [[NAMESPACE_META], [ROOT_SPACE], space, [SpaceKind_u8 kind]]"

definition meta_scan_all :: bytes where
  "meta_scan_all = encode_components [[NAMESPACE_META]]"

definition meta_device_key :: bytes where
  "meta_device_key = encode_components (client_kind DeviceKind)"

definition clock_key :: bytes where
  "clock_key = encode_components (client_kind ClockKind)"

definition cursors_key :: "SpaceId \<Rightarrow> bytes" where
  "cursors_key space = encode_components (space_kind space CursorsKind)"

definition ver_key :: "SpaceId \<Rightarrow> bytes" where
  "ver_key space = encode_components (space_kind space VerKind)"

definition checksum_key :: "SpaceId \<Rightarrow> bytes" where
  "checksum_key space = encode_components (space_kind space ChecksumKind)"

definition oplog_scan :: "SpaceId \<Rightarrow> bytes" where
  "oplog_scan space = encode_components (space_kind space OplogKind)"

definition oplog_key :: "SpaceId \<Rightarrow> DeviceSeq \<Rightarrow> bytes" where
  "oplog_key space seq = encode_components (space_kind space OplogKind @ [u64_be seq])"

definition admit_cursors_key :: "SpaceId \<Rightarrow> bytes" where
  "admit_cursors_key space = encode_components (space_kind space AdmitCursorsKind)"

definition admit_log_scan :: "SpaceId \<Rightarrow> bytes" where
  "admit_log_scan space = encode_components (space_kind space AdmitLogKind)"

definition admit_log_key :: "SpaceId \<Rightarrow> AdmissionSeq \<Rightarrow> bytes" where
  "admit_log_key space seq = encode_components (space_kind space AdmitLogKind @ [u64_be seq])"

definition codec_key :: "SpaceId \<Rightarrow> bytes" where
  "codec_key space = encode_components (space_kind space CodecKind)"

definition lease_key :: "SpaceId \<Rightarrow> key \<Rightarrow> bytes" where
  "lease_key space pre = encode_components (space_kind space LeaseKind @ pre)"

definition lease_scan :: "SpaceId \<Rightarrow> bytes" where
  "lease_scan space = encode_components (space_kind space LeaseKind)"

definition single_byte :: "key_component list \<Rightarrow> nat \<Rightarrow> string \<Rightarrow> MetaError + u8" where
  "single_byte components index what =
     (case get_at components index of
        None \<Rightarrow> Inl (MetaPanic (''storage key missing '' @ what))
      | Some bs \<Rightarrow> if length bs = 1 then Inr (hd bs) else Inl (MetaPanic (what @ '' must be one byte'')))"

definition u64_at :: "key_component list \<Rightarrow> nat \<Rightarrow> string \<Rightarrow> MetaError + u64" where
  "u64_at components index what =
     (case get_at components index of
        None \<Rightarrow> Inl (MetaPanic (''storage key missing '' @ what))
      | Some bs \<Rightarrow> if length bs = 8 then Inr (u64_of_be bs) else Inl (MetaPanic (what @ '' must be 8 bytes'')))"

definition storage_components :: "bytes \<Rightarrow> MetaError + key_component list" where
  "storage_components k = map_err (\<lambda>_. MetaPanic ''undecodable storage key'') (decode_components k)"

subsection \<open>Reads\<close>

definition expect_decoded :: "(bytes \<Rightarrow> 'a option) \<Rightarrow> string \<Rightarrow> bytes \<Rightarrow> MetaError + 'a" where
  "expect_decoded decode msg bs = ok_or (MetaPanic msg) (decode bs)"

definition stored :: "(bytes \<Rightarrow> 'a option) \<Rightarrow> string \<Rightarrow> MemoryStore \<Rightarrow> bytes \<Rightarrow> MetaError + 'a option" where
  "stored decode msg st k =
     (case MemoryStore_get st k of
        None \<Rightarrow> Inr None
      | Some bs \<Rightarrow> rbind (expect_decoded decode msg bs) (\<lambda>r. Inr (Some r)))"

definition or_default :: "'a \<Rightarrow> MetaError + 'a option \<Rightarrow> MetaError + 'a" where
  "or_default d m = rbind m (\<lambda>r. Inr (case r of None \<Rightarrow> d | Some x \<Rightarrow> x))"

definition oplog_cursors :: "MemoryStore \<Rightarrow> SpaceId \<Rightarrow> MetaError + OplogCursors" where
  "oplog_cursors st space =
     or_default OplogCursors_default (stored OplogCursors_decode ''undecodable oplog cursors'' st (cursors_key space))"

definition admit_cursors :: "MemoryStore \<Rightarrow> SpaceId \<Rightarrow> MetaError + AdmitCursors" where
  "admit_cursors st space =
     or_default AdmitCursors_default (stored AdmitCursors_decode ''undecodable admit cursors'' st (admit_cursors_key space))"

definition cursor_snapshot :: "MemoryStore \<Rightarrow> SpaceId \<Rightarrow> MetaError + CursorSnapshot" where
  "cursor_snapshot st space =
     rbind (oplog_cursors st space) (\<lambda>oplog. rbind (admit_cursors st space) (\<lambda>admits.
       Inr \<lparr>sn_oplog = oplog, sn_admits = admits\<rparr>))"

definition ver_high :: "MemoryStore \<Rightarrow> SpaceId \<Rightarrow> MetaError + Ver option" where
  "ver_high st space =
     rbind (stored VerHighRecord_decode ''undecodable ver record'' st (ver_key space)) (\<lambda>r. Inr (map_option vh_high r))"

fun oplog_loop :: "DeviceSeq \<Rightarrow> (bytes \<times> bytes) list \<Rightarrow> MetaError + (DeviceSeq \<times> DeviceOp) list" where
  "oplog_loop through [] = Inr []"
| "oplog_loop through ((storage_key, bs) # kvs) =
     rbind (storage_components storage_key) (\<lambda>components.
     rbind (u64_at components 4 ''commit seq'') (\<lambda>seq.
       if seq > through then Inr []
       else rbind (expect_decoded DeviceOp_decode ''undecodable commit record'' bs) (\<lambda>record.
            rbind (oplog_loop through kvs) (\<lambda>out. Inr ((seq, record) # out)))))"

definition oplog :: "MemoryStore \<Rightarrow> SpaceId \<Rightarrow> DeviceSeq \<Rightarrow> DeviceSeq \<Rightarrow> MetaError + (DeviceSeq \<times> DeviceOp) list" where
  "oplog st space from through =
     (if from > through then Inr []
      else rbind (map_err StoreFault (MemoryStore_scan st (oplog_key space from) (prefix_successor (oplog_scan space))))
        (oplog_loop through))"

fun admitted_loop :: "AdmissionSeq \<Rightarrow> (bytes \<times> bytes) list \<Rightarrow> MetaError + AdmittedBatch list" where
  "admitted_loop through [] = Inr []"
| "admitted_loop through ((storage_key, bs) # kvs) =
     rbind (storage_components storage_key) (\<lambda>components.
     rbind (u64_at components 4 ''admission seq'') (\<lambda>seq.
       if seq > through then Inr []
       else rbind (expect_decoded decode_admitted_batch ''undecodable admitted batch record'' bs) (\<lambda>admitted.
         if b_admission_seq admitted \<noteq> seq then Inl (MetaPanic ''admitted batch diverges from its storage key'')
         else rbind (admitted_loop through kvs) (\<lambda>out. Inr (admitted # out)))))"

fun check_dense :: "AdmissionSeq \<Rightarrow> nat \<Rightarrow> AdmittedBatch list \<Rightarrow> MetaError + unit" where
  "check_dense from offset [] = Inr ()"
| "check_dense from offset (b # bs) =
     (if offset \<ge> 2 ^ 64 then Inl AdmitReadOverflow
      else rbind (ok_or AdmitReadOverflow (checked_add64 from (of_nat offset))) (\<lambda>expected.
        if b_admission_seq b \<noteq> expected then Inl (AdmitReadGap expected (b_admission_seq b))
        else check_dense from (offset + 1) bs))"

definition admitted_batches :: "MemoryStore \<Rightarrow> SpaceId \<Rightarrow> AdmissionSeq \<Rightarrow> AdmissionSeq \<Rightarrow> MetaError + AdmittedBatch list" where
  "admitted_batches st space from through =
     (if from > through then Inr []
      else rbind (admit_cursors st space) (\<lambda>cursors.
        if from < ac_head cursors \<or> through \<ge> ac_tail cursors then Inl (AdmitReadOutside from through cursors)
        else rbind (map_err StoreFault (MemoryStore_scan st (admit_log_key space from) (prefix_successor (admit_log_scan space)))) (\<lambda>kvs.
          rbind (admitted_loop through kvs) (\<lambda>out.
            let expected_len = through - from + 1 in
            if length out \<noteq> unat expected_len then Inl (AdmitReadCount expected_len (length out))
            else rbind (check_dense from 0 out) (\<lambda>_. Inr out)))))"

text \<open>Candidates are collected into an ordered set of storage keys and read one by one.\<close>

definition lease_candidates :: "SpaceId \<Rightarrow> key list \<Rightarrow> bytes list" where
  "lease_candidates space queries =
     foldl (\<lambda>cands k. insort_insert k cands) []
       (concat (map (\<lambda>pre. map (\<lambda>depth. lease_key space (take depth pre)) [1..<length pre + 1]) queries))"

definition leases_covering :: "MemoryStore \<Rightarrow> SpaceId \<Rightarrow> key list \<Rightarrow> MetaError + HeldLease list" where
  "leases_covering st space queries =
     rfold (\<lambda>out candidate.
       rbind (stored HeldLease_decode ''undecodable lease'' st candidate) (\<lambda>held.
         Inr (case held of None \<Rightarrow> out | Some h \<Rightarrow> out @ [h]))) [] (lease_candidates space queries)"

subsection \<open>Transitions\<close>

record ReservedCommit =
  rc_seq :: DeviceSeq
  rc_ver_high :: Ver
  rc_versions :: "Ver list"
  rc_range_asserts :: "RangeAssert list"
  rc_submit_mode :: SubmitMode

record Committed =
  cm_seq :: DeviceSeq
  cm_ver_high :: Ver

type_synonym 'a transition = "MemoryStore \<Rightarrow> (MetaError + 'a) \<times> MemoryStore"

text \<open>The end of a transition: apply the batch that was decided on, or report the error.\<close>

definition finish :: "MetaError + ('a \<times> WriteBatch) \<Rightarrow> 'a transition" where
  "finish decision st =
     (case decision of Inl err \<Rightarrow> (Inl err, st) | Inr (result, batch) \<Rightarrow> (Inr result, MemoryStore_apply batch st))"

definition record_device :: "DeviceId \<Rightarrow> unit transition" where
  "record_device device st = finish (Inr ((), WriteBatch_put meta_device_key (MetaDeviceRecord_encode \<lparr>md_id = device\<rparr>) [])) st"

definition reserve_commit :: "MemoryStore \<Rightarrow> SpaceId \<Rightarrow> nat \<Rightarrow> RangeAssert list \<Rightarrow> SubmitMode \<Rightarrow> MetaError + ReservedCommit" where
  "reserve_commit st space mutation_count range_asserts submit_mode =
     rbind (oplog_cursors st space) (\<lambda>cursors.
     rbind (or_default 0 (ver_high st space)) (\<lambda>high.
       let versions = map (\<lambda>i. high + 1 + of_nat i) [0..<mutation_count]
       in Inr \<lparr>rc_seq = oc_tail cursors, rc_ver_high = (if versions = [] then high else last versions), rc_versions = versions,
            rc_range_asserts = range_asserts, rc_submit_mode = submit_mode\<rparr>))"

definition commit :: "SpaceId \<Rightarrow> ReservedCommit \<Rightarrow> entry list \<Rightarrow> Committed transition" where
  "commit space reserved entries st = finish
     (if length entries \<noteq> length (rc_versions reserved) then Inl EntryCountMismatch
      else rbind (ok_or MalformedReservation (checked_sub64 (rc_ver_high reserved) (of_nat (length entries)))) (\<lambda>expected_high.
        rbind (oplog_cursors st space) (\<lambda>current_cursors.
        rbind (or_default 0 (ver_high st space)) (\<lambda>current_high.
          if oc_tail current_cursors \<noteq> rc_seq reserved \<or> current_high \<noteq> expected_high then Inl StaleReservation
          else let record = commit_with_asserts entries (rc_range_asserts reserved) (rc_submit_mode reserved);
                   batch = WriteBatch_put (oplog_key space (rc_seq reserved)) (DeviceOp_encode record) [];
                   batch = WriteBatch_put (cursors_key space) (OplogCursors_encode (current_cursors\<lparr>oc_tail := rc_seq reserved + 1\<rparr>)) batch;
                   batch = WriteBatch_put (ver_key space) (VerHighRecord_encode \<lparr>vh_high = rc_ver_high reserved\<rparr>) batch
               in Inr (\<lparr>cm_seq = rc_seq reserved, cm_ver_high = rc_ver_high reserved\<rparr>, batch))))) st"

fun trim_rows :: "DeviceSeq \<Rightarrow> (bytes \<times> bytes) list \<Rightarrow> WriteBatch \<Rightarrow> MetaError + WriteBatch" where
  "trim_rows through [] batch = Inr batch"
| "trim_rows through ((storage_key, _) # queued) batch =
     rbind (storage_components storage_key) (\<lambda>components.
     rbind (u64_at components 4 ''commit seq'') (\<lambda>seq.
       if seq > through then Inr batch
       else trim_rows through queued (WriteBatch_delete storage_key batch)))"

definition confirmed_checksum :: "MemoryStore \<Rightarrow> SpaceId \<Rightarrow> MetaError + DeviceChecksum" where
  "confirmed_checksum st space =
     or_default DeviceChecksum_EMPTY
       (rbind (stored ChecksumRecord_decode ''undecodable checksum'' st (checksum_key space)) (\<lambda>r. Inr (map_option ck_value r)))"

definition trim_oplog :: "SpaceId \<Rightarrow> DeviceSeq \<Rightarrow> DeviceChecksum \<Rightarrow> unit transition" where
  "trim_oplog space through checksum st = finish
     (rbind (oplog_cursors st space) (\<lambda>cursors.
      rbind (confirmed_checksum st space) (\<lambda>confirmed.
        if through < oc_neck cursors \<and> checksum \<noteq> confirmed then Inl ChecksumChanged
        else rbind (map_err StoreFault (scan_prefix st (oplog_scan space))) (\<lambda>queued.
          rbind (trim_rows through queued
              (WriteBatch_put (checksum_key space) (ChecksumRecord_encode \<lparr>ck_value = checksum\<rparr>) [])) (\<lambda>batch.
            let advanced = min (sat_add64 through 1) (oc_tail cursors);
                head = max (oc_head cursors) advanced;
                neck = max (oc_neck cursors) advanced
            in Inr ((), if head \<noteq> oc_head cursors \<or> neck \<noteq> oc_neck cursors
                 then WriteBatch_put (cursors_key space)
                   (OplogCursors_encode \<lparr>oc_head = head, oc_neck = neck, oc_tail = oc_tail cursors\<rparr>) batch
                 else batch)))))) st"

definition rollback :: "SpaceId \<Rightarrow> DeviceSeq \<Rightarrow> unit transition" where
  "rollback space to st = finish
     (rbind (oplog_cursors st space) (\<lambda>cursors.
        if to < oc_neck cursors \<and> checked_add64 (oc_neck cursors) 1 = Some (oc_tail cursors) \<and>
           (case MemoryStore_get st (oplog_key space (oc_neck cursors)) of
              None \<Rightarrow> False | Some bs \<Rightarrow> DeviceOp_decode bs = Some (RollbackOp to))
        then Inr ((), [])
        else if to < oc_neck cursors \<or> to \<ge> oc_tail cursors then Inl (RollbackOutside to cursors)
        else rbind (ok_or OplogTailOverflow (checked_add64 (oc_tail cursors) 1)) (\<lambda>next_tail.
          Inr ((), WriteBatch_put (cursors_key space)
            (OplogCursors_encode \<lparr>oc_head = oc_head cursors, oc_neck = oc_tail cursors, oc_tail = next_tail\<rparr>)
            (WriteBatch_put (oplog_key space (oc_tail cursors)) (DeviceOp_encode (RollbackOp to)) []))))) st"

definition rollback_if_unchanged :: "SpaceId \<Rightarrow> DeviceSeq \<Rightarrow> OplogCursors \<Rightarrow> unit transition" where
  "rollback_if_unchanged space to expected st =
     (case rbind (oplog_cursors st space) (\<lambda>current.
        rbind (ok_or OplogTailOverflow (checked_add64 (oc_tail expected) 1)) (\<lambda>completed_tail.
          let completed = \<lparr>oc_head = oc_head expected, oc_neck = oc_tail expected, oc_tail = completed_tail\<rparr>
          in if current \<noteq> expected \<and> current \<noteq> completed then Inl (RollbackWindowChanged expected current) else Inr ()))
      of Inl err \<Rightarrow> (Inl err, st) | Inr () \<Rightarrow> rollback space to st)"

definition append_admits :: "SpaceId \<Rightarrow> PullResponse \<Rightarrow> unit transition" where
  "append_admits space response st = finish
     (rbind (map_err MalformedPull (validate_dense response)) (\<lambda>_.
      rbind (admit_cursors st space) (\<lambda>cursors.
      rbind (ok_or AdmitTailZero (checked_sub64 (ac_tail cursors) 1)) (\<lambda>expected_after.
        if ps_after response \<noteq> expected_after then Inl (PullOffset (ps_after response) expected_after)
        else if ps_batches response = [] then Inr ((), [])
        else rbind (ok_or AdmitTailOverflow (checked_add64 (ps_through response) 1)) (\<lambda>next_tail.
          rbind (ver_high st space) (\<lambda>high.
            let ver_seen = fold max (map AdmittedEntry_ver (concat (map b_entries (ps_batches response)))) 0;
                batch = foldl (\<lambda>batch admitted.
                  WriteBatch_put (admit_log_key space (b_admission_seq admitted)) (encode_admitted_batch admitted) batch)
                  [] (ps_batches response);
                batch = WriteBatch_put (admit_cursors_key space) (AdmitCursors_encode (cursors\<lparr>ac_tail := next_tail\<rparr>)) batch
            in Inr ((), if high \<noteq> None \<or> ver_seen > 0
                 then WriteBatch_put (ver_key space)
                   (VerHighRecord_encode \<lparr>vh_high = max (case high of None \<Rightarrow> 0 | Some h \<Rightarrow> h) ver_seen\<rparr>) batch
                 else batch))))))) st"

definition mark_admits_applied :: "SpaceId \<Rightarrow> AdmissionSeq \<Rightarrow> unit transition" where
  "mark_admits_applied space to st = finish
     (rbind (admit_cursors st space) (\<lambda>cursors.
        if to < ac_neck cursors \<or> to > ac_tail cursors then Inl (AdmitApplyOutside to cursors)
        else if to = ac_neck cursors then Inr ((), [])
        else Inr ((), WriteBatch_put (admit_cursors_key space) (AdmitCursors_encode (cursors\<lparr>ac_neck := to\<rparr>)) []))) st"

definition trim_admits :: "SpaceId \<Rightarrow> AdmissionSeq \<Rightarrow> unit transition" where
  "trim_admits space to st = finish
     (rbind (admit_cursors st space) (\<lambda>cursors.
        if to < ac_head cursors \<or> to > ac_neck cursors then Inl (AdmitTrimOutside to cursors)
        else if to = ac_head cursors then Inr ((), [])
        else Inr ((), WriteBatch_put (admit_cursors_key space) (AdmitCursors_encode (cursors\<lparr>ac_head := to\<rparr>))
          (foldl (\<lambda>batch raw_seq. WriteBatch_delete (admit_log_key space (of_nat raw_seq)) batch)
            [] [unat (ac_head cursors)..<unat to])))) st"

definition record_clock :: "Timestamp \<Rightarrow> unit transition" where
  "record_clock high st = finish (Inr ((), WriteBatch_put clock_key (ClockRecord_encode \<lparr>cr_high_water = high\<rparr>) [])) st"

definition put_leases :: "SpaceId \<Rightarrow> HeldLease list \<Rightarrow> WriteBatch \<Rightarrow> WriteBatch" where
  "put_leases space leases batch =
     foldl (\<lambda>batch held. WriteBatch_put (lease_key space (l_prefix (hl_lease held))) (HeldLease_encode held) batch) batch leases"

definition record_leases :: "SpaceId \<Rightarrow> HeldLease list \<Rightarrow> unit transition" where
  "record_leases space leases st = finish (Inr ((), put_leases space leases [])) st"

definition reconcile_leases :: "SpaceId \<Rightarrow> HeldLease list \<Rightarrow> unit transition" where
  "reconcile_leases space leases st = finish
     (rbind (map_err StoreFault (scan_prefix st (lease_scan space))) (\<lambda>kvs.
        Inr ((), put_leases space leases (foldl (\<lambda>batch (storage_key, _). WriteBatch_delete storage_key batch) [] kvs)))) st"

definition forget_leases :: "SpaceId \<Rightarrow> LeaseId list \<Rightarrow> unit transition" where
  "forget_leases space ids st = finish
     (rbind (map_err StoreFault (scan_prefix st (lease_scan space))) (\<lambda>kvs.
      rbind (rfold (\<lambda>batch (storage_key, bs).
          rbind (expect_decoded HeldLease_decode ''undecodable lease'' bs) (\<lambda>record. Inr
            (if l_id (hl_lease record) \<in> set ids \<and> \<not> hl_forgotten record
             then WriteBatch_put storage_key (HeldLease_encode (record\<lparr>hl_forgotten := True\<rparr>)) batch
             else batch))) [] kvs) (\<lambda>batch. Inr ((), batch)))) st"

definition drop_leases :: "SpaceId \<Rightarrow> LeaseId list \<Rightarrow> unit transition" where
  "drop_leases space ids st = finish
     (rbind (map_err StoreFault (scan_prefix st (lease_scan space))) (\<lambda>kvs.
      rbind (rfold (\<lambda>batch (storage_key, bs).
          rbind (expect_decoded HeldLease_decode ''undecodable lease'' bs) (\<lambda>record. Inr
            (if l_id (hl_lease record) \<in> set ids then WriteBatch_delete storage_key batch else batch))) [] kvs) (\<lambda>batch.
        Inr ((), batch)))) st"

definition record_codec_bundle :: "SpaceId \<Rightarrow> CodecRecord \<Rightarrow> unit transition" where
  "record_codec_bundle space record st = finish (Inr ((), WriteBatch_put (codec_key space) (CodecRecord_encode record) [])) st"

subsection \<open>Load\<close>

record SpaceState =
  ss_cursors :: OplogCursors
  ss_admit_cursors :: AdmitCursors
  ss_checksum :: DeviceChecksum
  ss_ver_high :: "Ver option"
  ss_oplog :: "(DeviceSeq, DeviceOp) btree"
  ss_admits :: "(AdmissionSeq, AdmittedBatch) btree"
  ss_codec :: "CodecRecord option"
  ss_leases :: "(LeaseId, HeldLease) btree"

definition SpaceState_default :: SpaceState where
  "SpaceState_default =
     \<lparr>ss_cursors = OplogCursors_default, ss_admit_cursors = AdmitCursors_default, ss_checksum = DeviceChecksum_EMPTY,
      ss_ver_high = None, ss_oplog = [], ss_admits = [], ss_codec = None, ss_leases = []\<rparr>"

record ClientState =
  cs_device :: "DeviceId option"
  cs_clock_high :: "Timestamp option"
  cs_spaces :: "(SpaceId, SpaceState) btree"

definition ClientState_default :: ClientState where
  "ClientState_default = \<lparr>cs_device = None, cs_clock_high = None, cs_spaces = []\<rparr>"

definition load_client :: "key_component list \<Rightarrow> bytes \<Rightarrow> ClientState \<Rightarrow> MetaError + ClientState" where
  "load_client components bs out =
     rbind (single_byte components 2 ''client kind'') (\<lambda>kind.
       if kind = ClientKind_u8 DeviceKind then
         if length components \<noteq> 3 then Inl (MetaPanic ''device key has no suffix'')
         else rbind (expect_decoded MetaDeviceRecord_decode ''undecodable device record'' bs) (\<lambda>record.
           Inr (out\<lparr>cs_device := Some (md_id record)\<rparr>))
       else if kind = ClientKind_u8 ClockKind then
         if length components \<noteq> 3 then Inl (MetaPanic ''clock key has no suffix'')
         else rbind (expect_decoded ClockRecord_decode ''undecodable clock record'' bs) (\<lambda>record.
           Inr (out\<lparr>cs_clock_high := Some (cr_high_water record)\<rparr>))
       else Inl (MetaPanic ''unknown client record kind''))"

definition load_space :: "key_component list \<Rightarrow> bytes \<Rightarrow> SpaceState \<Rightarrow> MetaError + SpaceState" where
  "load_space components bs space =
     rbind (single_byte components 3 ''space kind'') (\<lambda>kind.
       if kind = SpaceKind_u8 CodecKind then
         rbind (expect_decoded CodecRecord_decode ''undecodable codec'' bs) (\<lambda>record. Inr (space\<lparr>ss_codec := Some record\<rparr>))
       else if kind = SpaceKind_u8 LeaseKind then
         rbind (expect_decoded HeldLease_decode ''undecodable lease'' bs) (\<lambda>record.
         rbind (map_err (\<lambda>_. MetaPanic ''lease key contains an invalid prefix'') (Key_new (drop 4 components))) (\<lambda>stored_prefix.
           if stored_prefix \<noteq> l_prefix (hl_lease record) then Inl (MetaPanic ''lease record prefix diverges from its storage key'')
           else Inr (space\<lparr>ss_leases := bt_insert (l_id (hl_lease record)) record (ss_leases space)\<rparr>)))
       else if kind = SpaceKind_u8 CursorsKind then
         if length components \<noteq> 4 then Inl (MetaPanic ''cursor key has no suffix'')
         else rbind (expect_decoded OplogCursors_decode ''undecodable oplog cursors'' bs) (\<lambda>cursors. Inr (space\<lparr>ss_cursors := cursors\<rparr>))
       else if kind = SpaceKind_u8 VerKind then
         if length components \<noteq> 4 then Inl (MetaPanic ''ver key has no suffix'')
         else rbind (expect_decoded VerHighRecord_decode ''undecodable ver record'' bs) (\<lambda>record. Inr (space\<lparr>ss_ver_high := Some (vh_high record)\<rparr>))
       else if kind = SpaceKind_u8 ChecksumKind then
         if length components \<noteq> 4 then Inl (MetaPanic ''checksum key has no suffix'')
         else rbind (expect_decoded ChecksumRecord_decode ''undecodable checksum'' bs) (\<lambda>record. Inr (space\<lparr>ss_checksum := ck_value record\<rparr>))
       else if kind = SpaceKind_u8 OplogKind then
         rbind (u64_at components 4 ''commit seq'') (\<lambda>seq.
         rbind (expect_decoded DeviceOp_decode ''undecodable commit record'' bs) (\<lambda>record.
           Inr (space\<lparr>ss_oplog := bt_insert seq record (ss_oplog space)\<rparr>)))
       else if kind = SpaceKind_u8 AdmitCursorsKind then
         if length components \<noteq> 4 then Inl (MetaPanic ''admit cursor key has no suffix'')
         else rbind (expect_decoded AdmitCursors_decode ''undecodable admit cursors'' bs) (\<lambda>cursors. Inr (space\<lparr>ss_admit_cursors := cursors\<rparr>))
       else if kind = SpaceKind_u8 AdmitLogKind then
         if length components \<noteq> 5 then Inl (MetaPanic ''admit log key has one seq suffix'')
         else rbind (u64_at components 4 ''admission seq'') (\<lambda>seq.
           rbind (expect_decoded decode_admitted_batch ''undecodable admitted batch'' bs) (\<lambda>admitted.
             if b_admission_seq admitted \<noteq> seq then Inl (MetaPanic ''admitted batch diverges from its storage key'')
             else Inr (space\<lparr>ss_admits := bt_insert seq admitted (ss_admits space)\<rparr>)))
       else Inl (MetaPanic ''unknown space record kind''))"

definition load_entry :: "ClientState \<Rightarrow> bytes \<times> bytes \<Rightarrow> MetaError + ClientState" where
  "load_entry out kv =
     rbind (storage_components (fst kv)) (\<lambda>components.
     rbind (single_byte components 0 ''store namespace'') (\<lambda>namespace.
       if namespace \<noteq> NAMESPACE_META then Inl (MetaPanic ''load scanned outside its brand'')
       else rbind (single_byte components 1 ''root'') (\<lambda>root.
         if root = ROOT_CLIENT then load_client components (snd kv) out
         else if root = ROOT_SPACE then
           (case get_at components 2 of
              None \<Rightarrow> Inl (MetaPanic ''space key missing id'')
            | Some sid \<Rightarrow>
                if length sid \<noteq> 16 then Inl (MetaPanic ''space id must be 16 bytes'')
                else rbind (load_space components (snd kv)
                    (case bt_get (cs_spaces out) sid of None \<Rightarrow> SpaceState_default | Some s \<Rightarrow> s)) (\<lambda>space.
                  Inr (out\<lparr>cs_spaces := bt_insert sid space (cs_spaces out)\<rparr>)))
         else Inl (MetaPanic ''unknown root component''))))"

definition load :: "MemoryStore \<Rightarrow> MetaError + ClientState" where
  "load st = rbind (map_err StoreFault (scan_prefix st meta_scan_all)) (rfold load_entry ClientState_default)"

subsection \<open>The audit\<close>

text \<open>\<open>certify\<close> panics on a violation; the model is true when no assertion fails.\<close>

definition active_oplog :: "SpaceState \<Rightarrow> (DeviceSeq \<times> DeviceOp) list" where
  "active_oplog space = filter (\<lambda>(seq, _). oc_neck (ss_cursors space) \<le> seq \<and> seq < oc_tail (ss_cursors space)) (ss_oplog space)"

definition certify_stamp :: "Timestamp \<Rightarrow> HeldLease \<Rightarrow> bool" where
  "certify_stamp high held \<longleftrightarrow> sat_sub64 (wall (hl_deadline held)) (millis_u64 (l_ttl (hl_lease held))) \<le> high"

fun certify_admits :: "AdmissionSeq \<Rightarrow> nat \<Rightarrow> (AdmissionSeq \<times> AdmittedBatch) list \<Rightarrow> bool" where
  "certify_admits head offset [] = True"
| "certify_admits head offset ((seq, admitted) # admits) =
     (seq = head + of_nat offset \<and> b_admission_seq admitted = seq \<and> AdmittedBatch_validate admitted = Inr () \<and>
      certify_admits head (offset + 1) admits)"

fun certify_vers :: "(key, Ver) btree \<Rightarrow> entry list \<Rightarrow> bool" where
  "certify_vers last_ver [] = True"
| "certify_vers last_ver (e # es) =
     (case point_key (de_mutation e) of
        None \<Rightarrow> certify_vers last_ver es
      | Some key \<Rightarrow>
          (case bt_get last_ver key of None \<Rightarrow> True | Some previous \<Rightarrow> DeviceEntry_ver e > previous) \<and>
          certify_vers (bt_insert key (DeviceEntry_ver e) last_ver) es)"

definition certify_row :: "OplogCursors \<Rightarrow> DeviceSeq \<times> DeviceOp \<Rightarrow> bool" where
  "certify_row cursors row =
     (case row of (seq, record) \<Rightarrow>
      oc_head cursors \<le> seq \<and> seq < oc_tail cursors \<and>
      (case record of RollbackOp marker \<Rightarrow> marker < seq | _ \<Rightarrow> True))"

definition certify_space :: "SpaceState \<Rightarrow> bool" where
  "certify_space space \<longleftrightarrow>
     (let c = ss_cursors space; a = ss_admit_cursors space;
          queued = concat (map (\<lambda>(_, record). DeviceOp_entries record) (active_oplog space))
      in oc_head c \<le> oc_neck c \<and> oc_neck c \<le> oc_tail c \<and>
         ac_head a \<le> ac_neck a \<and> ac_neck a \<le> ac_tail a \<and>
         length (ss_admits space) = unat (ac_tail a - ac_head a) \<and>
         certify_admits (ac_head a) 0 (ss_admits space) \<and>
         list_all (certify_row c) (ss_oplog space) \<and>
         certify_vers [] queued \<and>
         (queued = [] \<or> (case ss_ver_high space of None \<Rightarrow> False | Some high \<Rightarrow> list_all (\<lambda>e. DeviceEntry_ver e \<le> high) queued)))"

definition certify :: "ClientState \<Rightarrow> bool" where
  "certify state \<longleftrightarrow>
     (case cs_clock_high state of
        None \<Rightarrow> True
      | Some high \<Rightarrow> list_all (\<lambda>(_, space). list_all (\<lambda>(_, held). certify_stamp high held) (ss_leases space)) (cs_spaces state)) \<and>
     list_all (\<lambda>(_, space). certify_space space) (cs_spaces state)"

end
