(* ===== verification/MetaSteps.thy ===== *)
theory MetaSteps
  imports MetaRefine
begin

text \<open>
  The transitions of the client's metadata store implement the abstract ones of \<open>MetaRefine\<close>, one
  lemma per transition.
\<close>

lemma rollback_refines:
  assumes R: "meta_repr st A" and s: "wf_id s"
  shows "refines s A (apfst done_reply (rollback s to st)) (spec_rollback to (m_space A s))"
proof -
  let ?S = "m_space A s" and ?c = "meta_cursors (m_space A s)"
  have again: "(case MemoryStore_get st (mkey_bytes (MOplog s q)) of None \<Rightarrow> False | Some bs \<Rightarrow> DeviceOp_decode bs = Some (RollbackOp to)) \<longleftrightarrow>
      ms_oplog ?S q = Some (RollbackOp to)" for q
    using device_op.decode_encode valid_spaceD(2) [OF meta_reprD(5) [OF R, of s]]
    by (auto simp: meta_reprD(3) [OF R] s split: option.splits)
  note unfold = rollback_def finish_def meta_reads [OF R s] mkey_bytes_eqs again spec_rollback_def Let_def done_reply_def WriteBatch_put_def
  show ?thesis
  proof (cases "to < oc_neck ?c \<or> to \<ge> oc_tail ?c \<or> checked_add64 (oc_tail ?c) 1 = None")
    case True
    then show ?thesis using R by (auto simp: unfold refines_def MemoryStore_apply_def split: option.splits)
  next
    case False
    then obtain n where n: "checked_add64 (oc_tail ?c) 1 = Some n" "\<not> to < oc_neck ?c" "\<not> to \<ge> oc_tail ?c" by auto
    let ?S' = "?S\<lparr>ms_oplog := (ms_oplog ?S)(oc_tail ?c \<mapsto> RollbackOp to), ms_cursors := Some (?c\<lparr>oc_neck := oc_tail ?c, oc_tail := n\<rparr>)\<rparr>"
    let ?ops = "[Put (mkey_bytes (MOplog s (oc_tail ?c))) (DeviceOp_encode (RollbackOp to)),
      Put (mkey_bytes (MCursors s)) (OplogCursors_encode \<lparr>oc_head = oc_head ?c, oc_neck = oc_tail ?c, oc_tail = n\<rparr>)]"
    have "meta_repr (MemoryStore_apply ?ops st) (with_space s ?S' A)"
    proof (rule meta_repr_space [OF R])
      show "valid_space ?S'" by (rule valid_space_update(2) [OF meta_reprD(5) [OF R]]) simp
      show "batch_value ?ops (mkey_bytes k) (meta_value A k) = meta_value (with_space s ?S' A) k" for k
        by (cases k; cases ?c) auto
    qed (use s in auto)
    with n show ?thesis by (simp add: unfold refines_def)
  qed
qed

lemma rollback_if_unchanged_refines:
  assumes R: "meta_repr st A" and s: "wf_id s"
  shows "refines s A (meta_step (RollbackIfUnchanged s to expected) st) (space_step (RollbackIfUnchanged s to expected) (m_space A s))"
proof (cases "checked_add64 (oc_tail expected) 1")
  case None
  with R show ?thesis by (simp add: rollback_if_unchanged_def meta_reads [OF R s] refines_def done_reply_def)
next
  case (Some n)
  let ?c = "meta_cursors (m_space A s)" and ?done = "\<lparr>oc_head = oc_head expected, oc_neck = oc_tail expected, oc_tail = n\<rparr>"
  show ?thesis
  proof (cases "?c \<noteq> expected \<and> ?c \<noteq> ?done")
    case True
    with R Some show ?thesis
      by (simp add: rollback_if_unchanged_def meta_reads [OF R s] Let_def refines_def done_reply_def)
  next
    case False
    then have same: "(?c \<noteq> expected \<and> ?c \<noteq> ?done) = False" by blast
    have "rollback_if_unchanged s to expected st = rollback s to st"
      unfolding rollback_if_unchanged_def meta_reads [OF R s] Some Let_def ok_or.simps rbind.simps same if_False sum.case unit.case ..
    moreover have "space_step (RollbackIfUnchanged s to expected) (m_space A s) = spec_rollback to (m_space A s)"
      unfolding space_step.simps Some option.case same by simp
    ultimately show ?thesis using rollback_refines [OF R s] by simp
  qed
qed

lemma admit_cursors_put:
  assumes R: "meta_repr st A" and s: "wf_id s"
  shows "meta_repr (MemoryStore_apply [Put (mkey_bytes (MAdmitCursors s)) (AdmitCursors_encode a)] st)
    (with_space s ((m_space A s)\<lparr>ms_admit_cursors := Some a\<rparr>) A)"
proof (rule meta_repr_space [OF R])
  show "batch_value [Put (mkey_bytes (MAdmitCursors s)) (AdmitCursors_encode a)] (mkey_bytes k) (meta_value A k) =
      meta_value (with_space s ((m_space A s)\<lparr>ms_admit_cursors := Some a\<rparr>) A) k" for k by (cases k) auto
qed (use s valid_space_update(3) [OF meta_reprD(5) [OF R]] in auto)

lemma mark_admits_applied_refines:
  assumes R: "meta_repr st A" and s: "wf_id s"
  shows "refines s A (meta_step (MarkAdmitsApplied s to) st) (space_step (MarkAdmitsApplied s to) (m_space A s))"
  using R admit_cursors_put [OF R s, of "(meta_admit_cursors (m_space A s))\<lparr>ac_neck := to\<rparr>"]
  by (auto simp: mark_admits_applied_def finish_def meta_reads [OF R s] mkey_bytes_eqs done_reply_def WriteBatch_put_def
      refines_def Let_def MemoryStore_apply_def)

lemma foldl_snoc_map: "foldl (\<lambda>b x. b @ [f x]) acc xs = acc @ map f xs"
  by (induction xs arbitrary: acc) auto

lemma batch_value_dels: "batch_value (map (\<lambda>x. Del (f x)) xs) k v = (if k \<in> f ` set xs then None else v)"
  by (induction xs arbitrary: v) auto

lemma seq_range: "a \<le> b \<Longrightarrow> of_nat ` {unat a..<unat b} = {q :: u64. a \<le> q \<and> q < b}"
proof safe
  fix q :: u64
  assume "a \<le> q" "q < b"
  then show "q \<in> of_nat ` {unat a..<unat b}"
    by (intro image_eqI [of _ _ "unat q"]) (auto simp: word_le_nat_alt word_less_nat_alt)
next
  fix n
  assume n: "n \<in> {unat a..<unat b}"
  moreover have "n < 2 ^ 64" using n unsigned_less [of b] by (auto simp: less_trans)
  then have "unat (of_nat n :: u64) = n" by (simp add: unat_of_nat)
  ultimately show "a \<le> (of_nat n :: u64)" "(of_nat n :: u64) < b" by (auto simp: word_le_nat_alt word_less_nat_alt)
qed

lemma trim_admits_refines:
  assumes R: "meta_repr st A" and s: "wf_id s"
  shows "refines s A (meta_step (TrimAdmits s to) st) (space_step (TrimAdmits s to) (m_space A s))"
proof -
  let ?S = "m_space A s" and ?a = "meta_admit_cursors (m_space A s)"
  note unfold = trim_admits_def finish_def meta_reads [OF R s] mkey_bytes_eqs done_reply_def WriteBatch_put_def WriteBatch_delete_def Let_def
  show ?thesis
  proof (cases "to < ac_head ?a \<or> to > ac_neck ?a \<or> to = ac_head ?a")
    case True
    then show ?thesis using R by (auto simp: unfold refines_def MemoryStore_apply_def)
  next
    case False
    let ?S' = "?S\<lparr>ms_admits := ms_admits ?S |` (- {q. ac_head ?a \<le> q \<and> q < to}), ms_admit_cursors := Some (?a\<lparr>ac_head := to\<rparr>)\<rparr>"
    let ?dels = "map (\<lambda>n. Del (mkey_bytes (MAdmit s (of_nat n)))) [unat (ac_head ?a)..<unat to]"
    let ?ops = "?dels @ [Put (mkey_bytes (MAdmitCursors s)) (AdmitCursors_encode (?a\<lparr>ac_head := to\<rparr>))]"
    have range: "of_nat ` {unat (ac_head ?a)..<unat to} = {q. ac_head ?a \<le> q \<and> q < to}"
      using False by (intro seq_range) auto
    have gone: "mkey_bytes k \<in> (\<lambda>n. mkey_bytes (MAdmit s (of_nat n))) ` set [unat (ac_head ?a)..<unat to] \<longleftrightarrow>
        (\<exists>q. k = MAdmit s q \<and> ac_head ?a \<le> q \<and> q < to)" for k
      using range unfolding set_upt by (auto simp: image_iff set_eq_iff)
    have "meta_repr (MemoryStore_apply ?ops st) (with_space s ?S' A)"
    proof (rule meta_repr_space [OF R])
      show "valid_space ?S'" using meta_reprD(5) [OF R, of s] unfolding valid_space_def
        by (auto simp: restrict_map_def dom_def split: if_splits intro: finite_subset [rotated])
      show "batch_value ?ops (mkey_bytes k) (meta_value A k) = meta_value (with_space s ?S' A) k" for k
        unfolding batch_value_append batch_value_dels gone by (cases k) (auto simp: restrict_map_def)
    qed (use s in \<open>auto simp: batch_of_def\<close>)
    with False show ?thesis by (simp add: unfold foldl_snoc_map refines_def)
  qed
qed

subsection \<open>Appending admitted batches\<close>

definition admit_puts :: "SpaceId \<Rightarrow> AdmittedBatch list \<Rightarrow> WriteBatch" where
  "admit_puts s bs = map (\<lambda>b. Put (mkey_bytes (MAdmit s (b_admission_seq b))) (encode_admitted_batch b)) bs"

definition admit_updates :: "AdmittedBatch list \<Rightarrow> (AdmissionSeq \<Rightarrow> AdmittedBatch option) \<Rightarrow> AdmissionSeq \<Rightarrow> AdmittedBatch option" where
  "admit_updates bs m = fold (\<lambda>b m. m(b_admission_seq b \<mapsto> b)) bs m"

lemma admit_updates_simps [simp]:
  "admit_updates [] m = m" "admit_updates (b # bs) m = admit_updates bs (m(b_admission_seq b \<mapsto> b))"
  by (simp_all add: admit_updates_def)

lemma admit_updates_cases: "admit_updates bs m q = Some b \<Longrightarrow> b \<in> set bs \<and> b_admission_seq b = q \<or> m q = Some b"
  by (induction bs arbitrary: m) (fastforce split: if_splits)+

lemma dom_admit_updates: "dom (admit_updates bs m) = dom m \<union> b_admission_seq ` set bs"
  by (induction bs arbitrary: m) auto

lemma batch_value_admits:
  "batch_value (admit_puts s bs) (mkey_bytes (MAdmit s q)) (map_option encode_admitted_batch (m q)) = map_option encode_admitted_batch (admit_updates bs m q)"
proof (induction bs arbitrary: m)
  case (Cons b bs)
  have "(if q = b_admission_seq b then Some (encode_admitted_batch b) else map_option encode_admitted_batch (m q)) =
      map_option encode_admitted_batch ((m(b_admission_seq b \<mapsto> b)) q)" by simp
  then show ?case using Cons [of "m(b_admission_seq b \<mapsto> b)"] by (simp add: admit_puts_def fun_upd_def)
qed (simp add: admit_puts_def)

lemma batch_value_other: "(\<forall>op \<in> set ops. op_key op \<noteq> k) \<Longrightarrow> batch_value ops k v = v"
proof (induction ops arbitrary: v)
  case (Cons op ops)
  then show ?case by (cases op) auto
qed simp

lemma admit_puts_other: "(\<forall>q. k \<noteq> MAdmit s q) \<Longrightarrow> batch_value (admit_puts s bs) (mkey_bytes k) v = v"
  by (rule batch_value_other) (auto simp: admit_puts_def)

lemma valid_space_admits:
  assumes "valid_space S" "\<And>b. b \<in> set bs \<Longrightarrow> valid_batch b"
  shows "valid_space (S\<lparr>ms_admits := admit_updates bs (ms_admits S), ms_admit_cursors := c, ms_ver_high := v\<rparr>)"
proof -
  have "valid_batch b \<and> b_admission_seq b = q" if "admit_updates bs (ms_admits S) q = Some b" for q b
    using admit_updates_cases [OF that] assms(2) valid_spaceD(3,4) [OF assms(1)] by blast
  then show ?thesis using assms(1) unfolding valid_space_def by (simp add: dom_admit_updates)
qed

lemma checked_sub64_1: "checked_sub64 t 1 = (if t = 0 then None else Some (t - 1))"
proof -
  have "1 \<le> t \<longleftrightarrow> t \<noteq> 0" by (simp add: word_le_nat_alt Suc_le_eq unat_gt_0)
  then show ?thesis by (simp add: checked_sub64_def)
qed

lemma append_admits_refines:
  assumes R: "meta_repr st A" and wf: "wf_meta_command (AppendAdmits s response)"
  shows "refines s A (meta_step (AppendAdmits s response) st) (space_step (AppendAdmits s response) (m_space A s))"
proof -
  let ?S = "m_space A s" and ?a = "meta_admit_cursors (m_space A s)" and ?bs = "ps_batches response"
  let ?seen = "fold max (map AdmittedEntry_ver (concat (map b_entries ?bs))) 0"
  let ?vh = "if ms_ver_high ?S \<noteq> None \<or> ?seen > 0 then Some (max (meta_ver ?S) ?seen) else None"
  have s: "wf_id s" using wf by simp
  note unfold = append_admits_def finish_def meta_reads [OF R s] mkey_bytes_eqs done_reply_def WriteBatch_put_def Let_def foldl_snoc_map
  show ?thesis
  proof (cases "validate_dense response = Inr () \<and> ac_tail ?a \<noteq> 0 \<and> ps_after response = ac_tail ?a - 1 \<and> ?bs \<noteq> [] \<and>
      checked_add64 (ps_through response) 1 \<noteq> None")
    case False
    then show ?thesis
      using R by (cases "validate_dense response") (auto simp: unfold refines_def MemoryStore_apply_def checked_sub64_1)
  next
    case True
    then obtain n where dense: "validate_dense response = Inr ()" and ok: "ac_tail ?a \<noteq> 0" "ps_after response = ac_tail ?a - 1" "?bs \<noteq> []"
      and n: "checked_add64 (ps_through response) 1 = Some n" by auto
    have batch: "valid_batch b" if "b \<in> set ?bs" for b
    proof -
      have "dense_batch b" using dense that by (auto simp: validate_dense_iff dense_response_def in_set_conv_nth)
      then show ?thesis using wf that by (simp add: valid_batch_def list_all_iff)
    qed
    let ?S' = "?S\<lparr>ms_admits := admit_updates ?bs (ms_admits ?S), ms_admit_cursors := Some (?a\<lparr>ac_tail := n\<rparr>), ms_ver_high := ?vh\<rparr>"
    let ?vops = "case ?vh of None \<Rightarrow> [] | Some v \<Rightarrow> [Put (mkey_bytes (MVer s)) (VerHighRecord_encode \<lparr>vh_high = v\<rparr>)]"
    let ?ops = "(admit_puts s ?bs @ [Put (mkey_bytes (MAdmitCursors s)) (AdmitCursors_encode (?a\<lparr>ac_tail := n\<rparr>))]) @ ?vops"
    have "meta_repr (MemoryStore_apply ?ops st) (with_space s ?S' A)"
    proof (rule meta_repr_space [OF R])
      show "valid_space ?S'" by (rule valid_space_admits [OF meta_reprD(5) [OF R] batch])
      show "batch_of UNIV ?ops" using s by (auto simp: batch_of_def admit_puts_def)
      show "batch_value ?ops (mkey_bytes k) (meta_value A k) = meta_value (with_space s ?S' A) k" for k
        by (cases k; cases "\<exists>q. k = MAdmit s q") (auto simp: admit_puts_other batch_value_admits split: if_splits)
    qed
    moreover have "append_admits s response st = (Inr (), MemoryStore_apply ?ops st)"
      using dense ok n by (auto simp: unfold admit_puts_def checked_sub64_1 meta_ver_def)
    ultimately show ?thesis
      using dense ok n by (simp add: refines_def done_reply_def Let_def admit_updates_def [symmetric])
  qed
qed

subsection \<open>Leases\<close>

definition lease_puts :: "SpaceId \<Rightarrow> HeldLease list \<Rightarrow> WriteBatch" where
  "lease_puts s hs = map (\<lambda>h. Put (mkey_bytes (MLease s (l_prefix (hl_lease h)))) (HeldLease_encode h)) hs"

lemma put_leases_eq: "put_leases s hs batch = batch @ lease_puts s hs"
  by (simp add: put_leases_def lease_puts_def WriteBatch_put_def foldl_snoc_map mkey_bytes_eqs)

lemma lease_updates_simps [simp]:
  "lease_updates [] m = m" "lease_updates (h # hs) m = lease_updates hs (m(l_prefix (hl_lease h) \<mapsto> norm_held h))"
  by (simp_all add: lease_updates_def)

lemma lease_updates_cases:
  "lease_updates hs m pre = Some h \<Longrightarrow> (\<exists>h' \<in> set hs. h = norm_held h' \<and> l_prefix (hl_lease h') = pre) \<or> m pre = Some h"
  by (induction hs arbitrary: m) (fastforce split: if_splits)+

lemma dom_lease_updates: "dom (lease_updates hs m) = dom m \<union> (\<lambda>h. l_prefix (hl_lease h)) ` set hs"
  by (induction hs arbitrary: m) auto

lemma batch_value_leases:
  "batch_value (lease_puts s hs) (mkey_bytes (MLease s pre)) (map_option HeldLease_encode (m pre)) = map_option HeldLease_encode (lease_updates hs m pre)"
proof (induction hs arbitrary: m)
  case (Cons h hs)
  let ?m = "m(l_prefix (hl_lease h) \<mapsto> norm_held h)"
  have "(if pre = l_prefix (hl_lease h) then Some (HeldLease_encode h) else map_option HeldLease_encode (m pre)) = map_option HeldLease_encode (?m pre)" by simp
  then show ?case using Cons [of ?m] by (simp add: lease_puts_def fun_upd_def)
qed (simp add: lease_puts_def)

lemma lease_puts_other: "(\<forall>pre. k \<noteq> MLease s pre) \<Longrightarrow> batch_value (lease_puts s hs) (mkey_bytes k) v = v"
  by (rule batch_value_other) (auto simp: lease_puts_def)

lemma norm_held_prefix [simp]: "l_prefix (hl_lease (norm_held h)) = l_prefix (hl_lease h)"
  by (simp add: norm_held_def)

lemma valid_space_leases:
  assumes "valid_space S" "\<And>pre h. m pre = Some h \<Longrightarrow> valid_held h \<and> norm_held h = h \<and> l_prefix (hl_lease h) = pre" "finite (dom m)"
  shows "valid_space (S\<lparr>ms_leases := m\<rparr>)"
  using assms unfolding valid_space_def by simp

lemma valid_lease_updates:
  assumes "valid_space S" "list_all valid_held hs" "m = ms_leases S \<or> m = Map.empty"
  shows "valid_space (S\<lparr>ms_leases := lease_updates hs m\<rparr>)"
proof (rule valid_space_leases [OF assms(1)])
  fix pre h
  assume "lease_updates hs m pre = Some h"
  from lease_updates_cases [OF this] assms(2,3) valid_spaceD(5-7) [OF assms(1), of pre h]
  show "valid_held h \<and> norm_held h = h \<and> l_prefix (hl_lease h) = pre" by (auto simp: list_all_iff)
next
  show "finite (dom (lease_updates hs m))" using assms(3) valid_spaceD(10) [OF assms(1)] by (auto simp: dom_lease_updates)
qed

lemma batch_of_lease_puts: "wf_id s \<Longrightarrow> list_all valid_held hs \<Longrightarrow> batch_of UNIV (lease_puts s hs)"
  by (auto simp: batch_of_def lease_puts_def list_all_iff valid_held_def)

lemma record_leases_refines:
  assumes R: "meta_repr st A" and wf: "wf_meta_command (RecordLeases s leases)"
  shows "refines s A (meta_step (RecordLeases s leases) st) (space_step (RecordLeases s leases) (m_space A s))"
proof -
  let ?S' = "(m_space A s)\<lparr>ms_leases := lease_updates leases (ms_leases (m_space A s))\<rparr>"
  have s: "wf_id s" "list_all valid_held leases" using wf by simp_all
  have "meta_repr (MemoryStore_apply (lease_puts s leases) st) (with_space s ?S' A)"
  proof (rule meta_repr_space [OF R batch_of_lease_puts [OF s]])
    show "valid_space ?S'" by (rule valid_lease_updates [OF meta_reprD(5) [OF R] s(2)]) simp
    show "batch_value (lease_puts s leases) (mkey_bytes k) (meta_value A k) = meta_value (with_space s ?S' A) k" for k
      by (cases k; cases "\<exists>pre. k = MLease s pre") (auto simp: lease_puts_other batch_value_leases)
  qed
  then show ?thesis by (simp add: record_leases_def finish_def put_leases_eq refines_def done_reply_def)
qed

text \<open>The lease rows of a space, as a scan returns them.\<close>

lemma scan_rows:
  assumes "bt_wf st"
  shows "\<exists>kvs. scan_prefix st p = Inr kvs \<and> distinct (map fst kvs) \<and> (\<forall>k v. (k, v) \<in> set kvs \<longleftrightarrow> MemoryStore_get st k = Some v \<and> prefix p k)"
proof (intro exI conjI allI)
  let ?kvs = "filter (\<lambda>kv. prefix p (fst kv)) st"
  show "scan_prefix st p = Inr ?kvs" by (rule scan_prefix_eq)
  show "distinct (map fst ?kvs)" using bt_wf_filter [OF assms] by (simp add: bt_wf_def strict_sorted_iff)
  show "(k, v) \<in> set ?kvs \<longleftrightarrow> MemoryStore_get st k = Some v \<and> prefix p k" for k v
    by (simp add: MemoryStore_get_def bt_get_Some [OF assms])
qed

lemma lease_rows:
  assumes R: "meta_repr st A" and s: "wf_id s"
  shows "\<exists>kvs. scan_prefix st (lease_scan s) = Inr kvs \<and> distinct (map fst kvs) \<and>
    (\<forall>k v. (k, v) \<in> set kvs \<longleftrightarrow> (\<exists>pre h. k = mkey_bytes (MLease s pre) \<and> ms_leases (m_space A s) pre = Some h \<and> v = HeldLease_encode h))"
proof -
  obtain kvs where kvs: "scan_prefix st (lease_scan s) = Inr kvs" "distinct (map fst kvs)"
    and rows: "\<forall>k v. (k, v) \<in> set kvs \<longleftrightarrow> MemoryStore_get st k = Some v \<and> prefix (lease_scan s) k"
    using scan_rows [OF meta_reprD(1) [OF R]] by blast
  have "MemoryStore_get st k = Some v \<and> prefix (lease_scan s) k \<longleftrightarrow>
      (\<exists>pre h. k = mkey_bytes (MLease s pre) \<and> ms_leases (m_space A s) pre = Some h \<and> v = HeldLease_encode h)" (is "?L \<longleftrightarrow> ?R") for k v
  proof
    assume k: ?L
    then obtain mk where mk: "wf_mkey mk" "k = mkey_bytes mk"
      using meta_reprD(4) [OF R] prefix_order.trans [OF scan_within_meta(3)] by blast
    with k scan_prefix_mkeys(4) obtain pre where "mk = MLease s pre" by auto
    with mk k meta_reprD(3) [OF R mk(1)] show ?R by (auto simp: eq_commute [of "Some v"])
  next
    assume ?R
    then obtain pre h where r: "k = mkey_bytes (MLease s pre)" "ms_leases (m_space A s) pre = Some h" "v = HeldLease_encode h" by blast
    then have "wf_key pre" using valid_spaceD(5,7) [OF meta_reprD(5) [OF R] r(2)] by (auto simp: valid_held_def)
    with r s meta_reprD(3) [OF R, of "MLease s pre"] show ?L by (simp add: scan_prefix_mkeys)
  qed
  with kvs rows show ?thesis by auto
qed

lemma option_ext: "(\<And>v. a = Some v \<longleftrightarrow> b = Some v) \<Longrightarrow> a = b"
  by (cases a; cases b) auto

definition lease_row :: "SpaceId \<Rightarrow> MetaSpace \<Rightarrow> mkey \<Rightarrow> bytes option" where
  "lease_row s S k = (case k of MLease s' pre \<Rightarrow> if s' = s then map_option HeldLease_encode (ms_leases S pre) else None | _ \<Rightarrow> None)"

lemma lease_rows_map:
  assumes R: "meta_repr st A" and s: "wf_id s"
  obtains kvs where "scan_prefix st (lease_scan s) = Inr kvs" "distinct (map fst kvs)"
    and "\<forall>k. map_of kvs (mkey_bytes k) = lease_row s (m_space A s) k"
    and "\<forall>kv \<in> set kvs. expect_decoded HeldLease_decode ''undecodable lease'' (snd kv) = Inr (the (HeldLease_decode (snd kv)))"
    and "\<forall>kv \<in> set kvs. \<exists>k. wf_mkey k \<and> fst kv = mkey_bytes k"
proof -
  obtain kvs where kvs: "scan_prefix st (lease_scan s) = Inr kvs" "distinct (map fst kvs)"
    and rows: "\<forall>k v. (k, v) \<in> set kvs \<longleftrightarrow> (\<exists>pre h. k = mkey_bytes (MLease s pre) \<and> ms_leases (m_space A s) pre = Some h \<and> v = HeldLease_encode h)"
    using lease_rows [OF R s] by blast
  note V = valid_spaceD(5-7) [OF meta_reprD(5) [OF R, of s]]
  have "map_of kvs (mkey_bytes k) = Some v \<longleftrightarrow> lease_row s (m_space A s) k = Some v" for k v
    unfolding map_of_eq_Some_iff [OF kvs(2)] using rows by (auto simp: lease_row_def split: mkey.splits)
  then have "map_of kvs (mkey_bytes k) = lease_row s (m_space A s) k" for k
    by (rule option_ext)
  moreover have "expect_decoded HeldLease_decode ''undecodable lease'' v = Inr (the (HeldLease_decode v)) \<and> (\<exists>k'. wf_mkey k' \<and> k = mkey_bytes k')"
    if kv: "(k, v) \<in> set kvs" for k v
  proof -
    obtain pre h where r: "k = mkey_bytes (MLease s pre)" "ms_leases (m_space A s) pre = Some h" "v = HeldLease_encode h"
      using rows [rule_format, THEN iffD1, OF kv] by blast
    have "wf_mkey (MLease s pre)" using V(1,3) [OF r(2)] s by (auto simp: valid_held_def)
    then show ?thesis using r V(1) [OF r(2)] by (auto simp: expect_decoded_def HeldLease_decode_norm)
  qed
  ultimately show ?thesis using that [OF kvs] by fastforce
qed


fun op_value :: "Op \<Rightarrow> bytes option" where
  "op_value (Put _ v) = Some v"
| "op_value (Del _) = None"

lemma batch_value_rows:
  assumes "distinct (map fst kvs)" "\<forall>kv \<in> set kvs. op_key (f kv) = fst kv"
  shows "batch_value (map f (filter P kvs)) k v =
    (case map_of kvs k of None \<Rightarrow> v | Some w \<Rightarrow> if P (k, w) then op_value (f (k, w)) else v)"
  using assms
proof (induction kvs arbitrary: v)
  case (Cons kv kvs)
  have none: "map_of kvs (fst kv) = None" using Cons.prems(1) by (simp add: map_of_eq_None_iff)
  have IH: "batch_value (map f (filter P kvs)) k v =
      (case map_of kvs k of None \<Rightarrow> v | Some w \<Rightarrow> if P (k, w) then op_value (f (k, w)) else v)" for v
    using Cons by simp
  have key: "op_key (f kv) = fst kv" using Cons.prems(2) by simp
  show ?case using key none by (cases kv; cases "f kv") (auto simp: IH)
qed simp

lemma rfold_rows:
  assumes "\<forall>kv \<in> set kvs. d (snd kv) = Inr (g (snd kv))"
  shows "rfold (\<lambda>batch (k, bs). rbind (d bs) (\<lambda>r. Inr (if P r then batch @ [f k r] else batch))) acc kvs =
    Inr (acc @ map (\<lambda>(k, bs). f k (g bs)) (filter (\<lambda>(k, bs). P (g bs)) kvs))"
  using assms by (induction kvs arbitrary: acc) auto

lemma lease_row_simps [simp]:
  "lease_row s S (MLease s' pre) = (if s' = s then map_option HeldLease_encode (ms_leases S pre) else None)"
  "lease_row s S MDevice = None" "lease_row s S MClock = None" "lease_row s S (MCodec t) = None" "lease_row s S (MCursors t) = None"
  "lease_row s S (MVer t) = None" "lease_row s S (MOplog t q) = None" "lease_row s S (MChecksum t) = None"
  "lease_row s S (MAdmitCursors t) = None" "lease_row s S (MAdmit t q') = None"
  by (simp_all add: lease_row_def)

lemma lease_row_other: "(\<forall>pre. k \<noteq> MLease s pre) \<Longrightarrow> lease_row s S k = None"
  by (cases k) auto

lemma rows_batch_of:
  assumes "\<forall>kv \<in> set kvs. op_key (f kv) = fst kv" "\<forall>kv \<in> set kvs. \<exists>k. wf_mkey k \<and> fst kv = mkey_bytes k"
  shows "batch_of UNIV (map f (filter P kvs))"
  using assms by (fastforce simp: batch_of_def)

lemma reconcile_leases_refines:
  assumes R: "meta_repr st A" and wf: "wf_meta_command (ReconcileLeases s leases)"
  shows "refines s A (meta_step (ReconcileLeases s leases) st) (space_step (ReconcileLeases s leases) (m_space A s))"
proof -
  let ?S' = "(m_space A s)\<lparr>ms_leases := lease_updates leases Map.empty\<rparr>"
  have s: "wf_id s" "list_all valid_held leases" using wf by simp_all
  from lease_rows_map [OF R s(1)] obtain kvs where kvs: "scan_prefix st (lease_scan s) = Inr kvs" "distinct (map fst kvs)"
    and row: "\<forall>k. map_of kvs (mkey_bytes k) = lease_row s (m_space A s) k" and dec: "\<forall>kv \<in> set kvs. \<exists>k. wf_mkey k \<and> fst kv = mkey_bytes k"
    by (metis (no_types, lifting))
  let ?ops = "map (\<lambda>kv. Del (fst kv)) (filter (\<lambda>_. True) kvs) @ lease_puts s leases"
  have "meta_repr (MemoryStore_apply ?ops st) (with_space s ?S' A)"
  proof (rule meta_repr_space [OF R])
    show "batch_of UNIV ?ops" using rows_batch_of [OF _ dec, of "\<lambda>kv. Del (fst kv)" "\<lambda>_. True"] batch_of_lease_puts [OF s] by simp
    show "valid_space ?S'" by (rule valid_lease_updates [OF meta_reprD(5) [OF R] s(2)]) simp
    have dels: "batch_value (map (\<lambda>kv. Del (fst kv)) (filter (\<lambda>_. True) kvs)) (mkey_bytes k) v = (case lease_row s (m_space A s) k of None \<Rightarrow> v | Some _ \<Rightarrow> None)" for k v
      using batch_value_rows [OF kvs(2), of "\<lambda>kv. Del (fst kv)" "\<lambda>_. True" "mkey_bytes k" v] by (simp add: row cong: option.case_cong if_cong)
    have none: "batch_value (lease_puts s leases) (mkey_bytes (MLease s pre)) None = map_option HeldLease_encode (lease_updates leases Map.empty pre)" for pre
      using batch_value_leases [of s leases pre Map.empty] by simp
    show "batch_value ?ops (mkey_bytes k) (meta_value A k) = meta_value (with_space s ?S' A) k" for k
      unfolding batch_value_append dels
      by (cases "\<exists>pre. k = MLease s pre")
        (auto simp: lease_puts_other lease_row_other none split: option.splits, cases k, auto)
  qed
  moreover have "foldl (\<lambda>batch (k, _). batch @ [Del k]) [] kvs = map (\<lambda>kv. Del (fst kv)) kvs"
    using foldl_snoc_map [of "\<lambda>kv. Del (fst kv)" "[]" kvs] by (simp add: case_prod_unfold)
  ultimately show ?thesis
    by (simp add: reconcile_leases_def finish_def put_leases_eq kvs refines_def done_reply_def WriteBatch_delete_def)
qed

lemma the_decode_held: "valid_space S \<Longrightarrow> ms_leases S pre = Some h \<Longrightarrow> HeldLease_decode (HeldLease_encode h) = Some h"
  using valid_spaceD(5,6) by (metis HeldLease_decode_norm)

lemma forgotten_same: "hl_forgotten h \<Longrightarrow> h\<lparr>hl_forgotten := True\<rparr> = h"
  by (cases h) simp

lemma forget_leases_refines:
  assumes R: "meta_repr st A" and s: "wf_id s"
  shows "refines s A (meta_step (ForgetLeases s ids) st) (space_step (ForgetLeases s ids) (m_space A s))"
proof -
  let ?S = "m_space A s" and ?dec = "\<lambda>bs. the (HeldLease_decode bs)"
  let ?m = "\<lambda>pre. map_option (\<lambda>h. if l_id (hl_lease h) \<in> set ids then h\<lparr>hl_forgotten := True\<rparr> else h) (ms_leases ?S pre)"
  let ?P = "\<lambda>r. l_id (hl_lease r) \<in> set ids \<and> \<not> hl_forgotten r"
  let ?f = "\<lambda>kv. Put (fst kv) (HeldLease_encode ((?dec (snd kv))\<lparr>hl_forgotten := True\<rparr>))"
  from lease_rows_map [OF R s] obtain kvs where kvs: "scan_prefix st (lease_scan s) = Inr kvs" "distinct (map fst kvs)"
    and row: "\<forall>k. map_of kvs (mkey_bytes k) = lease_row s ?S k" and keys: "\<forall>kv \<in> set kvs. \<exists>k. wf_mkey k \<and> fst kv = mkey_bytes k"
    and dec: "\<forall>kv \<in> set kvs. expect_decoded HeldLease_decode ''undecodable lease'' (snd kv) = Inr (?dec (snd kv))"
    by (metis (no_types, lifting))
  let ?ops = "map ?f (filter (\<lambda>kv. ?P (?dec (snd kv))) kvs)"
  note V = the_decode_held [OF meta_reprD(5) [OF R]]
  have "meta_repr (MemoryStore_apply ?ops st) (with_space s (?S\<lparr>ms_leases := ?m\<rparr>) A)"
  proof (rule meta_repr_space [OF R])
    show "batch_of UNIV ?ops" by (rule rows_batch_of [OF _ keys]) simp
    show "valid_space (?S\<lparr>ms_leases := ?m\<rparr>)"
    proof (rule valid_space_leases [OF meta_reprD(5) [OF R]])
      show "finite (dom ?m)" using valid_spaceD(10) [OF meta_reprD(5) [OF R, of s]] by (simp add: dom_map_option)
      fix pre h
      assume "?m pre = Some h"
      then obtain h' where "ms_leases ?S pre = Some h'" "h = (if l_id (hl_lease h') \<in> set ids then h'\<lparr>hl_forgotten := True\<rparr> else h')" by auto
      then show "valid_held h \<and> norm_held h = h \<and> l_prefix (hl_lease h) = pre"
        using valid_spaceD(5-7) [OF meta_reprD(5) [OF R, of s]] by (cases h') (fastforce simp: valid_held_def norm_held_def)
    qed
    have val: "batch_value ?ops (mkey_bytes k) v = (case lease_row s ?S k of None \<Rightarrow> v
        | Some w \<Rightarrow> if ?P (?dec w) then Some (HeldLease_encode ((?dec w)\<lparr>hl_forgotten := True\<rparr>)) else v)" for k v
      using batch_value_rows [OF kvs(2), of ?f "\<lambda>kv. ?P (?dec (snd kv))" "mkey_bytes k" v] by (simp add: row cong: option.case_cong if_cong)
    show "batch_value ?ops (mkey_bytes k) (meta_value A k) = meta_value (with_space s (?S\<lparr>ms_leases := ?m\<rparr>) A) k" for k
    proof (cases "\<exists>pre. k = MLease s pre")
      case True
      then obtain pre where k: "k = MLease s pre" by blast
      show ?thesis unfolding val by (cases "ms_leases ?S pre") (auto simp: k V forgotten_same)
    next
      case False
      then show ?thesis unfolding val by (cases k) (auto simp: lease_row_other)
    qed
  qed
  moreover have "forget_leases s ids st = (Inr (), MemoryStore_apply ?ops st)"
    using rfold_rows [OF dec, of ?P "\<lambda>k r. Put k (HeldLease_encode (r\<lparr>hl_forgotten := True\<rparr>))" "[]"]
    unfolding forget_leases_def finish_def kvs WriteBatch_put_def by (simp add: case_prod_unfold)
  ultimately show ?thesis by (simp add: refines_def done_reply_def)
qed

lemma drop_leases_refines:
  assumes R: "meta_repr st A" and s: "wf_id s"
  shows "refines s A (meta_step (DropLeases s ids) st) (space_step (DropLeases s ids) (m_space A s))"
proof -
  let ?S = "m_space A s" and ?dec = "\<lambda>bs. the (HeldLease_decode bs)"
  let ?m = "\<lambda>pre. case ms_leases ?S pre of None \<Rightarrow> None | Some h \<Rightarrow> if l_id (hl_lease h) \<in> set ids then None else Some h"
  let ?P = "\<lambda>r. l_id (hl_lease r) \<in> set ids" and ?f = "\<lambda>kv. Del (fst kv)"
  from lease_rows_map [OF R s] obtain kvs where kvs: "scan_prefix st (lease_scan s) = Inr kvs" "distinct (map fst kvs)"
    and row: "\<forall>k. map_of kvs (mkey_bytes k) = lease_row s ?S k" and keys: "\<forall>kv \<in> set kvs. \<exists>k. wf_mkey k \<and> fst kv = mkey_bytes k"
    and dec: "\<forall>kv \<in> set kvs. expect_decoded HeldLease_decode ''undecodable lease'' (snd kv) = Inr (?dec (snd kv))"
    by (metis (no_types, lifting))
  let ?ops = "map ?f (filter (\<lambda>kv. ?P (?dec (snd kv))) kvs)"
  have "meta_repr (MemoryStore_apply ?ops st) (with_space s (?S\<lparr>ms_leases := ?m\<rparr>) A)"
  proof (rule meta_repr_space [OF R])
    show "batch_of UNIV ?ops" by (rule rows_batch_of [OF _ keys]) simp
    show "valid_space (?S\<lparr>ms_leases := ?m\<rparr>)"
    proof (rule valid_space_leases [OF meta_reprD(5) [OF R]])
      show "finite (dom ?m)" by (rule finite_subset [OF _ valid_spaceD(10) [OF meta_reprD(5) [OF R, of s]]]) (auto split: option.splits)
      show "?m pre = Some h \<Longrightarrow> valid_held h \<and> norm_held h = h \<and> l_prefix (hl_lease h) = pre" for pre h
        using valid_spaceD(5-7) [OF meta_reprD(5) [OF R, of s]] by (auto split: option.splits if_splits)
    qed
    have val: "batch_value ?ops (mkey_bytes k) v = (case lease_row s ?S k of None \<Rightarrow> v | Some w \<Rightarrow> if ?P (?dec w) then None else v)" for k v
      using batch_value_rows [OF kvs(2), of ?f "\<lambda>kv. ?P (?dec (snd kv))" "mkey_bytes k" v] by (simp add: row cong: option.case_cong if_cong)
    show "batch_value ?ops (mkey_bytes k) (meta_value A k) = meta_value (with_space s (?S\<lparr>ms_leases := ?m\<rparr>) A) k" for k
    proof (cases "\<exists>pre. k = MLease s pre")
      case True
      then obtain pre where k: "k = MLease s pre" by blast
      show ?thesis unfolding val by (cases "ms_leases ?S pre") (auto simp: k the_decode_held [OF meta_reprD(5) [OF R]])
    next
      case False
      then show ?thesis unfolding val by (cases k) (auto simp: lease_row_other)
    qed
  qed
  moreover have "drop_leases s ids st = (Inr (), MemoryStore_apply ?ops st)"
    using rfold_rows [OF dec, of ?P "\<lambda>k r. Del k" "[]"]
    unfolding drop_leases_def finish_def kvs WriteBatch_delete_def by (simp add: case_prod_unfold)
  ultimately show ?thesis by (simp add: refines_def done_reply_def)
qed

subsection \<open>Trimming the oplog\<close>

lemma log_rows:
  fixes K :: "u64 \<Rightarrow> mkey"
  assumes R: "meta_repr st A" and K: "\<And>q. wf_mkey (K q)" "\<And>a b. mkey_bytes (K a) < mkey_bytes (K b) \<longleftrightarrow> a < b"
    and p: "prefix meta_scan_all p" "\<And>k. prefix p (mkey_bytes k) \<longleftrightarrow> (\<exists>q. k = K q)"
    and D: "finite D" "\<And>q. meta_value A (K q) = (if q \<in> D then Some (g q) else None)"
  shows "scan_prefix st p = Inr (map (\<lambda>q. (mkey_bytes (K q), g q)) (sorted_list_of_set D))"
  unfolding scan_prefix_def
proof (rule mem.prefix_scan_enumerates [OF meta_reprD(1) [OF R]])
  show "sorted_wrt (\<lambda>a b. mkey_bytes (K a) < mkey_bytes (K b)) (sorted_list_of_set D)" by (simp add: K(2))
  show "MemoryStore_get st k = Some v \<and> prefix p k \<longleftrightarrow>
      (\<exists>q \<in> set (sorted_list_of_set D). k = mkey_bytes (K q) \<and> v = g q)" (is "?L \<longleftrightarrow> ?R") for k v
  proof
    assume k: ?L
    then obtain mk where mk: "wf_mkey mk" "k = mkey_bytes mk"
      using meta_reprD(4) [OF R] prefix_order.trans [OF p(1)] by blast
    with k p(2) obtain q where "mk = K q" by auto
    with mk k meta_reprD(3) [OF R mk(1)] show ?R using D by (auto split: if_splits)
  next
    assume ?R
    then show ?L using D meta_reprD(3) [OF R K(1)] by (auto simp: p(2))
  qed
qed

lemma oplog_rows:
  assumes R: "meta_repr st A" and s: "wf_id s"
  shows "scan_prefix st (oplog_scan s) =
    Inr (map (\<lambda>q. (mkey_bytes (MOplog s q), DeviceOp_encode (the (ms_oplog (m_space A s) q)))) (sorted_list_of_set (dom (ms_oplog (m_space A s)))))"
  by (rule log_rows [OF R]) (use s valid_spaceD(8) [OF meta_reprD(5) [OF R, of s]] scan_within_meta(1) scan_prefix_mkeys(2) in auto)

lemma admit_rows:
  assumes R: "meta_repr st A" and s: "wf_id s"
  shows "scan_prefix st (admit_log_scan s) =
    Inr (map (\<lambda>q. (mkey_bytes (MAdmit s q), encode_admitted_batch (the (ms_admits (m_space A s) q)))) (sorted_list_of_set (dom (ms_admits (m_space A s)))))"
  by (rule log_rows [OF R]) (use s valid_spaceD(9) [OF meta_reprD(5) [OF R, of s]] scan_within_meta(2) scan_prefix_mkeys(3) in auto)

lemma seq_at_mkey:
  assumes "wf_id s"
  shows "storage_components (mkey_bytes (MOplog s q)) = Inr (mkey_components (MOplog s q))"
    and "storage_components (mkey_bytes (MAdmit s q)) = Inr (mkey_components (MAdmit s q))"
    and "u64_at (mkey_components (MOplog s q)) 4 what = Inr q" "u64_at (mkey_components (MAdmit s q)) 4 what = Inr q"
  using assms by (simp_all add: storage_components_mkey u64_at_def get_at_def)

lemma trim_rows_eq:
  assumes "wf_id s" "sorted_wrt (<) qs"
  shows "trim_rows through (map (\<lambda>q. (mkey_bytes (MOplog s q), f q)) qs) batch =
    Inr (batch @ map (\<lambda>q. Del (mkey_bytes (MOplog s q))) (filter (\<lambda>q. q \<le> through) qs))"
  using assms(2)
proof (induction qs arbitrary: batch)
  case (Cons q qs)
  have "filter (\<lambda>q. q \<le> through) qs = []" if "q > through" using Cons.prems that by (auto simp: filter_empty_conv)
  with Cons show ?case by (auto simp: seq_at_mkey [OF assms(1)] WriteBatch_delete_def simp del: mkey_components.simps)
qed simp

lemma valid_space_trim:
  assumes "valid_space S" "wf_checksum c"
  shows "valid_space (S\<lparr>ms_checksum := Some c, ms_oplog := ms_oplog S |` Q, ms_cursors := cs\<rparr>)"
proof -
  have "valid_op op" if "(ms_oplog S |` Q) q = Some op" for q op
    using that valid_spaceD(2) [OF assms(1)] by (auto simp: restrict_map_def split: if_splits)
  moreover have "finite (dom (ms_oplog S |` Q))" using valid_spaceD(8) [OF assms(1)] by simp
  ultimately show ?thesis using assms unfolding valid_space_def by auto
qed

lemma trim_oplog_refines:
  assumes R: "meta_repr st A" and wf: "wf_meta_command (TrimOplog s through checksum)"
  shows "refines s A (meta_step (TrimOplog s through checksum) st) (space_step (TrimOplog s through checksum) (m_space A s))"
proof -
  let ?S = "m_space A s" and ?c = "meta_cursors (m_space A s)"
  have s: "wf_id s" and ck: "wf_checksum checksum" using wf by simp_all
  note unfold = trim_oplog_def finish_def meta_reads [OF R s] done_reply_def
  show ?thesis
  proof (cases "through < oc_neck ?c \<and> checksum \<noteq> meta_checksum ?S")
    case True
    then show ?thesis using R by (simp add: unfold refines_def)
  next
    case False
    define advanced where "advanced = min (sat_add64 through 1) (oc_tail ?c)"
    define c' where "c' = \<lparr>oc_head = max (oc_head ?c) advanced, oc_neck = max (oc_neck ?c) advanced, oc_tail = oc_tail ?c\<rparr>"
    have c': "?c\<lparr>oc_head := max (oc_head ?c) advanced, oc_neck := max (oc_neck ?c) advanced\<rparr> = c'" by (cases ?c) (simp add: c'_def)
    define qs where "qs = sorted_list_of_set (dom (ms_oplog ?S))"
    define S' where "S' = ?S\<lparr>ms_checksum := Some checksum, ms_oplog := ms_oplog ?S |` {q. through < q},
      ms_cursors := (if c' \<noteq> ?c then Some c' else ms_cursors ?S)\<rparr>"
    let ?dels = "map (\<lambda>q. Del (mkey_bytes (MOplog s q))) (filter (\<lambda>q. q \<le> through) qs)"
    let ?ops = "([Put (mkey_bytes (MChecksum s)) (ChecksumRecord_encode \<lparr>ck_value = checksum\<rparr>)] @ ?dels) @
      (if c' \<noteq> ?c then [Put (mkey_bytes (MCursors s)) (OplogCursors_encode c')] else [])"
    have qs: "set qs = dom (ms_oplog ?S)" "sorted_wrt (<) qs"
      using valid_spaceD(8) [OF meta_reprD(5) [OF R, of s]] by (simp_all add: qs_def)
    have moved: "c' \<noteq> ?c \<longleftrightarrow> oc_head c' \<noteq> oc_head ?c \<or> oc_neck c' \<noteq> oc_neck ?c" by (cases ?c) (simp add: c'_def)
    have gone: "mkey_bytes k \<in> (\<lambda>q. mkey_bytes (MOplog s q)) ` set (filter (\<lambda>q. q \<le> through) qs) \<longleftrightarrow>
        (\<exists>q. k = MOplog s q \<and> q \<le> through \<and> ms_oplog ?S q \<noteq> None)" for k
      using qs(1) by (auto simp: image_iff dom_def)
    have "meta_repr (MemoryStore_apply ?ops st) (with_space s S' A)"
    proof (rule meta_repr_space [OF R])
      show "valid_space S'" unfolding S'_def by (rule valid_space_trim [OF meta_reprD(5) [OF R] ck])
      show "batch_of UNIV ?ops" using s by (auto simp: batch_of_def)
      show "batch_value ?ops (mkey_bytes k) (meta_value A k) = meta_value (with_space s S' A) k" for k
        unfolding batch_value_append batch_value_dels gone S'_def
        by (cases k) (auto simp: restrict_map_def not_less)
    qed
    moreover have "trim_oplog s through checksum st = (Inr (), MemoryStore_apply ?ops st)"
      using False moved
      by (simp add: unfold oplog_rows [OF R s] trim_rows_eq [OF s qs(2)] qs_def [symmetric] advanced_def [symmetric] Let_def
          WriteBatch_put_def mkey_bytes_eqs c'_def)
    moreover have "space_step (TrimOplog s through checksum) ?S = (Inr Done, S')"
      using False by (simp add: Let_def S'_def advanced_def [symmetric] c')
    ultimately show ?thesis by (simp add: refines_def done_reply_def del: space_step.simps)
  qed
qed

subsection \<open>Every transition\<close>

lemma record_codec_refines:
  assumes R: "meta_repr st A" and s: "wf_id s"
  shows "refines s A (meta_step (RecordCodec s record) st) (space_step (RecordCodec s record) (m_space A s))"
proof -
  have "meta_repr (MemoryStore_apply [Put (mkey_bytes (MCodec s)) (CodecRecord_encode record)] st)
      (with_space s ((m_space A s)\<lparr>ms_codec := Some record\<rparr>) A)"
  proof (rule meta_repr_space [OF R])
    show "batch_value [Put (mkey_bytes (MCodec s)) (CodecRecord_encode record)] (mkey_bytes k) (meta_value A k) =
        meta_value (with_space s ((m_space A s)\<lparr>ms_codec := Some record\<rparr>) A) k" for k by (cases k) auto
  qed (use s valid_space_update(4) [OF meta_reprD(5) [OF R]] in auto)
  then show ?thesis by (simp add: record_codec_bundle_def finish_def refines_def done_reply_def WriteBatch_put_def mkey_bytes_eqs)
qed

lemma record_device_refines:
  assumes R: "meta_repr st A" and d: "wf_id d"
  shows "meta_repr (snd (record_device d st)) (A\<lparr>m_device := Some d\<rparr>)"
proof -
  have "meta_repr (MemoryStore_apply [Put (mkey_bytes MDevice) (MetaDeviceRecord_encode \<lparr>md_id = d\<rparr>)] st) (A\<lparr>m_device := Some d\<rparr>)"
  proof (rule meta_repr_apply [OF R])
    show "valid_meta (A\<lparr>m_device := Some d\<rparr>)" using meta_reprD(2) [OF R] d by (simp add: valid_meta_def)
    show "batch_value [Put (mkey_bytes MDevice) (MetaDeviceRecord_encode \<lparr>md_id = d\<rparr>)] (mkey_bytes k) (meta_value A k) =
        meta_value (A\<lparr>m_device := Some d\<rparr>) k" for k by (cases k) auto
  qed simp
  then show ?thesis by (simp add: record_device_def finish_def WriteBatch_put_def mkey_bytes_eqs)
qed

lemma record_clock_refines:
  assumes R: "meta_repr st A"
  shows "meta_repr (snd (record_clock t st)) (A\<lparr>m_clock := Some t\<rparr>)"
proof -
  have "meta_repr (MemoryStore_apply [Put (mkey_bytes MClock) (ClockRecord_encode \<lparr>cr_high_water = t\<rparr>)] st) (A\<lparr>m_clock := Some t\<rparr>)"
  proof (rule meta_repr_apply [OF R])
    show "valid_meta (A\<lparr>m_clock := Some t\<rparr>)" using meta_reprD(2) [OF R] by (simp add: valid_meta_def)
    show "batch_value [Put (mkey_bytes MClock) (ClockRecord_encode \<lparr>cr_high_water = t\<rparr>)] (mkey_bytes k) (meta_value A k) =
        meta_value (A\<lparr>m_clock := Some t\<rparr>) k" for k by (cases k) auto
  qed simp
  then show ?thesis by (simp add: record_clock_def finish_def WriteBatch_put_def mkey_bytes_eqs)
qed

lemma space_step_refines:
  assumes "meta_repr st A" "wf_meta_command cmd" "command_space cmd = Some s"
  shows "refines s A (meta_step cmd st) (space_step cmd (m_space A s))"
  using assms rollback_refines [OF assms(1), of s]
  by (cases cmd)
    (auto simp del: space_step.simps meta_step.simps
      intro: commit_refines trim_oplog_refines rollback_if_unchanged_refines append_admits_refines mark_admits_applied_refines
        trim_admits_refines record_leases_refines reconcile_leases_refines forget_leases_refines drop_leases_refines record_codec_refines
      simp: meta_step.simps(4) space_step.simps(3))

lemma meta_step_repr:
  assumes R: "meta_repr st A" and wf: "wf_meta_command cmd"
  shows "fst (meta_step cmd st) = fst (meta_spec cmd A) \<and> meta_repr (snd (meta_step cmd st)) (snd (meta_spec cmd A))"
proof (cases "command_space cmd")
  case None
  then show ?thesis
    using wf record_device_refines [OF R] record_clock_refines [OF R]
    by (cases cmd) (auto simp: meta_spec_def done_reply_def record_device_def record_clock_def finish_def)
next
  case (Some s)
  then show ?thesis
    using space_step_refines [OF R wf Some]
    by (simp add: meta_spec_def refines_def with_space_def case_prod_unfold)
qed

text \<open>Sequences of commands, from the store of a new client.\<close>

definition MetaSpace_empty :: MetaSpace where
  "MetaSpace_empty = \<lparr>ms_cursors = None, ms_admit_cursors = None, ms_checksum = None, ms_ver_high = None, ms_oplog = Map.empty,
     ms_admits = Map.empty, ms_codec = None, ms_leases = Map.empty\<rparr>"

definition Meta_empty :: Meta where
  "Meta_empty = \<lparr>m_device = None, m_clock = None, m_space = (\<lambda>_. MetaSpace_empty)\<rparr>"

fun meta_run :: "MetaCommand list \<Rightarrow> MemoryStore \<Rightarrow> (MetaError + MetaReply) list \<times> MemoryStore" where
  "meta_run [] st = ([], st)"
| "meta_run (cmd # cmds) st =
     (case meta_step cmd st of (reply, st') \<Rightarrow> (case meta_run cmds st' of (replies, st'') \<Rightarrow> (reply # replies, st'')))"

fun spec_run :: "MetaCommand list \<Rightarrow> Meta \<Rightarrow> (MetaError + MetaReply) list \<times> Meta" where
  "spec_run [] A = ([], A)"
| "spec_run (cmd # cmds) A =
     (case meta_spec cmd A of (reply, A') \<Rightarrow> (case spec_run cmds A' of (replies, A'') \<Rightarrow> (reply # replies, A'')))"

lemma meta_repr_empty: "meta_repr [] Meta_empty"
proof -
  have "meta_value Meta_empty k = None" for k by (cases k) (simp_all add: Meta_empty_def MetaSpace_empty_def)
  then show ?thesis
    by (simp add: meta_repr_def MemoryStore_get_def bt_get_def valid_meta_def valid_space_def bt_wf_def) (simp add: Meta_empty_def MetaSpace_empty_def)
qed

lemma meta_run_refines:
  assumes "meta_repr st A" "list_all wf_meta_command cmds"
  shows "fst (meta_run cmds st) = fst (spec_run cmds A) \<and> meta_repr (snd (meta_run cmds st)) (snd (spec_run cmds A))"
  using assms
proof (induction cmds arbitrary: st A)
  case (Cons cmd cmds)
  have "fst (meta_step cmd st) = fst (meta_spec cmd A)" "meta_repr (snd (meta_step cmd st)) (snd (meta_spec cmd A))"
    using meta_step_repr [OF Cons.prems(1)] Cons.prems(2) by auto
  with Cons.IH [OF this(2)] Cons.prems(2) show ?case by (simp add: case_prod_unfold)
qed simp

end
