(* ===== verification/MetaReads.thy ===== *)
theory MetaReads
  imports MetaSteps
begin

text \<open>
  What the reads of the client's metadata store return on a represented store: a stretch of the
  oplog, a stretch of the admitted log, the leases covering given keys, and the whole state at
  \<open>load\<close>.  No read of a represented store panics.
\<close>

subsection \<open>Stretches of the logs\<close>

lemma scan_from:
  assumes "prefix p start"
  shows "MemoryStore_scan st start (prefix_successor p) = Inr (filter (\<lambda>kv. start \<le> fst kv) (filter (\<lambda>kv. prefix p (fst kv)) st))"
proof -
  have le: "p \<le> start" by (rule prefix_le [OF assms])
  have iff: "prefix p k \<longleftrightarrow> (\<forall>e. prefix_successor p = Some e \<longrightarrow> k < e)" if "start \<le> k" for k
    using prefix_iff_below [of p k] order_trans [OF le that] by (auto simp: below_def split: option.splits)
  have "filter (\<lambda>kv. start \<le> fst kv) (filter (\<lambda>kv. prefix p (fst kv)) st) =
      filter (\<lambda>kv. start \<le> fst kv \<and> (\<forall>e. prefix_successor p = Some e \<longrightarrow> fst kv < e)) st"
    unfolding filter_filter by (rule filter_cong) (use iff in auto)
  moreover have "\<not> start > e" if "prefix_successor p = Some e" for e
    using iff [of start] assms that by auto
  ultimately show ?thesis by (auto simp: MemoryStore_scan_def split: option.splits)
qed

lemma scan_suffix:
  assumes "prefix p start" "scan_prefix st p = Inr kvs"
  shows "MemoryStore_scan st start (prefix_successor p) = Inr (filter (\<lambda>kv. start \<le> fst kv) kvs)"
  using scan_from [OF assms(1), of st] assms(2) unfolding scan_prefix_eq by (simp only: sum.inject)

lemma oplog_loop_rows:
  assumes "wf_id s" "sorted_wrt (<) qs" "\<forall>q \<in> set qs. valid_op (f q)"
  shows "oplog_loop through (map (\<lambda>q. (mkey_bytes (MOplog s q), DeviceOp_encode (f q))) qs) =
    Inr (map (\<lambda>q. (q, f q)) (filter (\<lambda>q. q \<le> through) qs))"
  using assms(2,3)
proof (induction qs)
  case (Cons q qs)
  have "filter (\<lambda>q. q \<le> through) qs = []" if "q > through" using Cons.prems that by (auto simp: filter_empty_conv)
  with Cons show ?case
    by (auto simp: seq_at_mkey [OF assms(1)] expect_decoded_def device_op.decode_encode simp del: mkey_components.simps)
qed simp

lemma filter_seqs: "filter (\<lambda>kv. mkey_bytes (MOplog s from) \<le> fst kv) (map (\<lambda>q. (mkey_bytes (MOplog s q), f q)) qs) =
    map (\<lambda>q. (mkey_bytes (MOplog s q), f q)) (filter (\<lambda>q. from \<le> q) qs)"
  "filter (\<lambda>kv. mkey_bytes (MAdmit s from') \<le> fst kv) (map (\<lambda>q. (mkey_bytes (MAdmit s q), g q)) qs') =
    map (\<lambda>q. (mkey_bytes (MAdmit s q), g q)) (filter (\<lambda>q. from' \<le> q) qs')"
  by (simp_all add: filter_map comp_def flip: not_less)

lemma oplog_view:
  assumes R: "meta_repr st A" and s: "wf_id s"
  shows "oplog st s from through = Inr (map (\<lambda>q. (q, the (ms_oplog (m_space A s) q)))
    (filter (\<lambda>q. from \<le> q \<and> q \<le> through) (sorted_list_of_set (dom (ms_oplog (m_space A s))))))"
proof (cases "from > through")
  case True
  then have "filter (\<lambda>q. from \<le> q \<and> q \<le> through) qs = []" for qs by (auto simp: filter_empty_conv)
  with True show ?thesis by (simp add: oplog_def)
next
  case False
  let ?D = "sorted_list_of_set (dom (ms_oplog (m_space A s)))" and ?f = "\<lambda>q. the (ms_oplog (m_space A s) q)"
  have "prefix (oplog_scan s) (mkey_bytes (MOplog s from))" by (simp add: scan_prefix_mkeys)
  from scan_suffix [OF this oplog_rows [OF R s]]
  have "MemoryStore_scan st (mkey_bytes (MOplog s from)) (prefix_successor (oplog_scan s)) =
      Inr (map (\<lambda>q. (mkey_bytes (MOplog s q), DeviceOp_encode (?f q))) (filter (\<lambda>q. from \<le> q) ?D))"
    by (simp only: filter_seqs)
  moreover have "oplog_loop through (map (\<lambda>q. (mkey_bytes (MOplog s q), DeviceOp_encode (?f q))) (filter (\<lambda>q. from \<le> q) ?D)) =
      Inr (map (\<lambda>q. (q, ?f q)) (filter (\<lambda>q. q \<le> through) (filter (\<lambda>q. from \<le> q) ?D)))"
    using valid_spaceD(2,8) [OF meta_reprD(5) [OF R, of s]]
    by (intro oplog_loop_rows [OF s] sorted_wrt_filter) auto
  ultimately show ?thesis using False by (simp add: oplog_def mkey_bytes_eqs filter_filter conj_commute)
qed

lemma admitted_loop_rows:
  assumes "wf_id s" "sorted_wrt (<) qs" "\<forall>q \<in> set qs. valid_batch (f q) \<and> b_admission_seq (f q) = q"
  shows "admitted_loop through (map (\<lambda>q. (mkey_bytes (MAdmit s q), encode_admitted_batch (f q))) qs) =
    Inr (map f (filter (\<lambda>q. q \<le> through) qs))"
  using assms(2,3)
proof (induction qs)
  case (Cons q qs)
  have "filter (\<lambda>q. q \<le> through) qs = []" if "q > through" using Cons.prems that by (auto simp: filter_empty_conv)
  with Cons show ?case
    by (auto simp: seq_at_mkey [OF assms(1)] expect_decoded_def admitted_batch.decode_encode simp del: mkey_components.simps)
qed simp

text \<open>A window of sequence numbers, in order.\<close>

definition seqs :: "u64 \<Rightarrow> u64 \<Rightarrow> u64 list" where
  "seqs a b = map of_nat [unat a..<unat b + 1]"

lemma unat_of_nat_below: "n \<le> unat (b :: u64) \<Longrightarrow> unat (of_nat n :: u64) = n"
  using order.strict_trans1 [OF _ u64_less [of b], of n] by (simp add: unat_of_nat)

lemma set_seqs: "set (seqs a b) = {q. a \<le> q \<and> q \<le> b}"
proof
  have "unat (of_nat n :: u64) = n" if "n \<in> {unat a..<unat b + 1}" for n
    using that by (intro unat_of_nat_below [of n b]) simp
  then show "set (seqs a b) \<subseteq> {q. a \<le> q \<and> q \<le> b}" by (auto simp: seqs_def word_le_nat_alt)
  show "{q. a \<le> q \<and> q \<le> b} \<subseteq> set (seqs a b)"
  proof
    fix q
    assume "q \<in> {q. a \<le> q \<and> q \<le> b}"
    then have "unat q \<in> {unat a..<unat b + 1}" by (simp add: word_le_nat_alt)
    then have "of_nat (unat q) \<in> set (seqs a b)" unfolding seqs_def set_map set_upt by (rule imageI)
    then show "q \<in> set (seqs a b)" by simp
  qed
qed

lemma sorted_seqs: "sorted_wrt (<) (seqs a b)"
proof -
  have "(of_nat m :: u64) < of_nat n" if "m < n" "n \<in> set [unat a..<unat b + 1]" for m n
    using that unat_of_nat_below [of n b] unat_of_nat_below [of m b] by (auto simp: word_less_nat_alt)
  then have "sorted_wrt (\<lambda>m n. (of_nat m :: u64) < of_nat n) [unat a..<unat b + 1]"
    by (intro sorted_wrt_mono_rel [OF _ sorted_wrt_upt]) auto
  then show ?thesis by (simp add: seqs_def sorted_wrt_map)
qed

lemma filter_window:
  assumes "finite D" "\<And>q. from \<le> q \<Longrightarrow> q \<le> through \<Longrightarrow> q \<in> D"
  shows "filter (\<lambda>q. from \<le> q \<and> q \<le> through) (sorted_list_of_set D) = seqs from through"
proof (rule sorted_distinct_set_unique)
  show "sorted (filter (\<lambda>q. from \<le> q \<and> q \<le> through) (sorted_list_of_set D))" by (rule sorted_wrt_filter) simp
  show "set (filter (\<lambda>q. from \<le> q \<and> q \<le> through) (sorted_list_of_set D)) = set (seqs from through)"
    using assms by (auto simp: set_seqs)
qed (use sorted_seqs [of "from" through] in \<open>auto simp: strict_sorted_iff\<close>)

lemma check_dense_upt:
  assumes "unat from + n + d \<le> 2 ^ 64" "\<And>i. unat from + n \<le> i \<Longrightarrow> i < unat from + n + d \<Longrightarrow> b_admission_seq (f i) = of_nat i"
  shows "check_dense from n (map f [unat from + n..<unat from + n + d]) = Inr ()"
  using assms
proof (induction d arbitrary: n)
  case (Suc d)
  have list: "map f [unat from + n..<unat from + n + Suc d] = f (unat from + n) # map f [unat from + Suc n..<unat from + Suc n + d]"
    by (subst upt_conv_Cons) simp_all
  have n: "unat from + n < 2 ^ 64" "n < 2 ^ 64" using Suc.prems(1) by simp_all
  then have "checked_add64 from (of_nat n) = Some (from + of_nat n)" by (simp add: checked_add64_def unat_of_nat)
  moreover have "b_admission_seq (f (unat from + n)) = from + of_nat n" using Suc.prems(2) [of "unat from + n"] by simp
  moreover have "check_dense from (Suc n) (map f [unat from + Suc n..<unat from + Suc n + d]) = Inr ()"
    by (rule Suc.IH) (use Suc.prems in auto)
  ultimately show ?case unfolding list using n by simp
qed simp

lemma check_dense_seqs:
  assumes "from \<le> through" "\<forall>q \<in> set (seqs from through). b_admission_seq (f q) = q"
  shows "check_dense from 0 (map f (seqs from through)) = Inr ()"
proof -
  let ?d = "Suc (unat through) - unat from"
  have le: "unat from \<le> unat through" using assms(1) by (simp add: word_le_nat_alt)
  have "check_dense from 0 (map (\<lambda>i. f (of_nat i)) [unat from + 0..<unat from + 0 + ?d]) = Inr ()"
  proof (rule check_dense_upt)
    show "unat from + 0 + ?d \<le> 2 ^ 64" using le u64_less [of through] by (simp add: Suc_le_eq)
    show "b_admission_seq (f (of_nat i)) = of_nat i" if "unat from + 0 \<le> i" "i < unat from + 0 + ?d" for i
    proof -
      have "i \<in> set [unat from..<unat through + 1]" using that le by auto
      then have "of_nat i \<in> set (seqs from through)" unfolding seqs_def set_map by (rule imageI)
      with assms(2) show ?thesis by blast
    qed
  qed
  moreover have "map f (seqs from through) = map (\<lambda>i. f (of_nat i)) [unat from + 0..<unat from + 0 + ?d]"
    using le by (simp add: seqs_def comp_def)
  ultimately show ?thesis by simp
qed

lemma admitted_batches_view:
  assumes R: "meta_repr st A" and s: "wf_id s" and dense: "dom (ms_admits (m_space A s)) = {q. ac_head a \<le> q \<and> q < ac_tail a}"
    and a: "a = meta_admit_cursors (m_space A s)"
  shows "admitted_batches st s from through =
    (if from > through then Inr []
     else if from < ac_head a \<or> through \<ge> ac_tail a then Inl (AdmitReadOutside from through a)
     else Inr (map (\<lambda>q. the (ms_admits (m_space A s) q)) (seqs from through)))"
proof (cases "from > through \<or> from < ac_head a \<or> through \<ge> ac_tail a")
  case True
  then show ?thesis by (auto simp: admitted_batches_def meta_reads [OF R s] a)
next
  case False
  let ?D = "sorted_list_of_set (dom (ms_admits (m_space A s)))" and ?f = "\<lambda>q. the (ms_admits (m_space A s) q)"
  have fin: "finite (dom (ms_admits (m_space A s)))" by (rule valid_spaceD(9) [OF meta_reprD(5) [OF R]])
  have "prefix (admit_log_scan s) (mkey_bytes (MAdmit s from))" by (simp add: scan_prefix_mkeys)
  from scan_suffix [OF this admit_rows [OF R s]]
  have scan: "MemoryStore_scan st (mkey_bytes (MAdmit s from)) (prefix_successor (admit_log_scan s)) =
      Inr (map (\<lambda>q. (mkey_bytes (MAdmit s q), encode_admitted_batch (?f q))) (filter (\<lambda>q. from \<le> q) ?D))"
    by (simp only: filter_seqs)
  have f: "valid_batch (?f q) \<and> b_admission_seq (?f q) = q" if "q \<in> dom (ms_admits (m_space A s))" for q
    using that valid_spaceD(3,4) [OF meta_reprD(5) [OF R, of s]] by auto
  have kept: "q \<in> dom (ms_admits (m_space A s))" if "from \<le> q" "q \<le> through" for q using that False dense by auto
  have "admitted_loop through (map (\<lambda>q. (mkey_bytes (MAdmit s q), encode_admitted_batch (?f q))) (filter (\<lambda>q. from \<le> q) ?D)) =
      Inr (map ?f (filter (\<lambda>q. q \<le> through) (filter (\<lambda>q. from \<le> q) ?D)))"
    by (intro admitted_loop_rows [OF s] sorted_wrt_filter) (use f fin in auto)
  moreover have "filter (\<lambda>q. q \<le> through) (filter (\<lambda>q. from \<le> q) ?D) = seqs from through"
    using filter_window [OF fin kept] by simp
  ultimately have rows: "admitted_loop through (map (\<lambda>q. (mkey_bytes (MAdmit s q), encode_admitted_batch (?f q))) (filter (\<lambda>q. from \<le> q) ?D)) =
      Inr (map ?f (seqs from through))" by simp
  have le: "unat from \<le> unat through" using False by (simp add: word_le_nat_alt not_less)
  have len: "length (seqs from through) = Suc (unat through) - unat from" using le by (simp add: seqs_def Suc_diff_le)
  have "unat through < unat (ac_tail a)" using False by (simp add: word_le_nat_alt not_le)
  then have "unat through < 18446744073709551615" using u64_less [of "ac_tail a"] by linarith
  moreover have "unat (through - from) = unat through - unat from" using le by (simp add: unat_sub word_le_nat_alt)
  ultimately have "unat (through - from + 1) = Suc (unat through) - unat from"
    using le by (simp add: unat_word_ariths Suc_diff_le)
  moreover have "check_dense from 0 (map ?f (seqs from through)) = Inr ()"
    by (rule check_dense_seqs) (use f [OF kept] False in \<open>auto simp: set_seqs\<close>)
  ultimately show ?thesis
    using False by (simp add: admitted_batches_def meta_reads [OF R s] a [symmetric] mkey_bytes_eqs scan rows len Let_def)
qed

subsection \<open>Covering leases\<close>

lemma set_foldl_insort: "set (foldl (\<lambda>cands k. insort_insert k cands) acc ks) = set acc \<union> set ks"
  by (induction ks arbitrary: acc) (auto simp: set_insort_insert)

lemma set_lease_candidates:
  "set (lease_candidates s queries) = {mkey_bytes (MLease s pre) |pre. pre \<noteq> [] \<and> (\<exists>q \<in> set queries. prefix pre q)}"
proof -
  have takes: "(\<lambda>depth. take depth q) ` {1..<length q + 1} = {pre. pre \<noteq> [] \<and> prefix pre q}" for q :: key
  proof
    show "{pre. pre \<noteq> [] \<and> prefix pre q} \<subseteq> (\<lambda>depth. take depth q) ` {1..<length q + 1}"
    proof
      fix pre
      assume "pre \<in> {pre. pre \<noteq> [] \<and> prefix pre q}"
      then have "length pre \<in> {1..<length q + 1}" "pre = take (length pre) q" by (auto simp: prefix_def Suc_le_eq)
      then show "pre \<in> (\<lambda>depth. take depth q) ` {1..<length q + 1}" by (rule rev_image_eqI)
    qed
  qed (auto simp: take_is_prefix)
  have "set (map (\<lambda>depth. lease_key s (take depth q)) [1..<length q + 1]) =
      (\<lambda>pre. mkey_bytes (MLease s pre)) ` {pre. pre \<noteq> [] \<and> prefix pre q}" for q
    unfolding set_map set_upt mkey_bytes_eqs takes [symmetric] image_image ..
  then have "set (lease_candidates s queries) = (\<Union>q \<in> set queries. (\<lambda>pre. mkey_bytes (MLease s pre)) ` {pre. pre \<noteq> [] \<and> prefix pre q})"
    unfolding lease_candidates_def set_foldl_insort set_concat set_map image_image by simp
  then show ?thesis by blast
qed

lemma rfold_stored:
  assumes "\<And>k. k \<in> set ks \<Longrightarrow> stored decode msg st k = Inr (f k)"
  shows "rfold (\<lambda>out k. rbind (stored decode msg st k) (\<lambda>r. Inr (case r of None \<Rightarrow> out | Some x \<Rightarrow> out @ [x]))) acc ks = Inr (acc @ List.map_filter f ks)"
  using assms by (induction ks arbitrary: acc) (auto simp: map_filter_simps split: option.splits)

lemma leases_covering_view:
  assumes R: "meta_repr st A" and s: "wf_id s" and wf: "list_all wf_key queries"
  shows "\<exists>out. leases_covering st s queries = Inr out \<and>
    set out = {h. \<exists>pre. ms_leases (m_space A s) pre = Some h \<and> (\<exists>q \<in> set queries. prefix pre q)}"
proof -
  let ?row = "\<lambda>k. Option.bind (MemoryStore_get st k) HeldLease_decode"
  have row: "stored HeldLease_decode ''undecodable lease'' st (mkey_bytes (MLease s pre)) = Inr (ms_leases (m_space A s) pre)"
    "?row (mkey_bytes (MLease s pre)) = ms_leases (m_space A s) pre" if "wf_key pre" for pre
  proof -
    have get: "MemoryStore_get st (mkey_bytes (MLease s pre)) = map_option HeldLease_encode (ms_leases (m_space A s) pre)"
      using meta_reprD(3) [OF R, of "MLease s pre"] s that by simp
    show "?row (mkey_bytes (MLease s pre)) = ms_leases (m_space A s) pre"
      using get the_decode_held [OF meta_reprD(5) [OF R]] by (cases "ms_leases (m_space A s) pre") auto
    show "stored HeldLease_decode ''undecodable lease'' st (mkey_bytes (MLease s pre)) = Inr (ms_leases (m_space A s) pre)"
      using stored_Inr [OF get, of HeldLease_decode "\<lambda>h. h"] the_decode_held [OF meta_reprD(5) [OF R]] by (simp add: option.map_ident)
  qed
  have anc: "wf_key pre" if "pre \<noteq> []" "q \<in> set queries" "prefix pre q" for pre q
    using that wf wf_key_prefix by (auto simp: list_all_iff)
  have "leases_covering st s queries = Inr ([] @ List.map_filter ?row (lease_candidates s queries))"
    unfolding leases_covering_def
    by (rule rfold_stored) (use row anc in \<open>auto simp: set_lease_candidates\<close>)
  moreover have "set (List.map_filter ?row (lease_candidates s queries)) =
      {h. \<exists>pre. ms_leases (m_space A s) pre = Some h \<and> (\<exists>q \<in> set queries. prefix pre q)}" (is "_ = ?H")
  proof
    show "set (List.map_filter ?row (lease_candidates s queries)) \<subseteq> ?H"
      using row(2) anc by (auto simp: set_lease_candidates List.map_filter_def)
    show "?H \<subseteq> set (List.map_filter ?row (lease_candidates s queries))"
    proof
      fix h
      assume "h \<in> ?H"
      then obtain pre q where h: "ms_leases (m_space A s) pre = Some h" "q \<in> set queries" "prefix pre q" by blast
      have "pre \<noteq> []" using valid_spaceD(5,7) [OF meta_reprD(5) [OF R, of s] h(1)] by (auto simp: valid_held_def)
      then have "mkey_bytes (MLease s pre) \<in> set (lease_candidates s queries)" "?row (mkey_bytes (MLease s pre)) = Some h"
        using h row(2) [OF anc] by (auto simp: set_lease_candidates)
      then show "h \<in> set (List.map_filter ?row (lease_candidates s queries))" by (force simp: List.map_filter_def)
    qed
  qed
  ultimately show ?thesis by auto
qed

end
