(* ===== verification/MetaLoad.thy ===== *)
theory MetaLoad
  imports MetaReads
begin

text \<open>
  \<open>load\<close>: scanning the whole metadata region of a represented store rebuilds the abstract state.
  \<open>load_view\<close> is the invariant of the loop, for the keys read so far.
\<close>

fun mkey_space :: "mkey \<Rightarrow> SpaceId option" where
  "mkey_space MDevice = None"
| "mkey_space MClock = None"
| "mkey_space (MCodec s) = Some s"
| "mkey_space (MLease s _) = Some s"
| "mkey_space (MCursors s) = Some s"
| "mkey_space (MVer s) = Some s"
| "mkey_space (MOplog s _) = Some s"
| "mkey_space (MChecksum s) = Some s"
| "mkey_space (MAdmitCursors s) = Some s"
| "mkey_space (MAdmit s _) = Some s"

definition space_view :: "Meta \<Rightarrow> mkey set \<Rightarrow> SpaceId \<Rightarrow> SpaceState \<Rightarrow> bool" where
  "space_view A K s S \<longleftrightarrow>
     ss_cursors S = (if MCursors s \<in> K then meta_cursors (m_space A s) else OplogCursors_default) \<and>
     ss_admit_cursors S = (if MAdmitCursors s \<in> K then meta_admit_cursors (m_space A s) else AdmitCursors_default) \<and>
     ss_checksum S = (if MChecksum s \<in> K then meta_checksum (m_space A s) else DeviceChecksum_EMPTY) \<and>
     ss_ver_high S = (if MVer s \<in> K then ms_ver_high (m_space A s) else None) \<and>
     ss_codec S = (if MCodec s \<in> K then ms_codec (m_space A s) else None) \<and>
     bt_wf (ss_oplog S) \<and> (\<forall>q. bt_get (ss_oplog S) q = (if MOplog s q \<in> K then ms_oplog (m_space A s) q else None)) \<and>
     bt_wf (ss_admits S) \<and> (\<forall>q. bt_get (ss_admits S) q = (if MAdmit s q \<in> K then ms_admits (m_space A s) q else None)) \<and>
     bt_wf (ss_leases S) \<and> (\<forall>i h. bt_get (ss_leases S) i = Some h \<longrightarrow> l_id (hl_lease h) = i \<and> (\<exists>pre. ms_leases (m_space A s) pre = Some h)) \<and>
     (\<forall>pre h. MLease s pre \<in> K \<and> ms_leases (m_space A s) pre = Some h \<longrightarrow> bt_get (ss_leases S) (l_id (hl_lease h)) \<noteq> None)"

definition load_view :: "Meta \<Rightarrow> mkey set \<Rightarrow> ClientState \<Rightarrow> bool" where
  "load_view A K cs \<longleftrightarrow>
     cs_device cs = (if MDevice \<in> K then m_device A else None) \<and>
     cs_clock_high cs = (if MClock \<in> K then m_clock A else None) \<and> bt_wf (cs_spaces cs) \<and>
     (\<forall>s S. bt_get (cs_spaces cs) s = Some S \<longrightarrow> wf_id s \<and> space_view A K s S) \<and>
     (\<forall>s. \<forall>k \<in> K. mkey_space k = Some s \<longrightarrow> bt_get (cs_spaces cs) s \<noteq> None)"

lemma load_viewD:
  assumes "load_view A K cs"
  shows "bt_wf (cs_spaces cs)" "bt_get (cs_spaces cs) s = Some S \<Longrightarrow> wf_id s" "bt_get (cs_spaces cs) s = Some S \<Longrightarrow> space_view A K s S"
    and "k \<in> K \<Longrightarrow> mkey_space k = Some s \<Longrightarrow> bt_get (cs_spaces cs) s \<noteq> None"
  using assms unfolding load_view_def by blast+

lemma space_view_default:
  assumes "\<forall>k \<in> K. mkey_space k \<noteq> Some s"
  shows "space_view A K s SpaceState_default"
proof -
  have "k \<notin> K" if "mkey_space k = Some s" for k using assms that by blast
  then show ?thesis by (simp add: space_view_def SpaceState_default_def bt_wf_def bt_get_def)
qed

lemma space_view_frame:
  assumes "mkey_space k \<noteq> Some s"
  shows "space_view A (insert k K) s S \<longleftrightarrow> space_view A K s S"
proof -
  have "k' \<in> insert k K \<longleftrightarrow> k' \<in> K" if "mkey_space k' = Some s" for k' using assms that by auto
  then show ?thesis by (simp add: space_view_def)
qed

lemma space_byte:
  "single_byte (mkey_components (MCodec s)) 3 what = Inr 0" "single_byte (mkey_components (MLease s pre)) 3 what = Inr 1"
  "single_byte (mkey_components (MCursors s)) 3 what = Inr 2" "single_byte (mkey_components (MVer s)) 3 what = Inr 3"
  "single_byte (mkey_components (MOplog s q)) 3 what = Inr 4" "single_byte (mkey_components (MChecksum s)) 3 what = Inr 5"
  "single_byte (mkey_components (MAdmitCursors s)) 3 what = Inr 6" "single_byte (mkey_components (MAdmit s q')) 3 what = Inr 7"
  by (simp_all add: single_byte_def get_at_def)

lemma load_space_rows:
  "load_space (mkey_components (MCodec s)) (CodecRecord_encode r) S = Inr (S\<lparr>ss_codec := Some r\<rparr>)"
  "valid_held h \<Longrightarrow> norm_held h = h \<Longrightarrow>
     load_space (mkey_components (MLease s (l_prefix (hl_lease h)))) (HeldLease_encode h) S = Inr (S\<lparr>ss_leases := bt_insert (l_id (hl_lease h)) h (ss_leases S)\<rparr>)"
  "load_space (mkey_components (MCursors s)) (OplogCursors_encode c) S = Inr (S\<lparr>ss_cursors := c\<rparr>)"
  "load_space (mkey_components (MVer s)) (VerHighRecord_encode \<lparr>vh_high = v\<rparr>) S = Inr (S\<lparr>ss_ver_high := Some v\<rparr>)"
  "valid_op op \<Longrightarrow> load_space (mkey_components (MOplog s q)) (DeviceOp_encode op) S = Inr (S\<lparr>ss_oplog := bt_insert q op (ss_oplog S)\<rparr>)"
  "wf_checksum ck \<Longrightarrow> load_space (mkey_components (MChecksum s)) (ChecksumRecord_encode \<lparr>ck_value = ck\<rparr>) S = Inr (S\<lparr>ss_checksum := ck\<rparr>)"
  "load_space (mkey_components (MAdmitCursors s)) (AdmitCursors_encode ac) S = Inr (S\<lparr>ss_admit_cursors := ac\<rparr>)"
  "valid_batch b \<Longrightarrow> load_space (mkey_components (MAdmit s (b_admission_seq b))) (encode_admitted_batch b) S =
     Inr (S\<lparr>ss_admits := bt_insert (b_admission_seq b) b (ss_admits S)\<rparr>)"
  unfolding load_space_def space_byte
  by (simp_all add: expect_decoded_def u64_at_def get_at_def codec_record.decode_encode HeldLease_decode_norm oplog_cursors.decode_encode
      ver_high.decode_encode device_op.decode_encode meta_checksum.decode_encode admit_cursors.decode_encode admitted_batch.decode_encode
      valid_held_def Key_new_wf)

lemma load_space_view:
  assumes k: "mkey_space k = Some s" and v: "meta_value A k = Some v" and V: "valid_space (m_space A s)" and S: "space_view A K s S"
  shows "\<exists>S'. load_space (mkey_components k) v S = Inr S' \<and> space_view A (insert k K) s S'"
proof (cases k)
  case (MCodec t)
  with k v obtain r where "t = s" "ms_codec (m_space A s) = Some r" "v = CodecRecord_encode r" by auto
  then show ?thesis using S MCodec by (simp add: load_space_rows space_view_def del: mkey_components.simps)
next
  case (MLease t pre)
  with k v obtain h where h: "t = s" "ms_leases (m_space A s) pre = Some h" "v = HeldLease_encode h" by auto
  then have "valid_held h" "norm_held h = h" "pre = l_prefix (hl_lease h)" using valid_spaceD(5-7) [OF V] by blast+
  then show ?thesis using S MLease h by (auto simp: load_space_rows space_view_def simp del: mkey_components.simps)
next
  case (MCursors t)
  with k v obtain c where "t = s" "ms_cursors (m_space A s) = Some c" "v = OplogCursors_encode c" by auto
  then show ?thesis using S MCursors by (simp add: load_space_rows space_view_def meta_cursors_def del: mkey_components.simps)
next
  case (MVer t)
  with k v obtain c where "t = s" "ms_ver_high (m_space A s) = Some c" "v = VerHighRecord_encode \<lparr>vh_high = c\<rparr>" by auto
  then show ?thesis using S MVer by (simp add: load_space_rows space_view_def del: mkey_components.simps)
next
  case (MOplog t q)
  with k v obtain op where "t = s" "ms_oplog (m_space A s) q = Some op" "v = DeviceOp_encode op" by auto
  then show ?thesis using S MOplog valid_spaceD(2) [OF V] by (simp add: load_space_rows space_view_def del: mkey_components.simps)
next
  case (MChecksum t)
  with k v obtain c where "t = s" "ms_checksum (m_space A s) = Some c" "v = ChecksumRecord_encode \<lparr>ck_value = c\<rparr>" by auto
  then show ?thesis using S MChecksum valid_spaceD(1) [OF V] by (simp add: load_space_rows space_view_def meta_checksum_def del: mkey_components.simps)
next
  case (MAdmitCursors t)
  with k v obtain c where "t = s" "ms_admit_cursors (m_space A s) = Some c" "v = AdmitCursors_encode c" by auto
  then show ?thesis using S MAdmitCursors by (simp add: load_space_rows space_view_def meta_admit_cursors_def del: mkey_components.simps)
next
  case (MAdmit t q)
  with k v obtain b where b: "t = s" "ms_admits (m_space A s) q = Some b" "v = encode_admitted_batch b" by auto
  then have "valid_batch b" "q = b_admission_seq b" using valid_spaceD(3,4) [OF V] by blast+
  then show ?thesis using S MAdmit b by (simp add: load_space_rows space_view_def del: mkey_components.simps)
qed (use k in auto)

lemma load_entry_view:
  assumes k: "wf_mkey k" and v: "meta_value A k = Some v" and V: "valid_meta A" and cs: "load_view A K cs"
  shows "\<exists>cs'. load_entry cs (mkey_bytes k, v) = Inr cs' \<and> load_view A (insert k K) cs'"
proof (cases "mkey_space k")
  case None
  have keep: "bt_wf (cs_spaces cs)" "\<forall>s S. bt_get (cs_spaces cs) s = Some S \<longrightarrow> wf_id s \<and> space_view A (insert k K) s S"
    "\<forall>s. \<forall>k \<in> insert k K. mkey_space k = Some s \<longrightarrow> bt_get (cs_spaces cs) s \<noteq> None"
    using load_viewD [OF cs] None space_view_frame [of k _ A K] by auto
  have d: "MetaDeviceRecord_decode (MetaDeviceRecord_encode \<lparr>md_id = d\<rparr>) = Some \<lparr>md_id = d\<rparr>" if "m_device A = Some d" for d
    using V that by (simp add: valid_meta_def meta_device.decode_encode)
  show ?thesis using None
  proof (cases k)
    case MDevice
    with v obtain id where id: "m_device A = Some id" "v = MetaDeviceRecord_encode \<lparr>md_id = id\<rparr>" by auto
    let ?cs' = "cs\<lparr>cs_device := Some id\<rparr>"
    have "load_entry cs (mkey_bytes k, v) = Inr ?cs'"
      using MDevice id d by (simp add: load_entry_def storage_components_mkey single_byte_def get_at_def load_client_def
          expect_decoded_def NAMESPACE_META_def ROOT_CLIENT_def)
    moreover have "load_view A (insert k K) ?cs'" using cs keep MDevice id by (simp add: load_view_def)
    ultimately show ?thesis by blast
  next
    case MClock
    with v obtain t where t: "m_clock A = Some t" "v = ClockRecord_encode \<lparr>cr_high_water = t\<rparr>" by auto
    let ?cs' = "cs\<lparr>cs_clock_high := Some t\<rparr>"
    have "load_entry cs (mkey_bytes k, v) = Inr ?cs'"
      using MClock t by (simp add: load_entry_def storage_components_mkey single_byte_def get_at_def load_client_def
          expect_decoded_def NAMESPACE_META_def ROOT_CLIENT_def clock_record.decode_encode)
    moreover have "load_view A (insert k K) ?cs'" using cs keep MClock t by (simp add: load_view_def)
    ultimately show ?thesis by blast
  qed auto
next
  case (Some s)
  let ?S = "case bt_get (cs_spaces cs) s of None \<Rightarrow> SpaceState_default | Some S \<Rightarrow> S"
  have "space_view A K s ?S"
  proof (cases "bt_get (cs_spaces cs) s")
    case None
    then show ?thesis using space_view_default [of K s A] load_viewD(4) [OF cs] by fastforce
  qed (use load_viewD(3) [OF cs] in simp)
  then obtain S' where S': "load_space (mkey_components k) v ?S = Inr S'" "space_view A (insert k K) s S'"
    using load_space_view [OF Some v] V by (force simp: valid_meta_def)
  let ?cs' = "cs\<lparr>cs_spaces := bt_insert s S' (cs_spaces cs)\<rparr>"
  have "single_byte (mkey_components k) 0 w = Inr 0" "single_byte (mkey_components k) 1 w' = Inr 1"
    "get_at (mkey_components k) 2 = Some s" "length s = 16" for w w'
    using Some k by (cases k; simp add: single_byte_def get_at_def wf_id_def)+
  then have "load_entry cs (mkey_bytes k, v) = Inr ?cs'"
    using S'(1) by (simp add: load_entry_def storage_components_mkey [OF k] NAMESPACE_META_def ROOT_CLIENT_def ROOT_SPACE_def)
  moreover have "load_view A (insert k K) ?cs'"
  proof -
    have "wf_id s" using Some k by (cases k) auto
    moreover have "wf_id t \<and> space_view A (insert k K) t S" if "t \<noteq> s" "bt_get (cs_spaces cs) t = Some S" for t S
      using load_viewD(2,3) [OF cs that(2)] space_view_frame [of k t A K S] Some that(1) by simp
    moreover have "MDevice \<noteq> k" "MClock \<noteq> k" using Some by auto
    ultimately show ?thesis using cs S'(2) Some unfolding load_view_def by auto
  qed
  ultimately show ?thesis by blast
qed

lemma load_fold_view:
  assumes "valid_meta A" "load_view A K cs" "\<forall>kv \<in> set kvs. \<exists>k. wf_mkey k \<and> fst kv = mkey_bytes k \<and> meta_value A k = Some (snd kv)"
  shows "\<exists>cs'. rfold load_entry cs kvs = Inr cs' \<and> load_view A (K \<union> {k. wf_mkey k \<and> mkey_bytes k \<in> fst ` set kvs}) cs'"
  using assms(2,3)
proof (induction kvs arbitrary: K cs)
  case (Cons kv kvs)
  obtain k where k: "wf_mkey k" "fst kv = mkey_bytes k" "meta_value A k = Some (snd kv)" using Cons.prems(2) by auto
  have kv: "kv = (mkey_bytes k, snd kv)" using k(2) by (simp add: prod_eq_iff)
  from load_entry_view [OF k(1,3) assms(1) Cons.prems(1)] kv
  obtain cs' where cs': "load_entry cs kv = Inr cs'" "load_view A (insert k K) cs'" by metis
  from Cons.IH [OF cs'(2)] Cons.prems(2) obtain cs'' where
    "rfold load_entry cs' kvs = Inr cs''" "load_view A (insert k K \<union> {k. wf_mkey k \<and> mkey_bytes k \<in> fst ` set kvs}) cs''" by auto
  moreover have "insert k K \<union> {k. wf_mkey k \<and> mkey_bytes k \<in> fst ` set kvs} = K \<union> {k. wf_mkey k \<and> mkey_bytes k \<in> fst ` set (kv # kvs)}"
    using k by auto
  ultimately show ?case using cs'(1) by auto
qed simp

text \<open>The loaded state: every space that has a record appears with the abstract state's fields.\<close>

definition loaded :: "Meta \<Rightarrow> ClientState \<Rightarrow> bool" where
  "loaded A cs \<longleftrightarrow> cs_device cs = m_device A \<and> cs_clock_high cs = m_clock A \<and> bt_wf (cs_spaces cs) \<and>
     (\<forall>s S. bt_get (cs_spaces cs) s = Some S \<longrightarrow>
        ss_cursors S = meta_cursors (m_space A s) \<and> ss_admit_cursors S = meta_admit_cursors (m_space A s) \<and>
        ss_checksum S = meta_checksum (m_space A s) \<and> ss_ver_high S = ms_ver_high (m_space A s) \<and> ss_codec S = ms_codec (m_space A s) \<and>
        bt_wf (ss_oplog S) \<and> bt_get (ss_oplog S) = ms_oplog (m_space A s) \<and>
        bt_wf (ss_admits S) \<and> bt_get (ss_admits S) = ms_admits (m_space A s) \<and>
        bt_wf (ss_leases S) \<and> (\<forall>i h. bt_get (ss_leases S) i = Some h \<longrightarrow> l_id (hl_lease h) = i \<and> (\<exists>pre. ms_leases (m_space A s) pre = Some h)) \<and>
        (\<forall>pre h. ms_leases (m_space A s) pre = Some h \<longrightarrow> bt_get (ss_leases S) (l_id (hl_lease h)) \<noteq> None)) \<and>
     (\<forall>s. bt_get (cs_spaces cs) s = None \<and> wf_id s \<longrightarrow> m_space A s = MetaSpace_empty)"

lemma MetaSpace_empty_eq:
  assumes "valid_space S" "ms_cursors S = None" "ms_admit_cursors S = None" "ms_checksum S = None" "ms_ver_high S = None"
    and "\<And>q. ms_oplog S q = None" "\<And>q. ms_admits S q = None" "ms_codec S = None" "\<And>pre. wf_key pre \<Longrightarrow> ms_leases S pre = None"
  shows "S = MetaSpace_empty"
proof -
  have "ms_leases S pre = None" for pre
    using valid_spaceD(5,7) [OF assms(1), of pre] assms(9) [of pre] by (cases "ms_leases S pre") (auto simp: valid_held_def)
  then have "ms_leases S = Map.empty" "ms_oplog S = Map.empty" "ms_admits S = Map.empty" using assms(6,7) by auto
  with assms(2-5,8) show ?thesis by (simp add: MetaSpace_empty_def)
qed

lemma load_view_all:
  assumes "load_view A {k. wf_mkey k \<and> meta_value A k \<noteq> None} cs" and V: "valid_meta A"
  shows "loaded A cs"
proof -
  note view = load_viewD(2,3) [OF assms(1)]
  have absent: "meta_value A k = None" if "bt_get (cs_spaces cs) s = None" "mkey_space k = Some s" "wf_mkey k" for s k
    using load_viewD(4) [OF assms(1), of k s] that by (cases "meta_value A k") auto
  show ?thesis
    unfolding loaded_def
  proof (intro conjI allI impI)
    fix s S assume S: "bt_get (cs_spaces cs) s = Some S"
    note V = view [OF S, unfolded space_view_def]
    show "ss_cursors S = meta_cursors (m_space A s)" "ss_admit_cursors S = meta_admit_cursors (m_space A s)"
      "ss_checksum S = meta_checksum (m_space A s)" "ss_ver_high S = ms_ver_high (m_space A s)" "ss_codec S = ms_codec (m_space A s)"
      "bt_wf (ss_oplog S)" "bt_wf (ss_admits S)" "bt_wf (ss_leases S)"
      using V by (auto simp: meta_cursors_def meta_admit_cursors_def meta_checksum_def split: option.splits)
    show "bt_get (ss_oplog S) = ms_oplog (m_space A s)" "bt_get (ss_admits S) = ms_admits (m_space A s)" using V by fastforce+
    show "l_id (hl_lease h) = i" "\<exists>pre. ms_leases (m_space A s) pre = Some h" if "bt_get (ss_leases S) i = Some h" for i h using V that by blast+
    have wf: "wf_mkey (MLease s pre)" if "ms_leases (m_space A s) pre = Some h" for pre h
      using valid_spaceD(5,7) [of "m_space A s", OF _ that] assms(2) view(1) [OF S] by (auto simp: valid_meta_def valid_held_def)
    show "bt_get (ss_leases S) (l_id (hl_lease h)) \<noteq> None" if h: "ms_leases (m_space A s) pre = Some h" for pre h
    proof -
      have "\<forall>pre h. wf_mkey (MLease s pre) \<and> meta_value A (MLease s pre) \<noteq> None \<and> ms_leases (m_space A s) pre = Some h \<longrightarrow>
          bt_get (ss_leases S) (l_id (hl_lease h)) \<noteq> None" using V by blast
      with wf [OF h] h show ?thesis by (metis meta_value.simps(4) option.map_disc_iff option.distinct(1))
    qed
  next
    fix s assume s: "bt_get (cs_spaces cs) s = None \<and> wf_id s"
    show "m_space A s = MetaSpace_empty"
      using assms(2) s absent [of s "MCursors s"] absent [of s "MAdmitCursors s"] absent [of s "MChecksum s"] absent [of s "MVer s"]
        absent [of s "MOplog s _"] absent [of s "MAdmit s _"] absent [of s "MCodec s"] absent [of s "MLease s _"]
      by (intro MetaSpace_empty_eq) (simp_all add: valid_meta_def)
  qed (use assms(1) in \<open>auto simp: load_view_def\<close>)
qed

lemma load_represented:
  assumes R: "meta_repr st A"
  shows "\<exists>cs. load st = Inr cs \<and> loaded A cs"
proof -
  obtain kvs where kvs: "scan_prefix st meta_scan_all = Inr kvs"
    and rows: "\<forall>k v. (k, v) \<in> set kvs \<longleftrightarrow> MemoryStore_get st k = Some v \<and> prefix meta_scan_all k"
    using scan_rows [OF meta_reprD(1) [OF R]] by blast
  have "\<exists>k. wf_mkey k \<and> fst kv = mkey_bytes k \<and> meta_value A k = Some (snd kv)" if kv: "kv \<in> set kvs" for kv
  proof -
    have get: "MemoryStore_get st (fst kv) = Some (snd kv)" "prefix meta_scan_all (fst kv)"
      using rows [rule_format, of "fst kv" "snd kv"] kv by simp_all
    then obtain k where "wf_mkey k" "fst kv = mkey_bytes k" using meta_reprD(4) [OF R] by blast
    with get meta_reprD(3) [OF R, of k] show ?thesis by auto
  qed
  moreover have "load_view A {} ClientState_default"
    by (simp add: load_view_def ClientState_default_def bt_wf_def bt_get_def)
  ultimately obtain cs where cs: "rfold load_entry ClientState_default kvs = Inr cs"
    "load_view A ({} \<union> {k. wf_mkey k \<and> mkey_bytes k \<in> fst ` set kvs}) cs"
    using load_fold_view [OF meta_reprD(2) [OF R]] by blast
  have "mkey_bytes k \<in> fst ` set kvs \<longleftrightarrow> meta_value A k \<noteq> None" if "wf_mkey k" for k
  proof -
    have "mkey_bytes k \<in> fst ` set kvs \<longleftrightarrow> (\<exists>v. (mkey_bytes k, v) \<in> set kvs)" by force
    also have "\<dots> \<longleftrightarrow> MemoryStore_get st (mkey_bytes k) \<noteq> None" using rows scan_prefix_mkeys(1) by auto
    finally show ?thesis using meta_reprD(3) [OF R that] by simp
  qed
  then have "{} \<union> {k. wf_mkey k \<and> mkey_bytes k \<in> fst ` set kvs} = {k. wf_mkey k \<and> meta_value A k \<noteq> None}" by auto
  with cs load_view_all [of A cs] meta_reprD(2) [OF R] kvs show ?thesis by (auto simp: load_def)
qed

end
