(* ===== verification/MetaAudit.thy ===== *)
theory MetaAudit
  imports MetaLoad
begin

text \<open>
  The audit \<open>certify\<close> never fails on a store that the client's transitions produced.  \<open>space_inv\<close> is the
  invariant of one space's abstract state, kept by every transition whose caller keeps its
  documented obligations: a commit's entries carry the reserved versions, and the counters
  do not reach the end of their 64-bit range.
\<close>

subsection \<open>The invariant\<close>

definition queued_rows :: "MetaSpace \<Rightarrow> DeviceSeq list" where
  "queued_rows S = filter (\<lambda>q. oc_neck (meta_cursors S) \<le> q \<and> q < oc_tail (meta_cursors S)) (sorted_list_of_set (dom (ms_oplog S)))"

definition queued :: "MetaSpace \<Rightarrow> entry list" where
  "queued S = concat (map (\<lambda>q. DeviceOp_entries (the (ms_oplog S q))) (queued_rows S))"

definition space_inv :: "MetaSpace \<Rightarrow> bool" where
  "space_inv S \<longleftrightarrow>
     oc_head (meta_cursors S) \<le> oc_neck (meta_cursors S) \<and> oc_neck (meta_cursors S) \<le> oc_tail (meta_cursors S) \<and>
     0 < ac_head (meta_admit_cursors S) \<and>
     ac_head (meta_admit_cursors S) \<le> ac_neck (meta_admit_cursors S) \<and> ac_neck (meta_admit_cursors S) \<le> ac_tail (meta_admit_cursors S) \<and>
     dom (ms_admits S) = {q. ac_head (meta_admit_cursors S) \<le> q \<and> q < ac_tail (meta_admit_cursors S)} \<and>
     (\<forall>q op. ms_oplog S q = Some op \<longrightarrow> certify_row (meta_cursors S) (q, op)) \<and>
     sorted_wrt (<) (map DeviceEntry_ver (queued S)) \<and>
     (\<forall>e \<in> set (queued S). DeviceEntry_ver e \<le> meta_ver S) \<and> (queued S \<noteq> [] \<longrightarrow> ms_ver_high S \<noteq> None)"

lemma space_invD:
  assumes "space_inv S"
  shows "oc_head (meta_cursors S) \<le> oc_neck (meta_cursors S)" "oc_neck (meta_cursors S) \<le> oc_tail (meta_cursors S)"
    and "0 < ac_head (meta_admit_cursors S)"
    and "ac_head (meta_admit_cursors S) \<le> ac_neck (meta_admit_cursors S)" "ac_neck (meta_admit_cursors S) \<le> ac_tail (meta_admit_cursors S)"
    and "dom (ms_admits S) = {q. ac_head (meta_admit_cursors S) \<le> q \<and> q < ac_tail (meta_admit_cursors S)}"
    and "ms_oplog S q = Some op \<Longrightarrow> certify_row (meta_cursors S) (q, op)"
    and "sorted_wrt (<) (map DeviceEntry_ver (queued S))" "e \<in> set (queued S) \<Longrightarrow> DeviceEntry_ver e \<le> meta_ver S"
    and "queued S \<noteq> [] \<Longrightarrow> ms_ver_high S \<noteq> None"
  using assms unfolding space_inv_def by blast+

subsection \<open>The audit of a loaded state\<close>

lemma bt_enumerate:
  assumes "bt_wf t"
  shows "t = map (\<lambda>k. (k, the (bt_get t k))) (sorted_list_of_set (dom (bt_get t)))"
proof -
  have "sorted_wrt (<) (map fst t)" using assms by (simp add: bt_wf_def)
  moreover have dom: "dom (bt_get t) = set (map fst t)" by (simp add: bt_get_def [abs_def] dom_map_of_conv_image_fst)
  ultimately have keys: "sorted_list_of_set (dom (bt_get t)) = map fst t"
    unfolding dom strict_sorted_iff by (intro sorted_list_of_set.idem_if_sorted_distinct) simp_all
  have "(fst kv, the (bt_get t (fst kv))) = kv" if "kv \<in> set t" for kv
    using bt_get_Some [OF assms, of "fst kv" "snd kv"] that by (simp add: prod_eq_iff)
  then show ?thesis unfolding keys by (simp add: map_idI comp_def)
qed

definition window :: "u64 \<Rightarrow> u64 \<Rightarrow> u64 list" where
  "window a b = map of_nat [unat a..<unat b]"

lemma unat_of_nat_less: "n < unat (b :: u64) \<Longrightarrow> unat (of_nat n :: u64) = n"
  using unat_of_nat_below [of n b] by simp

lemma sorted_window: "sorted_list_of_set {q. a \<le> q \<and> q < b} = window a b"
proof -
  have mem: "set (window a b) = {q. a \<le> q \<and> q < b}"
  proof
    show "set (window a b) \<subseteq> {q. a \<le> q \<and> q < b}"
    proof
      fix q assume "q \<in> set (window a b)"
      then obtain n where "q = of_nat n" "unat a \<le> n" "n < unat b" by (auto simp: window_def)
      then show "q \<in> {q. a \<le> q \<and> q < b}" using unat_of_nat_less [of n b] by (simp add: word_le_nat_alt word_less_nat_alt)
    qed
    show "{q. a \<le> q \<and> q < b} \<subseteq> set (window a b)"
    proof
      fix q assume "q \<in> {q. a \<le> q \<and> q < b}"
      then have "unat q \<in> set [unat a..<unat b]" by (simp add: word_le_nat_alt word_less_nat_alt)
      then have "of_nat (unat q) \<in> set (window a b)" unfolding window_def set_map by (rule imageI)
      then show "q \<in> set (window a b)" by simp
    qed
  qed
  have "(of_nat m :: u64) < of_nat n" if "m < n" "n \<in> set [unat a..<unat b]" for m n
    using that unat_of_nat_less [of n b] unat_of_nat_less [of m b] by (auto simp: word_less_nat_alt)
  then have "sorted_wrt (\<lambda>m n. (of_nat m :: u64) < of_nat n) [unat a..<unat b]"
    by (intro sorted_wrt_mono_rel [OF _ sorted_wrt_upt]) auto
  then have "sorted_wrt (<) (window a b)" by (simp add: window_def sorted_wrt_map)
  then show ?thesis unfolding mem [symmetric] strict_sorted_iff by (intro sorted_list_of_set.idem_if_sorted_distinct) simp_all
qed

lemma certify_admits_upt:
  assumes "\<And>i. i \<in> set is \<Longrightarrow> b_admission_seq (f i) = of_nat i \<and> AdmittedBatch_validate (f i) = Inr ()" "is = [unat a + n..<m]"
  shows "certify_admits a n (map (\<lambda>i. (of_nat i, f i)) is)"
  using assms
proof (induction "is" arbitrary: n)
  case (Cons i "is")
  have i: "i = unat a + n" "is = [unat a + Suc n..<m]"
    using upt_eq_Cons_conv [of "unat a + n" m i "is"] Cons.prems(2) by auto
  have "certify_admits a (Suc n) (map (\<lambda>i. (of_nat i, f i)) is)" by (rule Cons.IH) (use Cons.prems(1) i in auto)
  then show ?case using Cons.prems(1) [of i] i(1) by simp
qed simp

lemma certify_vers_increasing:
  assumes "bt_wf last_ver" "sorted_wrt (<) (map DeviceEntry_ver es)" "\<And>k v e. bt_get last_ver k = Some v \<Longrightarrow> e \<in> set es \<Longrightarrow> v < DeviceEntry_ver e"
  shows "certify_vers last_ver es"
  using assms
proof (induction es arbitrary: last_ver)
  case (Cons e es)
  have "certify_vers (bt_insert k (DeviceEntry_ver e) last_ver) es" for k
  proof (rule Cons.IH)
    show "v < DeviceEntry_ver e'" if "bt_get (bt_insert k (DeviceEntry_ver e) last_ver) k' = Some v" "e' \<in> set es" for k' v e'
      using that Cons.prems by (auto split: if_splits)
  qed (use Cons.prems in auto)
  moreover have "certify_vers last_ver es" by (rule Cons.IH) (use Cons.prems in auto)
  ultimately show ?case using Cons.prems(3) by (auto split: option.splits)
qed simp

lemma certify_space_loaded:
  assumes inv: "space_inv S" and V: "valid_space S"
    and L: "ss_cursors ss = meta_cursors S" "ss_admit_cursors ss = meta_admit_cursors S" "ss_ver_high ss = ms_ver_high S"
      "bt_wf (ss_oplog ss)" "bt_get (ss_oplog ss) = ms_oplog S" "bt_wf (ss_admits ss)" "bt_get (ss_admits ss) = ms_admits S"
  shows "certify_space ss"
proof -
  let ?c = "meta_cursors S" and ?a = "meta_admit_cursors S"
  note I = space_invD [OF inv]
  have oplog: "ss_oplog ss = map (\<lambda>q. (q, the (ms_oplog S q))) (sorted_list_of_set (dom (ms_oplog S)))"
    using bt_enumerate [OF L(4)] L(5) by simp
  have admits: "ss_admits ss = map (\<lambda>q. (q, the (ms_admits S q))) (window (ac_head ?a) (ac_tail ?a))"
    using bt_enumerate [OF L(6)] L(7) I(6) by (simp add: sorted_window)
  have queue: "concat (map (\<lambda>(_, record). DeviceOp_entries record) (active_oplog ss)) = queued S"
    by (simp add: active_oplog_def oplog L(1) queued_def queued_rows_def filter_map comp_def)
  have le: "unat (ac_head ?a) \<le> unat (ac_tail ?a)" using I(4,5) by (simp add: word_le_nat_alt)
  have batch: "b_admission_seq (the (ms_admits S q)) = q \<and> AdmittedBatch_validate (the (ms_admits S q)) = Inr ()"
    if "q \<in> set (window (ac_head ?a) (ac_tail ?a))" for q
  proof -
    have "q \<in> dom (ms_admits S)" using that I(6) sorted_window [of "ac_head ?a" "ac_tail ?a"]
      by (metis (no_types, lifting) set_sorted_list_of_set valid_spaceD(9) [OF V])
    then obtain b where "ms_admits S q = Some b" by auto
    with valid_spaceD(3,4) [OF V] show ?thesis by (auto simp: valid_batch_def AdmittedBatch_validate_iff)
  qed
  have "certify_admits (ac_head ?a) 0 (map (\<lambda>i. (of_nat i, the (ms_admits S (of_nat i)))) [unat (ac_head ?a) + 0..<unat (ac_tail ?a)])"
    by (rule certify_admits_upt [where f = "\<lambda>i. the (ms_admits S (of_nat i))", OF _ refl]) (use batch in \<open>auto simp: window_def\<close>)
  then have "certify_admits (ac_head ?a) 0 (ss_admits ss)" by (simp add: admits window_def comp_def)
  moreover have "length (ss_admits ss) = unat (ac_tail ?a - ac_head ?a)"
    using le by (simp add: admits window_def unat_sub word_le_nat_alt)
  moreover have "list_all (certify_row ?c) (ss_oplog ss)"
    using I(7) valid_spaceD(8) [OF V] by (auto simp: oplog list_all_iff)
  moreover have "certify_vers [] (queued S)"
    by (rule certify_vers_increasing [OF _ I(8)]) (simp_all add: bt_wf_def bt_get_def)
  moreover have "queued S = [] \<or> (case ms_ver_high S of None \<Rightarrow> False | Some high \<Rightarrow> list_all (\<lambda>e. DeviceEntry_ver e \<le> high) (queued S))"
    using I(9,10) by (cases "queued S = []") (auto simp: meta_ver_def list_all_iff)
  ultimately show ?thesis
    using I(1,2,4,5) by (simp add: certify_space_def Let_def L queue)
qed

lemma certify_loaded:
  assumes "loaded A cs" "valid_meta A" "\<And>s. space_inv (m_space A s)"
    and "\<And>s pre h high. ms_leases (m_space A s) pre = Some h \<Longrightarrow> m_clock A = Some high \<Longrightarrow> certify_stamp high h"
  shows "certify cs"
proof -
  have get: "bt_get (cs_spaces cs) s = Some ss" if "(s, ss) \<in> set (cs_spaces cs)" for s ss
    using assms(1) that bt_get_Some by (fastforce simp: loaded_def)
  have "certify_space ss" if "(s, ss) \<in> set (cs_spaces cs)" for s ss
    using assms(1) get [OF that] assms(2) by (intro certify_space_loaded [OF assms(3) [of s]]) (auto simp: loaded_def valid_meta_def)
  moreover have "certify_stamp high h"
    if s: "(s, ss) \<in> set (cs_spaces cs)" and h: "(i, h) \<in> set (ss_leases ss)" and c: "m_clock A = Some high" for s ss i h high
  proof -
    have wf: "bt_wf (ss_leases ss)" and pre: "bt_get (ss_leases ss) i = Some h \<Longrightarrow> \<exists>pre. ms_leases (m_space A s) pre = Some h"
      using assms(1) get [OF s] by (auto simp: loaded_def)
    obtain pre where "ms_leases (m_space A s) pre = Some h" using pre bt_get_Some [OF wf] h by blast
    then show ?thesis by (rule assms(4) [OF _ c])
  qed
  ultimately show ?thesis
    using assms(1) by (auto simp: certify_def loaded_def list_all_iff split: option.splits)
qed

subsection \<open>Preservation\<close>

text \<open>Entries stamped with the reserved versions: consecutive above the high-water, without overflow.\<close>

definition stamped :: "ReservedCommit \<Rightarrow> entry list \<Rightarrow> bool" where
  "stamped reserved entries \<longleftrightarrow>
     (\<exists>v. unat v + length entries < 2 ^ 64 \<and> rc_ver_high reserved = v + of_nat (length entries) \<and>
        map DeviceEntry_ver entries = map (\<lambda>i. v + 1 + of_nat i) [0..<length entries])"

fun caller_ok :: "MetaCommand \<Rightarrow> bool" where
  "caller_ok (Commit s reserved entries) \<longleftrightarrow> stamped reserved entries \<and> unat (rc_seq reserved) + 1 < 2 ^ 64"
| "caller_ok _ \<longleftrightarrow> True"

lemma queued_cong:
  assumes "ms_cursors S' = ms_cursors S" "ms_oplog S' = ms_oplog S"
  shows "queued S' = queued S" "meta_cursors S' = meta_cursors S"
  using assms by (simp_all add: queued_def queued_rows_def meta_cursors_def)

lemma space_inv_frame:
  assumes "space_inv S" "ms_cursors S' = ms_cursors S" "ms_oplog S' = ms_oplog S" "ms_ver_high S' = ms_ver_high S"
    and "ms_admit_cursors S' = ms_admit_cursors S" "ms_admits S' = ms_admits S"
  shows "space_inv S'"
  using assms queued_cong [OF assms(2,3)] by (simp add: space_inv_def meta_admit_cursors_def meta_ver_def)

lemma sorted_list_of_set_snoc:
  fixes t :: "'a :: linorder"
  assumes "finite D" "\<And>q. q \<in> D \<Longrightarrow> q < t"
  shows "sorted_list_of_set (insert t D) = sorted_list_of_set D @ [t]"
proof -
  let ?l = "sorted_list_of_set D @ [t]"
  have "sorted ?l" "distinct ?l" "set ?l = insert t D"
    using assms by (auto simp: sorted_append order.strict_implies_order)
  then show ?thesis using sorted_list_of_set.idem_if_sorted_distinct [of ?l] by simp
qed

lemma word_succ_less: "unat (t :: u64) + 1 < 2 ^ 64 \<Longrightarrow> unat (t + 1) = unat t + 1"
  by (simp add: unat_word_ariths)

lemma queued_append:
  assumes V: "valid_space S" and inv: "space_inv S" and t: "t = oc_tail (meta_cursors S)" "unat t + 1 < 2 ^ 64"
    and S': "ms_oplog S' = (ms_oplog S)(t \<mapsto> op)" "meta_cursors S' = (meta_cursors S)\<lparr>oc_tail := t + 1\<rparr>"
  shows "queued S' = queued S @ DeviceOp_entries op"
proof -
  let ?D = "dom (ms_oplog S)"
  have below: "q < t" if "q \<in> ?D" for q using space_invD(7) [OF inv] that by (auto simp: certify_row_def t(1))
  have step: "q < t + 1 \<longleftrightarrow> q \<le> t" for q using word_succ_less [OF t(2)] by (simp add: word_less_nat_alt word_le_nat_alt less_Suc_eq_le)
  have "sorted_list_of_set (dom (ms_oplog S')) = sorted_list_of_set ?D @ [t]"
    using sorted_list_of_set_snoc [OF valid_spaceD(8) [OF V] below] by (simp add: S'(1))
  moreover have "filter (\<lambda>q. oc_neck (meta_cursors S) \<le> q \<and> q < t + 1) (sorted_list_of_set ?D) = queued_rows S"
    using below [THEN order.strict_implies_order] below valid_spaceD(8) [OF V]
    by (auto simp: queued_rows_def t(1) [symmetric] step domI intro!: filter_cong)
  ultimately have rows: "queued_rows S' = queued_rows S @ [t]"
    using space_invD(2) [OF inv] by (simp add: queued_rows_def [of S'] S'(2) step t(1) [symmetric])
  have "the (ms_oplog S' q) = the (ms_oplog S q)" if "q \<in> set (queued_rows S)" for q
    using that below valid_spaceD(8) [OF V] by (auto simp: queued_rows_def S'(1))
  then have "map (\<lambda>q. DeviceOp_entries (the (ms_oplog S' q))) (queued_rows S) = map (\<lambda>q. DeviceOp_entries (the (ms_oplog S q))) (queued_rows S)"
    by (intro map_cong) auto
  moreover have "the (ms_oplog S' t) = op" by (simp add: S'(1))
  ultimately show ?thesis unfolding queued_def rows map_append by (simp only: concat_append list.map concat.simps append_Nil2)
qed

lemma commit_inv:
  assumes V: "valid_space S" and inv: "space_inv S" and ok: "caller_ok (Commit s reserved entries)"
  shows "space_inv (snd (space_step (Commit s reserved entries) S))"
proof (cases "length entries = length (rc_versions reserved) \<and> checked_sub64 (rc_ver_high reserved) (of_nat (length entries)) = Some (meta_ver S) \<and>
    oc_tail (meta_cursors S) = rc_seq reserved")
  case False
  then show ?thesis using inv by (auto split: option.splits)
next
  case True
  let ?op = "commit_with_asserts entries (rc_range_asserts reserved) (rc_submit_mode reserved)"
  let ?t = "rc_seq reserved" and ?n = "length entries"
  define S' where "S' = S\<lparr>ms_oplog := (ms_oplog S)(?t \<mapsto> ?op), ms_cursors := Some ((meta_cursors S)\<lparr>oc_tail := ?t + 1\<rparr>), ms_ver_high := Some (rc_ver_high reserved)\<rparr>"
  have t: "?t = oc_tail (meta_cursors S)" "unat ?t + 1 < 2 ^ 64" using True ok by simp_all
  obtain v where v: "unat v + ?n < 2 ^ 64" "rc_ver_high reserved = v + of_nat ?n"
    "map DeviceEntry_ver entries = map (\<lambda>i. v + 1 + of_nat i) [0..<?n]" using ok by (auto simp: stamped_def)
  have ver: "meta_ver S = v" using True v(2) by (auto simp: checked_sub64_def split: if_splits)
  have queue: "queued S' = queued S @ entries"
    using queued_append [OF V inv t, of S' ?op] by (simp add: S'_def meta_cursors_def commit_with_asserts_def)
  have num: "unat (v + 1 + of_nat i) = unat v + 1 + i" if "i < ?n" for i
    using that v(1) by (simp add: unat_word_ariths unat_of_nat)
  have high: "unat (rc_ver_high reserved) = unat v + ?n" using v(1,2) by (simp add: unat_word_ariths unat_of_nat)
  have new: "unat v < unat (DeviceEntry_ver e) \<and> unat (DeviceEntry_ver e) \<le> unat v + ?n" if "e \<in> set entries" for e
  proof -
    have "DeviceEntry_ver e \<in> set (map (\<lambda>i. v + 1 + of_nat i) [0..<?n])" using that v(3) by (metis image_eqI list.set_map)
    then show ?thesis using num by auto
  qed
  have "sorted_wrt (<) (map (\<lambda>i. v + 1 + of_nat i) [0..<?n])"
    unfolding sorted_wrt_map by (rule sorted_wrt_mono_rel [OF _ sorted_wrt_upt]) (auto simp: word_less_nat_alt num)
  then have "sorted_wrt (<) (map DeviceEntry_ver (queued S'))"
    using space_invD(8,9) [OF inv] new by (auto simp: queue sorted_wrt_append v(3) [symmetric] ver word_less_nat_alt word_le_nat_alt intro: le_less_trans)
  moreover have "meta_ver S' = rc_ver_high reserved" by (simp add: S'_def meta_ver_def)
  then have "DeviceEntry_ver e \<le> meta_ver S'" if "e \<in> set (queued S')" for e
    using that new space_invD(9) [OF inv, of e] high by (auto simp: queue ver word_le_nat_alt)
  moreover have "?t < ?t + 1" "q < ?t \<Longrightarrow> q < ?t + 1" for q using word_succ_less [OF t(2)] by (auto simp: word_less_nat_alt)
  then have "certify_row (meta_cursors S') (q, op)" if "ms_oplog S' q = Some op" for q op
    using that space_invD(1,2) [OF inv] space_invD(7) [OF inv, of q op] t(1)
    by (auto simp: S'_def meta_cursors_def certify_row_def commit_with_asserts_def split: if_splits DeviceOp.splits)
  moreover have "oc_neck (meta_cursors S) \<le> ?t + 1" using space_invD(2) [OF inv] t word_succ_less [OF t(2)] by (auto simp: word_le_nat_alt)
  ultimately have "space_inv S'"
    using inv unfolding space_inv_def by (simp add: S'_def meta_cursors_def meta_admit_cursors_def)
  moreover have "snd (space_step (Commit s reserved entries) S) = S'" using True by (auto simp: S'_def split: option.splits)
  ultimately show ?thesis by simp
qed

lemma sorted_wrt_subseq: "subseq xs ys \<Longrightarrow> sorted_wrt P ys \<Longrightarrow> sorted_wrt P xs"
  by (induction rule: list_emb.induct) (auto dest: subseq_set)

lemma subseq_concat_map_filter: "subseq (concat (map f (filter P xs))) (concat (map f xs))"
  by (induction xs) (auto intro: list_emb_append_mono list_emb_append2)

lemma queued_shrinks:
  assumes "dom (ms_oplog S') \<subseteq> dom (ms_oplog S)" "\<And>q. q \<in> dom (ms_oplog S') \<Longrightarrow> ms_oplog S' q = ms_oplog S q" "finite (dom (ms_oplog S))"
    and "oc_neck (meta_cursors S) \<le> oc_neck (meta_cursors S')" "oc_tail (meta_cursors S') = oc_tail (meta_cursors S)"
  shows "subseq (queued S') (queued S)"
proof -
  let ?P = "\<lambda>q. oc_neck (meta_cursors S') \<le> q \<and> q \<in> dom (ms_oplog S')"
  have fin: "finite (dom (ms_oplog S'))" by (rule finite_subset [OF assms(1,3)])
  have "sorted_list_of_set (dom (ms_oplog S')) = filter (\<lambda>q. q \<in> dom (ms_oplog S')) (sorted_list_of_set (dom (ms_oplog S)))"
    by (rule sorted_distinct_set_unique) (use assms fin in \<open>auto intro: sorted_wrt_filter\<close>)
  then have "queued_rows S' = filter ?P (queued_rows S)"
    unfolding queued_rows_def filter_filter using assms(4,5) by (auto intro!: filter_cong)
  moreover have "map (\<lambda>q. DeviceOp_entries (the (ms_oplog S' q))) (filter ?P (queued_rows S)) =
      map (\<lambda>q. DeviceOp_entries (the (ms_oplog S q))) (filter ?P (queued_rows S))"
    using assms(2) by (intro map_cong) auto
  ultimately show ?thesis
    unfolding queued_def by (simp only: subseq_concat_map_filter)
qed

lemma queued_subseq_inv:
  assumes "space_inv S" "subseq (queued S') (queued S)" "ms_ver_high S' = ms_ver_high S"
  shows "sorted_wrt (<) (map DeviceEntry_ver (queued S'))" "e \<in> set (queued S') \<Longrightarrow> DeviceEntry_ver e \<le> meta_ver S'"
    and "queued S' \<noteq> [] \<Longrightarrow> ms_ver_high S' \<noteq> None"
proof -
  have sub: "set (queued S') \<subseteq> set (queued S)" by (rule subseq_set [OF assms(2)])
  have ver: "meta_ver S' = meta_ver S" by (simp add: meta_ver_def assms(3))
  show "sorted_wrt (<) (map DeviceEntry_ver (queued S'))"
    using sorted_wrt_subseq [OF subseq_map [OF assms(2)] space_invD(8) [OF assms(1)]] .
  show "e \<in> set (queued S') \<Longrightarrow> DeviceEntry_ver e \<le> meta_ver S'" using sub ver space_invD(9) [OF assms(1)] by auto
  show "queued S' \<noteq> [] \<Longrightarrow> ms_ver_high S' \<noteq> None" using assms(2,3) space_invD(10) [OF assms(1)] by (cases "queued S") auto
qed

lemma trim_oplog_inv:
  assumes V: "valid_space S" and inv: "space_inv S"
  shows "space_inv (snd (space_step (TrimOplog s through checksum) S))"
proof (cases "through < oc_neck (meta_cursors S) \<and> checksum \<noteq> meta_checksum S")
  case True
  then show ?thesis using inv by (simp add: Let_def)
next
  case False
  let ?c = "meta_cursors S"
  define advanced where "advanced = min (sat_add64 through 1) (oc_tail ?c)"
  define c' where "c' = ?c\<lparr>oc_head := max (oc_head ?c) advanced, oc_neck := max (oc_neck ?c) advanced\<rparr>"
  define S' where "S' = S\<lparr>ms_checksum := Some checksum, ms_oplog := ms_oplog S |` {q. through < q},
    ms_cursors := (if c' \<noteq> ?c then Some c' else ms_cursors S)\<rparr>"
  have c': "meta_cursors S' = c'" by (auto simp: S'_def meta_cursors_def)
  have adv: "advanced \<le> oc_tail ?c" by (simp add: advanced_def)
  have past: "advanced \<le> q" if "through < q" for q
  proof -
    have "unat (sat_add64 through 1) \<le> unat through + 1"
    proof (cases "unat through + 1 < 18446744073709551616")
      case False
      then show ?thesis using u64_less [of "sat_add64 through 1"] by linarith
    qed (simp add: sat_add64_def unat_word_ariths)
    then have "sat_add64 through 1 \<le> q" using that by (simp add: word_le_nat_alt word_less_nat_alt)
    then show ?thesis by (simp add: advanced_def min_le_iff_disj)
  qed
  have oplog: "ms_oplog S' = ms_oplog S |` {q. through < q}" by (simp add: S'_def)
  have "subseq (queued S') (queued S)"
    by (rule queued_shrinks) (auto simp: c' oplog c'_def valid_spaceD(8) [OF V] restrict_map_def split: if_splits)
  note Q = queued_subseq_inv [OF inv this]
  have "certify_row c' (q, op)" if "ms_oplog S' q = Some op" for q op
    using that space_invD(7) [OF inv, of q op] past [of q] by (auto simp: oplog c'_def certify_row_def restrict_map_def split: if_splits)
  moreover have "oc_head c' \<le> oc_neck c'" "oc_neck c' \<le> oc_tail c'" using space_invD(1,2) [OF inv] adv by (auto simp: c'_def max.coboundedI1)
  moreover have "meta_admit_cursors S' = meta_admit_cursors S" "ms_admits S' = ms_admits S" by (simp_all add: S'_def meta_admit_cursors_def)
  ultimately have "space_inv S'"
    unfolding space_inv_def c' using space_invD(3-6) [OF inv] Q by (simp add: S'_def)
  moreover have "snd (space_step (TrimOplog s through checksum) S) = S'"
    by (simp only: space_step.simps Let_def advanced_def [symmetric] c'_def [symmetric] S'_def [symmetric] False if_False snd_conv)
  ultimately show ?thesis by simp
qed

lemma rollback_inv:
  assumes V: "valid_space S" and inv: "space_inv S"
  shows "space_inv (snd (spec_rollback to S))"
proof (cases "to < oc_neck (meta_cursors S) \<or> to \<ge> oc_tail (meta_cursors S) \<or> checked_add64 (oc_tail (meta_cursors S)) 1 = None")
  case True
  then show ?thesis using inv by (auto simp: spec_rollback_def Let_def split: option.splits)
next
  case False
  let ?c = "meta_cursors S" and ?t = "oc_tail (meta_cursors S)"
  have t: "unat ?t + 1 < 2 ^ 64" "checked_add64 ?t 1 = Some (?t + 1)" using False by (auto simp: checked_add64_def split: if_splits)
  define S' where "S' = S\<lparr>ms_oplog := (ms_oplog S)(?t \<mapsto> RollbackOp to), ms_cursors := Some (?c\<lparr>oc_neck := ?t, oc_tail := ?t + 1\<rparr>)\<rparr>"
  have c': "meta_cursors S' = ?c\<lparr>oc_neck := ?t, oc_tail := ?t + 1\<rparr>" by (simp add: S'_def meta_cursors_def)
  have oplog: "ms_oplog S' = (ms_oplog S)(?t \<mapsto> RollbackOp to)" by (simp add: S'_def)
  have below: "q < ?t" if "q \<in> dom (ms_oplog S)" for q using space_invD(7) [OF inv] that by (auto simp: certify_row_def)
  have "sorted_list_of_set (dom (ms_oplog S')) = sorted_list_of_set (dom (ms_oplog S)) @ [?t]"
    using sorted_list_of_set_snoc [OF valid_spaceD(8) [OF V] below] by (simp add: S'_def)
  moreover have "filter (\<lambda>q. ?t \<le> q \<and> q < ?t + 1) (sorted_list_of_set (dom (ms_oplog S))) = []"
    using below valid_spaceD(8) [OF V] by (force simp: filter_empty_conv)
  ultimately have "queued S' = []" by (simp add: queued_def queued_rows_def c') (simp add: S'_def)
  moreover have less: "?t < ?t + 1" "q < ?t \<Longrightarrow> q < ?t + 1" for q using word_succ_less [OF t(1)] by (auto simp: word_less_nat_alt)
  then have "certify_row (meta_cursors S') (q, op)" if "ms_oplog S' q = Some op" for q op
    using that False space_invD(1,2) [OF inv] space_invD(7) [OF inv, of q op]
    by (auto simp: c' certify_row_def oplog split: if_splits DeviceOp.splits)
  moreover have "meta_admit_cursors S' = meta_admit_cursors S" "ms_admits S' = ms_admits S" by (simp_all add: S'_def meta_admit_cursors_def)
  moreover have "oc_head ?c \<le> ?t" "?t \<le> ?t + 1" using space_invD(1,2) [OF inv] less(1) by (auto intro: order.strict_implies_order)
  ultimately have "space_inv S'"
    unfolding space_inv_def using space_invD(3-6) [OF inv] by (simp add: c')
  moreover have "snd (spec_rollback to S) = S'" using False t(2) by (simp add: spec_rollback_def Let_def S'_def)
  ultimately show ?thesis by simp
qed

lemma space_inv_admits:
  assumes "space_inv S" "ms_cursors S' = ms_cursors S" "ms_oplog S' = ms_oplog S" "meta_ver S \<le> meta_ver S'"
    and "ms_ver_high S \<noteq> None \<Longrightarrow> ms_ver_high S' \<noteq> None" and "a = meta_admit_cursors S'"
    and "0 < ac_head a" "ac_head a \<le> ac_neck a" "ac_neck a \<le> ac_tail a" "dom (ms_admits S') = {q. ac_head a \<le> q \<and> q < ac_tail a}"
  shows "space_inv S'"
  using assms queued_cong [OF assms(2,3)] order_trans [OF _ assms(4)] unfolding space_inv_def by auto

lemma append_admits_inv:
  assumes inv: "space_inv S"
  shows "space_inv (snd (space_step (AppendAdmits s response) S))"
proof (cases "validate_dense response = Inr () \<and> ac_tail (meta_admit_cursors S) \<noteq> 0 \<and> ps_after response = ac_tail (meta_admit_cursors S) - 1 \<and>
    ps_batches response \<noteq> [] \<and> checked_add64 (ps_through response) 1 \<noteq> None")
  case False
  then show ?thesis using inv by (cases "validate_dense response") (auto simp: Let_def)
next
  case True
  let ?a = "meta_admit_cursors S" and ?bs = "ps_batches response" and ?n = "ps_through response + 1"
  let ?seen = "fold max (map AdmittedEntry_ver (concat (map b_entries ?bs))) 0"
  define S' where "S' = S\<lparr>ms_admits := admit_updates ?bs (ms_admits S), ms_admit_cursors := Some (?a\<lparr>ac_tail := ?n\<rparr>),
    ms_ver_high := (if ms_ver_high S \<noteq> None \<or> ?seen > 0 then Some (max (meta_ver S) ?seen) else None)\<rparr>"
  have n: "checked_add64 (ps_through response) 1 = Some ?n" "unat ?n = unat (ps_through response) + 1"
    using True by (auto simp: checked_add64_def unat_word_ariths split: if_splits)
  have dense: "unat (ps_after response) + length ?bs = unat (ps_through response)"
    "\<And>j. j < length ?bs \<Longrightarrow> unat (b_admission_seq (?bs ! j)) = unat (ps_after response) + j + 1"
    using True by (auto simp: validate_dense_iff dense_response_def)
  have tail: "unat (ac_tail ?a) = unat (ps_after response) + 1"
  proof -
    have "0 < unat (ac_tail ?a)" using True by (simp add: unat_gt_0)
    then show ?thesis using True by (simp add: unat_minus_one)
  qed
  have mem: "q \<in> b_admission_seq ` set ?bs \<longleftrightarrow> ac_tail ?a \<le> q \<and> q < ?n" for q
  proof
    assume "q \<in> b_admission_seq ` set ?bs"
    then obtain j where "j < length ?bs" "q = b_admission_seq (?bs ! j)" by (auto simp: in_set_conv_nth)
    then show "ac_tail ?a \<le> q \<and> q < ?n" using dense tail n(2) by (simp add: word_le_nat_alt word_less_nat_alt)
  next
    assume q: "ac_tail ?a \<le> q \<and> q < ?n"
    define j where "j = unat q - unat (ac_tail ?a)"
    have "j < length ?bs" "unat q = unat (ps_after response) + j + 1"
      using q tail n(2) dense(1) by (auto simp: j_def word_le_nat_alt word_less_nat_alt)
    then have "q = b_admission_seq (?bs ! j)" using dense(2) by (simp add: word_unat_eq_iff)
    with \<open>j < length ?bs\<close> show "q \<in> b_admission_seq ` set ?bs" by auto
  qed
  have le: "ac_tail ?a \<le> ?n" using tail n(2) dense(1) by (simp add: word_le_nat_alt)
  have "space_inv S'"
  proof (rule space_inv_admits [OF inv, where a = "?a\<lparr>ac_tail := ?n\<rparr>"])
    show "dom (ms_admits S') = {q. ac_head (?a\<lparr>ac_tail := ?n\<rparr>) \<le> q \<and> q < ac_tail (?a\<lparr>ac_tail := ?n\<rparr>)}"
    proof (rule set_eqI)
      fix q
      have "q \<in> dom (ms_admits S') \<longleftrightarrow> q \<in> dom (ms_admits S) \<or> q \<in> b_admission_seq ` set ?bs"
        by (auto simp: S'_def dom_admit_updates)
      then show "q \<in> dom (ms_admits S') \<longleftrightarrow> q \<in> {q. ac_head (?a\<lparr>ac_tail := ?n\<rparr>) \<le> q \<and> q < ac_tail (?a\<lparr>ac_tail := ?n\<rparr>)}"
        unfolding mem space_invD(6) [OF inv] using space_invD(4,5) [OF inv] le by auto
    qed
    show "meta_ver S \<le> meta_ver S'" by (auto simp: S'_def meta_ver_def)
  qed (use space_invD(3-5) [OF inv] le in \<open>auto simp: S'_def meta_admit_cursors_def\<close>)
  moreover have "snd (space_step (AppendAdmits s response) S) = S'"
    using True n(1) by (simp add: Let_def S'_def admit_updates_def)
  ultimately show ?thesis by simp
qed

lemma mark_admits_inv:
  assumes inv: "space_inv S"
  shows "space_inv (snd (space_step (MarkAdmitsApplied s to) S))"
proof -
  let ?a = "meta_admit_cursors S"
  show ?thesis
  proof (cases "to < ac_neck ?a \<or> to > ac_tail ?a \<or> to = ac_neck ?a")
    case False
    define S' where "S' = S\<lparr>ms_admit_cursors := Some (?a\<lparr>ac_neck := to\<rparr>)\<rparr>"
    have "space_inv S'"
    proof (rule space_inv_admits [OF inv, where a = "?a\<lparr>ac_neck := to\<rparr>"])
      show "dom (ms_admits S') = {q. ac_head (?a\<lparr>ac_neck := to\<rparr>) \<le> q \<and> q < ac_tail (?a\<lparr>ac_neck := to\<rparr>)}"
        using space_invD(6) [OF inv] by (simp add: S'_def)
      show "ac_head (?a\<lparr>ac_neck := to\<rparr>) \<le> ac_neck (?a\<lparr>ac_neck := to\<rparr>)" using space_invD(4) [OF inv] False by auto
    qed (use space_invD(3) [OF inv] False in \<open>auto simp: S'_def meta_admit_cursors_def meta_ver_def\<close>)
    then show ?thesis using False by (simp add: Let_def S'_def)
  qed (use inv in \<open>auto simp: Let_def\<close>)
qed

lemma trim_admits_inv:
  assumes inv: "space_inv S"
  shows "space_inv (snd (space_step (TrimAdmits s to) S))"
proof -
  let ?a = "meta_admit_cursors S"
  show ?thesis
  proof (cases "to < ac_head ?a \<or> to > ac_neck ?a \<or> to = ac_head ?a")
    case False
    define S' where "S' = S\<lparr>ms_admits := ms_admits S |` (- {q. ac_head ?a \<le> q \<and> q < to}), ms_admit_cursors := Some (?a\<lparr>ac_head := to\<rparr>)\<rparr>"
    have "space_inv S'"
    proof (rule space_inv_admits [OF inv, where a = "?a\<lparr>ac_head := to\<rparr>"])
      show "dom (ms_admits S') = {q. ac_head (?a\<lparr>ac_head := to\<rparr>) \<le> q \<and> q < ac_tail (?a\<lparr>ac_head := to\<rparr>)}"
        using space_invD(6) [OF inv] False by (auto simp: S'_def)
      show "0 < ac_head (?a\<lparr>ac_head := to\<rparr>)" using space_invD(3) [OF inv] False by auto
    qed (use space_invD(5) [OF inv] False in \<open>auto simp: S'_def meta_admit_cursors_def meta_ver_def\<close>)
    then show ?thesis using False by (simp add: Let_def S'_def)
  qed (use inv in \<open>auto simp: Let_def\<close>)
qed

lemma space_step_inv:
  assumes "valid_space S" "space_inv S" "caller_ok cmd"
  shows "space_inv (snd (space_step cmd S))"
proof (cases cmd)
  case (Commit s reserved entries)
  then show ?thesis using commit_inv assms by blast
next
  case (TrimOplog s through checksum)
  then show ?thesis using trim_oplog_inv assms by blast
next
  case (AppendAdmits s response)
  then show ?thesis using append_admits_inv assms by blast
next
  case (MarkAdmitsApplied s to)
  then show ?thesis using mark_admits_inv assms by blast
next
  case (TrimAdmits s to)
  then show ?thesis using trim_admits_inv assms by blast
qed (use assms rollback_inv in \<open>auto intro: space_inv_frame split: option.splits\<close>)

text \<open>
  The stamps of the lease rows stay below the recorded clock.  The clock may be set back only
  below no stored stamp, and lease rows are stamped under the clock that is recorded.
\<close>

definition stamps_below :: "Timestamp \<Rightarrow> MetaSpace \<Rightarrow> bool" where
  "stamps_below high S \<longleftrightarrow> (\<forall>pre h. ms_leases S pre = Some h \<longrightarrow> certify_stamp high h)"

definition meta_inv :: "Meta \<Rightarrow> bool" where
  "meta_inv A \<longleftrightarrow> (\<forall>s. space_inv (m_space A s)) \<and> (\<forall>high s. m_clock A = Some high \<longrightarrow> stamps_below high (m_space A s))"

fun obliged :: "MetaCommand \<Rightarrow> Meta \<Rightarrow> bool" where
  "obliged (RecordClock t) A \<longleftrightarrow> (\<forall>s. stamps_below t (m_space A s))"
| "obliged (RecordLeases s leases) A \<longleftrightarrow> (\<forall>high. m_clock A = Some high \<longrightarrow> list_all (certify_stamp high) leases)"
| "obliged (ReconcileLeases s leases) A \<longleftrightarrow> (\<forall>high. m_clock A = Some high \<longrightarrow> list_all (certify_stamp high) leases)"
| "obliged cmd A \<longleftrightarrow> caller_ok cmd"

lemma obliged_caller_ok: "obliged cmd A \<Longrightarrow> caller_ok cmd"
  by (cases cmd) auto

lemma certify_stamp_norm [simp]: "certify_stamp high (norm_held h) = certify_stamp high h"
  by (simp add: certify_stamp_def norm_held_def)

lemma lease_updates_stamps:
  assumes "lease_updates leases m pre = Some h" "list_all (certify_stamp high) leases" "\<And>h. m pre = Some h \<Longrightarrow> certify_stamp high h"
  shows "certify_stamp high h"
  using assms
proof (induction leases arbitrary: m)
  case (Cons x leases)
  show ?case
    by (rule Cons.IH [of "m(l_prefix (hl_lease x) \<mapsto> norm_held x)"]) (use Cons.prems in \<open>auto simp: lease_updates_def fun_upd_def split: if_splits\<close>)
qed (simp add: lease_updates_def)

lemma space_step_stamps:
  assumes "stamps_below high S" "\<And>s leases. cmd = RecordLeases s leases \<or> cmd = ReconcileLeases s leases \<Longrightarrow> list_all (certify_stamp high) leases"
  shows "stamps_below high (snd (space_step cmd S))"
proof (cases cmd)
  case (RecordLeases s leases)
  then show ?thesis using assms lease_updates_stamps [of leases "ms_leases S" _ _ high] by (auto simp: stamps_below_def)
next
  case (ReconcileLeases s leases)
  then show ?thesis using assms lease_updates_stamps [of leases Map.empty _ _ high] by (auto simp: stamps_below_def)
next
  case (ForgetLeases s ids)
  then show ?thesis using assms(1) by (auto simp: stamps_below_def certify_stamp_def)
next
  case (AppendAdmits s response)
  then show ?thesis using assms(1) by (cases "validate_dense response") (auto simp: stamps_below_def Let_def split: option.splits)
qed (use assms(1) in \<open>auto simp: stamps_below_def Let_def spec_rollback_def split: option.splits if_splits\<close>)

lemma meta_spec_inv:
  assumes V: "valid_meta A" and inv: "meta_inv A" and ok: "obliged cmd A"
  shows "meta_inv (snd (meta_spec cmd A))"
proof (cases "command_space cmd")
  case None
  then show ?thesis using inv ok by (cases cmd) (auto simp: meta_spec_def meta_inv_def)
next
  case (Some s)
  let ?S = "snd (space_step cmd (m_space A s))"
  have "space_inv ?S"
    using V inv space_step_inv [OF _ _ obliged_caller_ok [OF ok], of "m_space A s"] by (simp add: valid_meta_def meta_inv_def)
  moreover have "stamps_below high ?S" if "m_clock A = Some high" for high
    using that inv ok by (intro space_step_stamps) (auto simp: meta_inv_def)
  ultimately show ?thesis using inv Some by (simp add: meta_spec_def meta_inv_def case_prod_unfold)
qed

subsection \<open>Runs\<close>

fun obeys :: "MetaCommand list \<Rightarrow> Meta \<Rightarrow> bool" where
  "obeys [] A \<longleftrightarrow> True"
| "obeys (cmd # cmds) A \<longleftrightarrow> wf_meta_command cmd \<and> obliged cmd A \<and> obeys cmds (snd (meta_spec cmd A))"

lemma obeys_wf: "obeys cmds A \<Longrightarrow> list_all wf_meta_command cmds"
  by (induction cmds A rule: obeys.induct) auto

lemma meta_run_inv:
  assumes "meta_repr st A" "meta_inv A" "obeys cmds A"
  shows "meta_repr (snd (meta_run cmds st)) (snd (spec_run cmds A)) \<and> meta_inv (snd (spec_run cmds A))"
  using assms
proof (induction cmds arbitrary: st A)
  case (Cons cmd cmds)
  have "meta_repr (snd (meta_step cmd st)) (snd (meta_spec cmd A))" "meta_inv (snd (meta_spec cmd A))"
    using meta_step_repr [OF Cons.prems(1)] meta_spec_inv [OF meta_reprD(2) [OF Cons.prems(1)]] Cons.prems(2,3) by auto
  from Cons.IH [OF this] Cons.prems(3) show ?case by (simp add: case_prod_unfold)
qed simp

lemma meta_inv_empty: "meta_inv Meta_empty"
  by (simp add: meta_inv_def Meta_empty_def MetaSpace_empty_def space_inv_def meta_cursors_def meta_admit_cursors_def queued_def queued_rows_def
      OplogCursors_default_def AdmitCursors_default_def)

lemma audit_passes:
  assumes "meta_repr st A" "meta_inv A"
  shows "\<exists>cs. load st = Inr cs \<and> loaded A cs \<and> certify cs"
proof -
  obtain cs where "load st = Inr cs" "loaded A cs" using load_represented [OF assms(1)] by blast
  moreover have "certify cs"
    by (rule certify_loaded [OF \<open>loaded A cs\<close> meta_reprD(2) [OF assms(1)]]) (use assms(2) in \<open>auto simp: meta_inv_def stamps_below_def\<close>)
  ultimately show ?thesis by blast
qed

subsection \<open>The theorems on the store\<close>

text \<open>C11: the client's metadata store, from its first use, answers every sequence of transitions exactly as
  the abstract state does: the same replies and errors in the same order, and loading the
  bytes at the end succeeds and yields the abstract state's device, clock, cursors, logs,
  checksum, versions and leases.\<close>

theorem client_store_refines_its_specification:
  assumes "list_all wf_meta_command cmds"
  shows "fst (meta_run cmds []) = fst (spec_run cmds Meta_empty) \<and>
    (\<exists>cs. load (snd (meta_run cmds [])) = Inr cs \<and> loaded (snd (spec_run cmds Meta_empty)) cs)"
  using meta_run_refines [OF meta_repr_empty assms] load_represented by blast

text \<open>The witness: a device, a commit, a stale second commit, and a rollback of the first.\<close>

theorem client_store_refines_its_specification_witness:
  "let s = replicate 16 7; r = \<lparr>rc_seq = 1, rc_ver_high = 0, rc_versions = [], rc_range_asserts = [], rc_submit_mode = Checked\<rparr> in
   fst (meta_run [RecordDevice (replicate 16 1), Commit s r [], Commit s r [], Rollback s 1] []) =
     [Inr Done, Inr (CommittedAs \<lparr>cm_seq = 1, cm_ver_high = 0\<rparr>), Inl StaleReservation, Inr Done]"
proof -
  let ?s = "replicate 16 7 :: bytes"
  let ?r = "\<lparr>rc_seq = 1, rc_ver_high = 0, rc_versions = [], rc_range_asserts = [], rc_submit_mode = Checked\<rparr>"
  let ?cmds = "[RecordDevice (replicate 16 1), Commit ?s ?r [], Commit ?s ?r [], Rollback ?s 1]"
  have "list_all wf_meta_command ?cmds" by (simp add: wf_id_def commit_with_asserts_def)
  from client_store_refines_its_specification [OF this, THEN conjunct1] show ?thesis
    by (simp add: word_le_nat_alt word_less_nat_alt Let_def meta_spec_def Meta_empty_def MetaSpace_empty_def meta_cursors_def meta_ver_def OplogCursors_default_def
        checked_sub64_def checked_add64_def spec_rollback_def)
qed

text \<open>C12: a restart never fails on state the client itself wrote: when every caller kept its obligations
  (reserved versions on committed entries, counters inside their range, no lease row stamped
  above the recorded clock, no clock recorded below a stored lease stamp), the store loads and the
  audit that opening a client runs on it passes.\<close>

theorem reopening_passes_the_audit:
  assumes "obeys cmds Meta_empty"
  shows "\<exists>cs. load (snd (meta_run cmds [])) = Inr cs \<and> certify cs"
  using meta_run_inv [OF meta_repr_empty meta_inv_empty assms] audit_passes by blast

text \<open>The witness: a clock, a lease stamped at it, a commit of one stamped entry, its trim and a second commit.\<close>

definition sample_entry :: "Ver \<Rightarrow> DeviceSeq \<Rightarrow> entry" where
  "sample_entry v q = \<lparr>de_mutation = Delete [[1]], de_tag = \<lparr>dt_device = replicate 16 1, dt_device_seq = q, dt_ver = v, dt_cipher_epoch = 1\<rparr>,
     de_seal = empty_aead_v1\<rparr>"

theorem reopening_passes_the_audit_witness:
  "let s = replicate 16 7;
     lease = \<lparr>hl_lease = \<lparr>l_id = 1, l_prefix = [[1]], l_mode = Write, l_requested_at = \<lparr>wall = 5, mono = 5, lineage = replicate 16 0\<rparr>,
       l_granted_at = 5, l_ttl = 2000000, l_barrier = 0\<rparr>, hl_deadline = \<lparr>wall = 7, mono = 7, lineage = replicate 16 0\<rparr>, hl_forgotten = False\<rparr>;
     commit = (\<lambda>q v. Commit s \<lparr>rc_seq = q, rc_ver_high = v, rc_versions = [v], rc_range_asserts = [], rc_submit_mode = Checked\<rparr> [sample_entry v q])
   in \<exists>cs. load (snd (meta_run [RecordClock 5, RecordLeases s [lease], commit 1 1, TrimOplog s 1 (replicate 32 9), commit 2 2] [])) = Inr cs \<and>
        certify cs"
proof -
  let ?s = "replicate 16 7 :: bytes"
  let ?lease = "\<lparr>hl_lease = \<lparr>l_id = 1, l_prefix = [[1]], l_mode = Write, l_requested_at = \<lparr>wall = 5, mono = 5, lineage = replicate 16 0\<rparr>,
       l_granted_at = 5, l_ttl = 2000000, l_barrier = 0\<rparr>, hl_deadline = \<lparr>wall = 7, mono = 7, lineage = replicate 16 0\<rparr>, hl_forgotten = False\<rparr>"
  let ?commit = "\<lambda>q v. Commit ?s \<lparr>rc_seq = q, rc_ver_high = v, rc_versions = [v], rc_range_asserts = [], rc_submit_mode = Checked\<rparr> [sample_entry v q]"
  have entry: "valid_entry (sample_entry v q)" for v q
    by (simp add: valid_entry_def sample_entry_def wf_entry_def wf_tag_def wf_id_def wf_key_def wf_component_def key_limits wf_seal_def
        empty_aead_v1_def SEAL_NONCE_LEN_def SEAL_AEAD_TAG_LEN_def)
  have wf: "wf_meta_command (?commit q v)" for q v using entry by (simp add: wf_id_def commit_with_asserts_def)
  have held: "valid_held ?lease" "certify_stamp 5 ?lease"
    by (simp_all add: valid_held_def wf_stamp_def wf_key_def wf_component_def key_limits certify_stamp_def millis_u64_def as_millis_def sat_sub64_def)
  have "stamped \<lparr>rc_seq = q, rc_ver_high = v + 1, rc_versions = [v + 1], rc_range_asserts = [], rc_submit_mode = Checked\<rparr> [sample_entry (v + 1) q]"
    if "unat v + 1 < 2 ^ 64" for q v
    using that by (auto simp: stamped_def sample_entry_def DeviceEntry_ver_def intro!: exI [of _ v])
  from this [of 0 1] this [of 1 2] have "obliged (?commit 1 1) A" "obliged (?commit 2 2) A" for A by simp_all
  then have "obeys [RecordClock 5, RecordLeases ?s [?lease], ?commit 1 1, TrimOplog ?s 1 (replicate 32 9), ?commit 2 2] Meta_empty"
    using wf held by (simp add: meta_spec_def Meta_empty_def MetaSpace_empty_def stamps_below_def wf_id_def wf_checksum_def)
  from reopening_passes_the_audit [OF this] show ?thesis by simp
qed

end
