(* ===== verification/Spec2Isabelle.thy ===== *)
theory Spec2Isabelle
  imports Key Range Codec Seal Clock Tag Messages Store Schema Records Log Aggregates Leases LeaseTable
    Data DataView Staging Admission AdmitLoop Admit Reads Space Reach Servers DataPlane Executions
    Coordination History Footprint MetaCodec MetaStore MetaRefine MetaSteps MetaReads MetaLoad MetaAudit
begin

text \<open>
  A verification development for homebase, an end-to-end encrypted, lease-aware, ordered key/value
  log.

  The program.  \<open>core\<close> holds the data model shared by clients and server: hierarchical keys and
  their order-preserving codec, ranges, sealed values, clocks, tags, leases, messages and the
  ordered-store interface with its in-memory implementation.  \<open>server\<close> runs one space actor per
  space over an ordered store: a lease table and a data plane whose single write verb \<open>admit\<close>
  appends complete device batches to an immutable admission log and maintains materialized state.

  Theories.
  \<^item> \<open>Prelude\<close>: machine integers, byte strings and their lexicographic order, the result type.
  \<^item> \<open>Key\<close>, \<open>Range\<close>: \<open>core/src/key.rs\<close>, \<open>core/src/range.rs\<close>.
  \<^item> \<open>Codec\<close>, \<open>Seal\<close>: \<open>core/src/reader.rs\<close>, \<open>core/src/writer.rs\<close>, \<open>core/src/seal.rs\<close>.
  \<^item> \<open>Clock\<close>, \<open>Tag\<close>, \<open>Messages\<close>: \<open>core/src/clock.rs\<close>, \<open>core/src/tag.rs\<close>, \<open>core/src/lease.rs\<close>,
    \<open>core/src/messages.rs\<close>.
\<close>

end
